(* ===== verification/Prelude.thy ===== *)
theory Prelude
  imports Main "HOL-Library.Word" "HOL-Library.List_Lexorder"
begin

text \<open>
  Shared vocabulary of the development: the machine types of the C++ code, byte strings with
  the order of \<open>std::string::compare\<close> (bytewise unsigned, a proper prefix is smaller), string
  literals as bytes, and the collections of rewrite rules that the component theories fill.

  \<^item> \<open>codec\<close> collects the facts that run a decoder over the output of the matching encoder;
  \<^item> \<open>kv_laws\<close> collects the facts on ordered key-value stores.
\<close>

unbundle bit_operations_syntax

named_theorems codec \<open>one decoding step over encoded bytes\<close>
named_theorems kv_laws \<open>laws of ordered key-value stores\<close>

type_synonym u8 = "8 word"
type_synonym u16 = "16 word"
type_synonym u32 = "32 word"
type_synonym u64 = "64 word"
type_synonym byte = "8 word"
type_synonym bytes = "8 word list"

definition str :: "string \<Rightarrow> bytes" where
  "str s = map of_char s"

abbreviation size32 :: "bytes \<Rightarrow> bool" where
  "size32 s \<equiv> length s < 2 ^ 32"

subsection \<open>Words\<close>

lemma unat_of_nat_u32: "n < 2 ^ 32 \<Longrightarrow> unat (of_nat n :: u32) = n"
  by (simp add: unat_of_nat take_bit_nat_eq_self)

lemma unat_of_nat_u64: "n < 2 ^ 64 \<Longrightarrow> unat (of_nat n :: u64) = n"
  by (simp add: unat_of_nat take_bit_nat_eq_self)

lemma unat_plus_1: "t \<noteq> - 1 \<Longrightarrow> unat (t + 1) = Suc (unat t)" for t :: "'a::len word"
  using unatSuc [of t] by (simp add: add.commute eq_neg_iff_add_eq_0)

lemma less_plus_1: "t \<noteq> - 1 \<Longrightarrow> t < t + 1" for t :: "'a::len word"
  by (simp add: word_less_nat_alt unat_plus_1)

lemma Suc_unat_minus_1: "p \<noteq> 0 \<Longrightarrow> Suc (unat (p - 1)) = unat p" for p :: "'a::len word"
  by (simp add: unat_minus_one unat_gt_0)

lemma unat_u64: "unat (x :: u64) < 2 ^ 64"
  using unsigned_less [where 'a = nat, of x] by simp

lemma unat_max_u64: "unat (- 1 :: u64) = 2 ^ 64 - 1"
  by (simp add: unsigned_minus_1_eq_mask mask_eq_exp_minus_1)

subsection \<open>String literals\<close>

lemma of_char_byte_inject: "(of_char c :: byte) = of_char d \<longleftrightarrow> c = d"
proof
  assume "(of_char c :: byte) = of_char d"
  then have "unat (of_nat (of_char c) :: byte) = unat (of_nat (of_char d) :: byte)"
    by (simp only: of_nat_of_char)
  then have "(of_char c :: nat) = of_char d"
    using nat_of_char_less_256 [of c] nat_of_char_less_256 [of d]
    by (simp add: unat_of_nat take_bit_nat_eq_self del: of_nat_of_char)
  then show "c = d" by simp
qed simp

lemma str_inject [simp]: "str s = str t \<longleftrightarrow> s = t"
  unfolding str_def by (rule inj_map_eq_map) (simp add: inj_def of_char_byte_inject)

lemma str_Nil_iff [simp]: "str s = [] \<longleftrightarrow> s = []" "[] = str s \<longleftrightarrow> s = []"
  by (auto simp: str_def)

lemma length_str [simp]: "length (str s) = length s"
  by (simp add: str_def)

subsection \<open>Prefixes\<close>

lemma take_take_append: "length a \<le> n \<Longrightarrow> take (length a) (take n (a @ b)) = a"
  by simp

lemma drop_take_join:
  assumes "n \<le> m" and "m \<le> k"
  shows "drop n (take m ys) @ drop m (take k ys) = drop n (take k ys)"
proof -
  have "drop m ys = drop (m - n) (drop n ys)" using assms(1) by simp
  then have "drop n (take m ys) @ drop m (take k ys) =
      take (m - n) (drop n ys) @ take (k - m) (drop (m - n) (drop n ys))"
    by (simp add: drop_take)
  also have "\<dots> = take ((m - n) + (k - m)) (drop n ys)" by (simp only: take_add)
  finally show ?thesis using assms by (simp add: drop_take)
qed

subsection \<open>Bytes in lexicographic order\<close>

lemma less_append_same [simp]:
  fixes xs ys zs :: "('a::linorder) list"
  shows "xs @ ys < xs @ zs \<longleftrightarrow> ys < zs"
  by (induction xs) auto

lemma less_append_prefix [simp]:
  fixes xs ys :: "('a::linorder) list"
  shows "xs < xs @ ys \<longleftrightarrow> ys \<noteq> []"
proof -
  have "xs @ [] < xs @ ys \<longleftrightarrow> [] < ys" by (rule less_append_same)
  then show ?thesis by (cases ys) auto
qed

lemma le_append_same [simp]:
  fixes xs ys zs :: "('a::linorder) list"
  shows "xs @ ys \<le> xs @ zs \<longleftrightarrow> ys \<le> zs"
  by (simp add: linorder_not_less [symmetric])

lemma not_append_less [simp]:
  fixes xs ys :: "('a::linorder) list"
  shows "\<not> xs @ ys < xs"
  using less_append_same [of xs ys "[]"] by simp

end
