(* ===== verification/Raft.thy ===== *)
theory Raft
  imports Prelude "HOL-Library.AList"
begin

text \<open>
  The deterministic Raft core of \<open>src/raft/raft.h\<close> and \<open>raft.cc\<close>: no threads and no IO, every
  operation maps the core's state to the next one and leaves its side effects in the
  \<open>Ready\<close> field.  Terms and indexes are 64-bit words, as in the code.  The hash maps of the core
  are association lists; reading a missing key gives 0, the value \<open>operator[]\<close> inserts.
  \<open>assert\<close> is compiled out in the project's default build type and has no counterpart here.

  The election deadline is drawn by \<open>std::uniform_int_distribution\<close>, whose algorithm the
  standard leaves open: \<open>uniform_draw\<close> of the configuration gives the \<open>k\<close>-th draw for the two bounds.
\<close>

subsection \<open>Data\<close>

type_synonym NodeId = u32

record LogEntry =
  e_term :: u64
  e_index :: u64
  e_command :: bytes

datatype MsgKind =
  kRequestVote | kRequestVoteResp | kAppendEntries | kAppendEntriesResp
| kInstallSnapshot | kInstallSnapshotResp

record Message =
  m_kind :: MsgKind
  m_from :: NodeId
  m_to :: NodeId
  m_term :: u64
  m_last_log_index :: u64
  m_last_log_term :: u64
  m_granted :: bool
  m_prev_index :: u64
  m_prev_term :: u64
  m_commit :: u64
  m_hb_seq :: u64
  m_entries :: "LogEntry list"
  m_success :: bool
  m_match_index :: u64
  m_hint_index :: u64
  m_snap_index :: u64
  m_snap_term :: u64
  m_snap_data :: bytes

definition empty_message :: Message where
  "empty_message =
     \<lparr>m_kind = kRequestVote, m_from = 0, m_to = 0, m_term = 0,
      m_last_log_index = 0, m_last_log_term = 0, m_granted = False,
      m_prev_index = 0, m_prev_term = 0, m_commit = 0, m_hb_seq = 0, m_entries = [],
      m_success = False, m_match_index = 0, m_hint_index = 0,
      m_snap_index = 0, m_snap_term = 0, m_snap_data = []\<rparr>"

record HardState =
  hs_term :: u64
  hs_voted_for :: NodeId

record Snapshot =
  s_last_index :: u64
  s_last_term :: u64
  s_data :: bytes

datatype Role = kFollower | kCandidate | kLeader

record Ready =
  hard_state_changed :: bool
  hard_state :: HardState
  truncate_from :: u64
  entries_to_append :: "LogEntry list"
  messages :: "Message list"
  committed :: "LogEntry list"
  confirmed_reads :: "(u64 \<times> u64) list"
  snapshot_to_apply :: "Snapshot option"

definition empty_ready :: Ready where
  "empty_ready =
     \<lparr>hard_state_changed = False, hard_state = \<lparr>hs_term = 0, hs_voted_for = 0\<rparr>,
      truncate_from = 0, entries_to_append = [], messages = [], committed = [],
      confirmed_reads = [], snapshot_to_apply = None\<rparr>"

definition ready_Empty :: "Ready \<Rightarrow> bool" where
  "ready_Empty rd \<longleftrightarrow> \<not> hard_state_changed rd \<and> truncate_from rd = 0 \<and>
     entries_to_append rd = [] \<and> messages rd = [] \<and> committed rd = [] \<and>
     confirmed_reads rd = [] \<and> snapshot_to_apply rd = None"

record Config =
  c_id :: NodeId
  c_peers :: "NodeId list"
  election_timeout_min :: int
  election_timeout_max :: int
  heartbeat_interval :: int
  max_entries_per_msg :: nat
  max_bytes_per_msg :: nat
  uniform_draw :: "nat \<Rightarrow> int \<Rightarrow> int \<Rightarrow> int"

record PendingRead =
  pr_ctx :: u64
  pr_read_index :: u64
  pr_hb_seq :: u64

record raft =
  r_config :: Config
  r_hard :: HardState
  r_log :: "LogEntry list"
  r_base :: Snapshot
  r_role :: Role
  r_leader :: NodeId
  r_commit :: u64
  r_last_emitted :: u64
  r_election_elapsed :: int
  r_election_deadline :: int
  r_heartbeat_elapsed :: int
  r_votes :: "(NodeId \<times> bool) list"
  r_next :: "(NodeId \<times> u64) list"
  r_match :: "(NodeId \<times> u64) list"
  r_hb_acked :: "(NodeId \<times> u64) list"
  r_hb_seq :: u64
  r_pending_reads :: "PendingRead list"
  r_draws :: nat
  r_ready :: Ready

definition map_get :: "('k \<times> 'v::zero) list \<Rightarrow> 'k \<Rightarrow> 'v" where
  "map_get m k = (case map_of m k of None \<Rightarrow> 0 | Some v \<Rightarrow> v)"

abbreviation r_id :: "raft \<Rightarrow> NodeId" where "r_id r \<equiv> c_id (r_config r)"
abbreviation r_peers :: "raft \<Rightarrow> NodeId list" where "r_peers r \<equiv> c_peers (r_config r)"
abbreviation r_term :: "raft \<Rightarrow> u64" where "r_term r \<equiv> hs_term (r_hard r)"
abbreviation r_voted :: "raft \<Rightarrow> NodeId" where "r_voted r \<equiv> hs_voted_for (r_hard r)"
abbreviation base_index :: "raft \<Rightarrow> u64" where "base_index r \<equiv> s_last_index (r_base r)"
abbreviation base_term :: "raft \<Rightarrow> u64" where "base_term r \<equiv> s_last_term (r_base r)"

definition quorum :: "raft \<Rightarrow> nat" where
  "quorum r = length (r_peers r) div 2 + 1"

subsection \<open>The log\<close>

definition last_index :: "raft \<Rightarrow> u64" where
  "last_index r = base_index r + of_nat (length (r_log r))"

definition At :: "raft \<Rightarrow> u64 \<Rightarrow> LogEntry" where
  "At r index = r_log r ! unat (index - base_index r - 1)"

definition TermAt :: "raft \<Rightarrow> u64 \<Rightarrow> u64" where
  "TermAt r index =
     (if index = base_index r then base_term r
      else if index > base_index r \<and> index \<le> last_index r
      then e_term (r_log r ! unat (index - base_index r - 1))
      else 0)"

definition LastTerm :: "raft \<Rightarrow> u64" where
  "LastTerm r = TermAt r (last_index r)"

text \<open>The entries carry the indexes that follow \<open>b\<close>.\<close>

fun contiguous :: "u64 \<Rightarrow> LogEntry list \<Rightarrow> bool" where
  "contiguous b [] = True"
| "contiguous b (e # es) = (e_index e = b + 1 \<and> contiguous (b + 1) es)"

subsection \<open>Timers, persistence and sending\<close>

definition ResetElectionTimer :: "raft \<Rightarrow> raft" where
  "ResetElectionTimer r =
     r\<lparr>r_election_elapsed := 0,
       r_election_deadline := uniform_draw (r_config r) (r_draws r)
         (election_timeout_min (r_config r)) (election_timeout_max (r_config r)),
       r_draws := Suc (r_draws r)\<rparr>"

definition PersistHardState :: "raft \<Rightarrow> raft" where
  "PersistHardState r =
     r\<lparr>r_ready := (r_ready r)\<lparr>hard_state_changed := True, hard_state := r_hard r\<rparr>\<rparr>"

definition Send :: "Message \<Rightarrow> raft \<Rightarrow> raft" where
  "Send m r =
     r\<lparr>r_ready := (r_ready r)\<lparr>messages :=
         messages (r_ready r) @ [m\<lparr>m_from := r_id r, m_term := r_term r\<rparr>]\<rparr>\<rparr>"

text \<open>The constructor, from what the host restored from disk.\<close>

definition Raft_new :: "Config \<Rightarrow> HardState \<Rightarrow> LogEntry list \<Rightarrow> Snapshot \<Rightarrow> raft" where
  "Raft_new config hs log base =
     ResetElectionTimer
       \<lparr>r_config = config, r_hard = hs, r_log = log, r_base = base,
        r_role = kFollower, r_leader = 0,
        r_commit = s_last_index base, r_last_emitted = s_last_index base,
        r_election_elapsed = 0, r_election_deadline = 0, r_heartbeat_elapsed = 0,
        r_votes = [], r_next = [], r_match = [], r_hb_acked = [], r_hb_seq = 0,
        r_pending_reads = [], r_draws = 0, r_ready = empty_ready\<rparr>"

subsection \<open>Replication\<close>

text \<open>The entries loop of \<open>SendAppend\<close>, over the indexes from \<open>next\<close> to the last one.\<close>

fun gather_entries :: "raft \<Rightarrow> nat list \<Rightarrow> LogEntry list \<Rightarrow> nat \<Rightarrow> LogEntry list" where
  "gather_entries r [] entries nbytes = entries"
| "gather_entries r (i # is) entries nbytes =
     (if length entries \<ge> max_entries_per_msg (r_config r) then entries
      else if nbytes > max_bytes_per_msg (r_config r) then entries
      else (let e = At r (of_nat i)
            in gather_entries r is (entries @ [e]) (nbytes + length (e_command e) + 24)))"

definition SendAppend :: "NodeId \<Rightarrow> raft \<Rightarrow> raft" where
  "SendAppend peer r =
     (let next = map_get (r_next r) peer
      in if next \<le> base_index r
         then Send (empty_message
                \<lparr>m_kind := kInstallSnapshot, m_to := peer, m_snap_index := base_index r,
                 m_snap_term := base_term r, m_snap_data := s_data (r_base r)\<rparr>) r
         else Send (empty_message
                \<lparr>m_kind := kAppendEntries, m_to := peer, m_prev_index := next - 1,
                 m_prev_term := TermAt r (next - 1), m_commit := r_commit r,
                 m_hb_seq := r_hb_seq r,
                 m_entries := gather_entries r [unat next..<Suc (unat (last_index r))] [] 0\<rparr>) r)"

definition BroadcastAppend :: "raft \<Rightarrow> raft" where
  "BroadcastAppend r =
     fold (\<lambda>peer r. if peer = r_id r then r else SendAppend peer r) (r_peers r) r"

definition EmitCommitted :: "raft \<Rightarrow> raft" where
  "EmitCommitted r =
     (if r_last_emitted r < r_commit r
      then r\<lparr>r_last_emitted := r_commit r,
             r_ready := (r_ready r)\<lparr>committed := committed (r_ready r) @
               map (\<lambda>i. At r (of_nat i)) [Suc (unat (r_last_emitted r))..<Suc (unat (r_commit r))]\<rparr>\<rparr>
      else r)"

definition match_count :: "raft \<Rightarrow> u64 \<Rightarrow> nat" where
  "match_count r n = length (filter (\<lambda>peer. map_get (r_match r) peer \<ge> n) (r_peers r))"

text \<open>The search of \<open>MaybeAdvanceCommit\<close>, from the last index downwards.\<close>

fun find_commit :: "raft \<Rightarrow> nat list \<Rightarrow> u64 option" where
  "find_commit r [] = None"
| "find_commit r (n # ns) =
     (if TermAt r (of_nat n) \<noteq> r_term r then None
      else if match_count r (of_nat n) \<ge> quorum r then Some (of_nat n)
      else find_commit r ns)"

definition MaybeAdvanceCommit :: "raft \<Rightarrow> raft" where
  "MaybeAdvanceCommit r =
     (if r_role r \<noteq> kLeader then r
      else case find_commit r (rev [Suc (unat (r_commit r))..<Suc (unat (last_index r))]) of
             None \<Rightarrow> r
           | Some n \<Rightarrow> EmitCommitted (r\<lparr>r_commit := n\<rparr>))"

subsection \<open>Roles\<close>

definition BecomeFollower :: "u64 \<Rightarrow> NodeId \<Rightarrow> raft \<Rightarrow> raft" where
  "BecomeFollower term leader r =
     (let r1 = (if term > r_term r
                then PersistHardState (r\<lparr>r_hard := \<lparr>hs_term = term, hs_voted_for = 0\<rparr>\<rparr>)
                else r)
      in ResetElectionTimer
           (r1\<lparr>r_role := kFollower, r_leader := leader, r_votes := [], r_pending_reads := []\<rparr>))"

text \<open>Appends one entry at the leader, for the no-op of a new term and for proposals.\<close>

definition leader_append :: "bytes \<Rightarrow> raft \<Rightarrow> raft" where
  "leader_append command r =
     (let e = \<lparr>e_term = r_term r, e_index = last_index r + 1, e_command = command\<rparr>;
          r1 = r\<lparr>r_log := r_log r @ [e],
                 r_ready := (r_ready r)\<lparr>entries_to_append := entries_to_append (r_ready r) @ [e]\<rparr>\<rparr>
      in r1\<lparr>r_match := AList.update (r_id r) (last_index r1) (r_match r1)\<rparr>)"

definition BecomeLeader :: "raft \<Rightarrow> raft" where
  "BecomeLeader r =
     (let r1 = r\<lparr>r_role := kLeader, r_leader := r_id r, r_heartbeat_elapsed := 0,
                 r_next := fold (\<lambda>p m. AList.update p (last_index r + 1) m) (r_peers r) [],
                 r_match := fold (\<lambda>p m. AList.update p 0 m) (r_peers r) [],
                 r_hb_acked := []\<rparr>;
          r2 = leader_append [] r1;
          r3 = r2\<lparr>r_hb_seq := r_hb_seq r2 + 1\<rparr>
      in MaybeAdvanceCommit (BroadcastAppend r3))"

definition StartElection :: "raft \<Rightarrow> raft" where
  "StartElection r =
     (let r1 = PersistHardState
                 (r\<lparr>r_role := kCandidate,
                    r_hard := \<lparr>hs_term = r_term r + 1, hs_voted_for = r_id r\<rparr>\<rparr>);
          r2 = ResetElectionTimer (r1\<lparr>r_leader := 0, r_votes := [(r_id r, True)]\<rparr>)
      in if length (r_votes r2) \<ge> quorum r2 then BecomeLeader r2
         else fold (\<lambda>peer r. if peer = r_id r then r
                else Send (empty_message
                       \<lparr>m_kind := kRequestVote, m_to := peer,
                        m_last_log_index := last_index r, m_last_log_term := LastTerm r\<rparr>) r)
                (r_peers r2) r2)"

definition Tick :: "raft \<Rightarrow> raft" where
  "Tick r =
     (if r_role r = kLeader
      then (let r1 = r\<lparr>r_heartbeat_elapsed := r_heartbeat_elapsed r + 1\<rparr>
            in if r_heartbeat_elapsed r1 \<ge> heartbeat_interval (r_config r)
               then BroadcastAppend (r1\<lparr>r_heartbeat_elapsed := 0, r_hb_seq := r_hb_seq r + 1\<rparr>)
               else r1)
      else (let r1 = r\<lparr>r_election_elapsed := r_election_elapsed r + 1\<rparr>
            in if r_election_elapsed r1 \<ge> r_election_deadline r then StartElection r1 else r1))"

text \<open>\<open>Propose\<close> returns the index and term of the new entry, or None at a non-leader.\<close>

definition Propose :: "bytes \<Rightarrow> raft \<Rightarrow> (u64 \<times> u64) option \<times> raft" where
  "Propose command r =
     (if r_role r \<noteq> kLeader then (None, r)
      else (Some (last_index r + 1, r_term r),
            MaybeAdvanceCommit (BroadcastAppend (leader_append command r))))"

definition StartReadIndex :: "u64 \<Rightarrow> raft \<Rightarrow> bool \<times> raft" where
  "StartReadIndex ctx r =
     (if r_role r \<noteq> kLeader then (False, r)
      else if TermAt r (r_commit r) \<noteq> r_term r then (False, r)
      else if length (r_peers r) = 1
      then (True, r\<lparr>r_ready := (r_ready r)\<lparr>confirmed_reads :=
                      confirmed_reads (r_ready r) @ [(ctx, r_commit r)]\<rparr>\<rparr>)
      else (let r1 = r\<lparr>r_hb_seq := r_hb_seq r + 1\<rparr>
            in (True, BroadcastAppend
                  (r1\<lparr>r_pending_reads := r_pending_reads r1 @
                       [\<lparr>pr_ctx = ctx, pr_read_index = r_commit r1, pr_hb_seq = r_hb_seq r1\<rparr>]\<rparr>))))"

subsection \<open>Message handlers\<close>

definition HandleRequestVote :: "Message \<Rightarrow> raft \<Rightarrow> raft" where
  "HandleRequestVote m r =
     (let up_to_date = (m_last_log_term m > LastTerm r \<or>
            (m_last_log_term m = LastTerm r \<and> m_last_log_index m \<ge> last_index r));
          can_vote = (r_voted r = 0 \<or> r_voted r = m_from m);
          resp = empty_message\<lparr>m_kind := kRequestVoteResp, m_to := m_from m\<rparr>
      in if can_vote \<and> up_to_date
         then (let r1 = (if r_voted r \<noteq> m_from m
                         then PersistHardState (r\<lparr>r_hard := (r_hard r)\<lparr>hs_voted_for := m_from m\<rparr>\<rparr>)
                         else r)
               in Send (resp\<lparr>m_granted := True\<rparr>) (ResetElectionTimer r1))
         else Send resp r)"

definition HandleRequestVoteResp :: "Message \<Rightarrow> raft \<Rightarrow> raft" where
  "HandleRequestVoteResp m r =
     (if r_role r \<noteq> kCandidate then r
      else (let r1 = r\<lparr>r_votes := AList.update (m_from m) (m_granted m) (r_votes r)\<rparr>
            in if length (filter snd (r_votes r1)) \<ge> quorum r1 then BecomeLeader r1 else r1))"

text \<open>The back-off loop that looks for the first index of the conflicting term.\<close>

function conflict_first :: "raft \<Rightarrow> u64 \<Rightarrow> u64 \<Rightarrow> u64" where
  "conflict_first r ct first =
     (if first > base_index r + 1 \<and> TermAt r (first - 1) = ct
      then conflict_first r ct (first - 1) else first)"
  by pat_completeness auto
termination
proof (relation "measure (\<lambda>(r, ct, first). unat first)")
  fix r :: raft and ct first :: u64
  assume "first > base_index r + 1 \<and> TermAt r (first - 1) = ct"
  then have "0 < first" using word_gt_0 by fastforce
  then have "unat (first - 1) < unat first"
    by (simp add: unat_minus_one word_gt_0 unat_gt_0)
  then show "((r, ct, first - 1), (r, ct, first)) \<in> measure (\<lambda>(r, ct, first). unat first)"
    by simp
qed simp

declare conflict_first.simps [simp del]

text \<open>One round of the loop that merges the entries of a message into the log.\<close>

definition append_entry :: "LogEntry \<Rightarrow> raft \<Rightarrow> raft" where
  "append_entry e r =
     (if e_index e \<le> last_index r \<and> TermAt r (e_index e) = e_term e then r
      else (let r1 = (if e_index e \<le> last_index r
                      then r\<lparr>r_log := take (unat (e_index e - base_index r - 1)) (r_log r),
                             r_ready := (r_ready r)
                               \<lparr>truncate_from :=
                                  (if truncate_from (r_ready r) = 0 \<or>
                                      e_index e < truncate_from (r_ready r)
                                   then e_index e else truncate_from (r_ready r)),
                                entries_to_append :=
                                  filter (\<lambda>p. \<not> e_index p \<ge> e_index e)
                                    (entries_to_append (r_ready r))\<rparr>\<rparr>
                      else r)
            in r1\<lparr>r_log := r_log r1 @ [e],
                  r_ready := (r_ready r1)
                    \<lparr>entries_to_append := entries_to_append (r_ready r1) @ [e]\<rparr>\<rparr>))"

text \<open>What follows once the bounds of the message have been cut at the snapshot base.\<close>

definition accept_entries ::
  "Message \<Rightarrow> Message \<Rightarrow> u64 \<Rightarrow> u64 \<Rightarrow> LogEntry list \<Rightarrow> raft \<Rightarrow> raft" where
  "accept_entries m resp prev_index prev_term entries r =
     (if prev_index > last_index r \<or> TermAt r prev_index \<noteq> prev_term
      then Send (resp\<lparr>m_success := False,
                      m_hint_index := (if prev_index > last_index r then last_index r + 1
                                       else conflict_first r (TermAt r prev_index) prev_index)\<rparr>) r
      else (let r1 = fold append_entry entries r;
                r2 = (if m_commit m > r_commit r1
                      then EmitCommitted (r1\<lparr>r_commit := min (m_commit m) (last_index r1)\<rparr>)
                      else r1)
            in Send (resp\<lparr>m_success := True,
                          m_match_index := prev_index + of_nat (length entries)\<rparr>) r2))"

text \<open>The first lines of both handlers for a leader's message.\<close>

definition follow_leader :: "Message \<Rightarrow> raft \<Rightarrow> raft" where
  "follow_leader m r0 =
     (let r1 = (if r_role r0 = kCandidate then BecomeFollower (r_term r0) (m_from m) r0 else r0)
      in ResetElectionTimer (r1\<lparr>r_leader := m_from m\<rparr>))"

definition HandleAppendEntries :: "Message \<Rightarrow> raft \<Rightarrow> raft" where
  "HandleAppendEntries m r0 =
     (let r = follow_leader m r0;
          resp = empty_message\<lparr>m_kind := kAppendEntriesResp, m_to := m_from m,
                               m_hb_seq := m_hb_seq m\<rparr>
      in if m_prev_index m < base_index r
         then (let covered = unat (base_index r - m_prev_index m)
               in if length (m_entries m) \<le> covered
                  then Send (resp\<lparr>m_success := True,
                         m_match_index := max (base_index r)
                           (m_prev_index m + of_nat (length (m_entries m)))\<rparr>) r
                  else accept_entries m resp (base_index r) (base_term r)
                         (drop covered (m_entries m)) r)
         else accept_entries m resp (m_prev_index m) (m_prev_term m) (m_entries m) r)"

definition read_count :: "raft \<Rightarrow> PendingRead \<Rightarrow> nat" where
  "read_count r pr =
     1 + length (filter (\<lambda>(peer, seq). peer \<noteq> r_id r \<and> seq \<ge> pr_hb_seq pr) (r_hb_acked r))"

definition confirm_reads :: "raft \<Rightarrow> raft" where
  "confirm_reads r =
     r\<lparr>r_ready := (r_ready r)\<lparr>confirmed_reads := confirmed_reads (r_ready r) @
         map (\<lambda>pr. (pr_ctx pr, pr_read_index pr))
           (filter (\<lambda>pr. read_count r pr \<ge> quorum r) (r_pending_reads r))\<rparr>,
       r_pending_reads := filter (\<lambda>pr. \<not> read_count r pr \<ge> quorum r) (r_pending_reads r)\<rparr>"

definition note_match :: "Message \<Rightarrow> raft \<Rightarrow> raft" where
  "note_match m r =
     MaybeAdvanceCommit
       (r\<lparr>r_match := AList.update (m_from m)
            (max (map_get (r_match r) (m_from m)) (m_match_index m)) (r_match r),
          r_next := AList.update (m_from m)
            (max (map_get (r_next r) (m_from m)) (m_match_index m + 1)) (r_next r)\<rparr>)"

definition HandleAppendEntriesResp :: "Message \<Rightarrow> raft \<Rightarrow> raft" where
  "HandleAppendEntriesResp m r =
     (if r_role r \<noteq> kLeader then r
      else (let r1 = r\<lparr>r_hb_acked := AList.update (m_from m)
                         (max (map_get (r_hb_acked r) (m_from m)) (m_hb_seq m)) (r_hb_acked r)\<rparr>;
                r2 = (if m_success m then note_match m r1
                      else (let next = map_get (r_next r1) (m_from m);
                                backoff = (if m_hint_index m \<noteq> 0 then m_hint_index m else next - 1)
                            in SendAppend (m_from m)
                                 (r1\<lparr>r_next := AList.update (m_from m)
                                        (max 1 (min backoff (next - 1))) (r_next r1)\<rparr>)))
            in if r_pending_reads r2 \<noteq> [] then confirm_reads r2 else r2))"

definition HandleInstallSnapshot :: "Message \<Rightarrow> raft \<Rightarrow> raft" where
  "HandleInstallSnapshot m r0 =
     (let r = follow_leader m r0;
          resp = empty_message\<lparr>m_kind := kInstallSnapshotResp, m_to := m_from m, m_success := True\<rparr>
      in if m_snap_index m \<le> r_commit r
         then Send (resp\<lparr>m_match_index := r_commit r\<rparr>) r
         else (let snap = \<lparr>s_last_index = m_snap_index m, s_last_term = m_snap_term m,
                           s_data = m_snap_data m\<rparr>
               in Send (resp\<lparr>m_match_index := m_snap_index m\<rparr>)
                    (r\<lparr>r_base := snap, r_log := [], r_commit := m_snap_index m,
                       r_last_emitted := m_snap_index m,
                       r_ready := (r_ready r)
                         \<lparr>entries_to_append := [], committed := [], truncate_from := 0,
                          snapshot_to_apply := Some snap\<rparr>\<rparr>)))"

definition HandleInstallSnapshotResp :: "Message \<Rightarrow> raft \<Rightarrow> raft" where
  "HandleInstallSnapshotResp m r =
     (if r_role r \<noteq> kLeader then r
      else if m_success m then note_match m r else r)"

fun dispatch :: "MsgKind \<Rightarrow> Message \<Rightarrow> raft \<Rightarrow> raft" where
  "dispatch kRequestVote m r = HandleRequestVote m r"
| "dispatch kRequestVoteResp m r = HandleRequestVoteResp m r"
| "dispatch kAppendEntries m r = HandleAppendEntries m r"
| "dispatch kAppendEntriesResp m r = HandleAppendEntriesResp m r"
| "dispatch kInstallSnapshot m r = HandleInstallSnapshot m r"
| "dispatch kInstallSnapshotResp m r = HandleInstallSnapshotResp m r"

definition stale_reply :: "Message \<Rightarrow> raft \<Rightarrow> raft" where
  "stale_reply m r =
     (if m_kind m = kRequestVote
      then Send (empty_message\<lparr>m_kind := kRequestVoteResp, m_to := m_from m\<rparr>) r
      else if m_kind m = kAppendEntries \<or> m_kind m = kInstallSnapshot
      then Send (empty_message
             \<lparr>m_kind := (if m_kind m = kAppendEntries then kAppendEntriesResp
                         else kInstallSnapshotResp),
              m_to := m_from m\<rparr>) r
      else r)"

definition Step :: "Message \<Rightarrow> raft \<Rightarrow> raft" where
  "Step m r =
     (if m_term m > r_term r
      then dispatch (m_kind m) m
             (BecomeFollower (m_term m)
                (if m_kind m = kAppendEntries \<or> m_kind m = kInstallSnapshot then m_from m else 0) r)
      else if m_term m < r_term r then stale_reply m r
      else dispatch (m_kind m) m r)"

subsection \<open>Compaction and draining\<close>

definition CompactTo :: "u64 \<Rightarrow> bytes \<Rightarrow> raft \<Rightarrow> raft" where
  "CompactTo applied_index snapshot_data r =
     (if applied_index \<le> base_index r then r
      else r\<lparr>r_log := drop (unat (applied_index - base_index r)) (r_log r),
             r_base := \<lparr>s_last_index = applied_index, s_last_term = TermAt r applied_index,
                        s_data = snapshot_data\<rparr>\<rparr>)"

definition TakeReady :: "raft \<Rightarrow> Ready \<times> raft" where
  "TakeReady r = (r_ready r, r\<lparr>r_ready := empty_ready\<rparr>)"

end
