(* ===== verification/RaftFrame.thy ===== *)
theory RaftFrame
  imports Raft
begin

text \<open>
  What the internal steps of the Raft core leave alone.  Sending only appends to the message
  list; \<open>same_hard\<close> and \<open>same_log\<close> say that a step keeps the hard state, respectively the log
  and the snapshot base, together with what the pending \<open>Ready\<close> says about them.
\<close>

subsection \<open>Sending\<close>

definition push_msgs :: "Message list \<Rightarrow> raft \<Rightarrow> raft" where
  "push_msgs ms r = r\<lparr>r_ready := (r_ready r)\<lparr>messages := messages (r_ready r) @ ms\<rparr>\<rparr>"

definition stamp :: "raft \<Rightarrow> Message \<Rightarrow> Message" where
  "stamp r m = m\<lparr>m_from := r_id r, m_term := r_term r\<rparr>"

lemma push_msgs_sel [simp]:
  "r_config (push_msgs ms r) = r_config r" "r_hard (push_msgs ms r) = r_hard r"
  "r_log (push_msgs ms r) = r_log r" "r_base (push_msgs ms r) = r_base r"
  "r_role (push_msgs ms r) = r_role r" "r_leader (push_msgs ms r) = r_leader r"
  "r_commit (push_msgs ms r) = r_commit r" "r_last_emitted (push_msgs ms r) = r_last_emitted r"
  "r_votes (push_msgs ms r) = r_votes r" "r_next (push_msgs ms r) = r_next r"
  "r_match (push_msgs ms r) = r_match r" "r_hb_acked (push_msgs ms r) = r_hb_acked r"
  "r_hb_seq (push_msgs ms r) = r_hb_seq r" "r_pending_reads (push_msgs ms r) = r_pending_reads r"
  "r_ready (push_msgs ms r) = (r_ready r)\<lparr>messages := messages (r_ready r) @ ms\<rparr>"
  by (simp_all add: push_msgs_def)

lemma push_msgs_Nil [simp]: "push_msgs [] r = r"
  by (simp add: push_msgs_def)

lemma push_msgs_push [simp]: "push_msgs b (push_msgs a r) = push_msgs (a @ b) r"
  by (simp add: push_msgs_def)

lemma Send_push: "Send m r = push_msgs [stamp r m] r"
  by (simp add: Send_def push_msgs_def stamp_def)

lemma log_push [simp]:
  "last_index (push_msgs ms r) = last_index r" "TermAt (push_msgs ms r) = TermAt r"
  "At (push_msgs ms r) = At r" "LastTerm (push_msgs ms r) = LastTerm r"
  "quorum (push_msgs ms r) = quorum r"
  by (simp_all add: last_index_def TermAt_def At_def LastTerm_def quorum_def fun_eq_iff)

lemma stamp_push [simp]: "stamp (push_msgs ms r) m = stamp r m"
  by (simp add: stamp_def)

lemma gather_entries_push [simp]: "gather_entries (push_msgs ms r) is es n = gather_entries r is es n"
  by (induction "is" arbitrary: es n) (simp_all add: Let_def)

text \<open>The message \<open>SendAppend\<close> sends.\<close>

definition append_msg :: "raft \<Rightarrow> NodeId \<Rightarrow> Message" where
  "append_msg r peer =
     stamp r (let next = map_get (r_next r) peer
      in if next \<le> base_index r
         then empty_message
                \<lparr>m_kind := kInstallSnapshot, m_to := peer, m_snap_index := base_index r,
                 m_snap_term := base_term r, m_snap_data := s_data (r_base r)\<rparr>
         else empty_message
                \<lparr>m_kind := kAppendEntries, m_to := peer, m_prev_index := next - 1,
                 m_prev_term := TermAt r (next - 1), m_commit := r_commit r,
                 m_hb_seq := r_hb_seq r,
                 m_entries := gather_entries r [unat next..<Suc (unat (last_index r))] [] 0\<rparr>)"

lemma SendAppend_push: "SendAppend peer r = push_msgs [append_msg r peer] r"
  by (simp add: SendAppend_def append_msg_def Send_push Let_def)

lemma append_msg_push [simp]: "append_msg (push_msgs ms r) peer = append_msg r peer"
  by (simp add: append_msg_def Let_def)

lemma append_msg_sel [simp]:
  "m_from (append_msg r peer) = r_id r" "m_term (append_msg r peer) = r_term r"
  "m_to (append_msg r peer) = peer" "m_granted (append_msg r peer) = False"
  by (simp_all add: append_msg_def stamp_def empty_message_def Let_def)


lemma BroadcastAppend_push:
  "BroadcastAppend r = push_msgs (map (append_msg r) (filter (\<lambda>p. p \<noteq> r_id r) (r_peers r))) r"
proof -
  have "fold (\<lambda>peer r. if peer = r_id r then r else SendAppend peer r) ps (push_msgs ms r) =
        push_msgs (ms @ map (append_msg r) (filter (\<lambda>p. p \<noteq> r_id r) ps)) r" for ps ms
    by (induction ps arbitrary: ms) (simp_all add: SendAppend_push)
  from this [of "r_peers r" "[]"] show ?thesis by (simp add: BroadcastAppend_def)
qed

text \<open>The vote requests of \<open>StartElection\<close>.\<close>

definition vote_msg :: "raft \<Rightarrow> NodeId \<Rightarrow> Message" where
  "vote_msg r peer =
     stamp r (empty_message\<lparr>m_kind := kRequestVote, m_to := peer,
                m_last_log_index := last_index r, m_last_log_term := LastTerm r\<rparr>)"

lemma vote_requests_push:
  "fold (\<lambda>peer r. if peer = r_id r then r
           else Send (empty_message
                  \<lparr>m_kind := kRequestVote, m_to := peer,
                   m_last_log_index := last_index r, m_last_log_term := LastTerm r\<rparr>) r) (r_peers r) r =
   push_msgs (map (vote_msg r) (filter (\<lambda>p. p \<noteq> r_id r) (r_peers r))) r" (is "fold ?f _ _ = _")
proof -
  have "fold ?f ps (push_msgs ms r) =
        push_msgs (ms @ map (vote_msg r) (filter (\<lambda>p. p \<noteq> r_id r) ps)) r" for ps ms
    by (induction ps arbitrary: ms) (simp_all add: Send_push vote_msg_def)
  from this [of "r_peers r" "[]"] show ?thesis by simp
qed

text \<open>The state in which a new candidate counts its first vote.\<close>

definition candidate :: "raft \<Rightarrow> raft" where
  "candidate r = ResetElectionTimer
     ((PersistHardState (r\<lparr>r_role := kCandidate,
                           r_hard := \<lparr>hs_term = r_term r + 1, hs_voted_for = r_id r\<rparr>\<rparr>))
        \<lparr>r_leader := 0, r_votes := [(r_id r, True)]\<rparr>)"

lemma StartElection_candidate:
  "StartElection r =
     (if quorum (candidate r) \<le> 1 then BecomeLeader (candidate r)
      else push_msgs (map (vote_msg (candidate r))
             (filter (\<lambda>p. p \<noteq> r_id (candidate r)) (r_peers (candidate r)))) (candidate r))"
proof -
  have "length (r_votes (candidate r)) = 1" by (simp add: candidate_def ResetElectionTimer_def)
  then show ?thesis
    unfolding vote_requests_push [symmetric] StartElection_def Let_def candidate_def [symmetric] by simp
qed

lemma candidate_sel:
  "r_config (candidate r) = r_config r" "r_hard (candidate r) = \<lparr>hs_term = r_term r + 1, hs_voted_for = r_id r\<rparr>"
  "r_role (candidate r) = kCandidate" "r_votes (candidate r) = [(r_id r, True)]"
  "r_ready (candidate r) = (r_ready r)\<lparr>hard_state_changed := True, hard_state := r_hard (candidate r)\<rparr>"
  by (simp_all add: candidate_def PersistHardState_def ResetElectionTimer_def)

lemmas send_push = Send_push SendAppend_push BroadcastAppend_push vote_requests_push

subsection \<open>Steps that keep the hard state\<close>

definition same_hard :: "raft \<Rightarrow> raft \<Rightarrow> bool" where
  "same_hard r r' \<longleftrightarrow> r_config r' = r_config r \<and> r_hard r' = r_hard r \<and>
     hard_state_changed (r_ready r') = hard_state_changed (r_ready r) \<and>
     hard_state (r_ready r') = hard_state (r_ready r)"

named_theorems hard_frame \<open>steps that keep the hard state\<close>

lemma same_hard_refl [hard_frame]: "same_hard r r"
  by (simp add: same_hard_def)

lemma same_hard_trans [trans]: "same_hard a b \<Longrightarrow> same_hard b c \<Longrightarrow> same_hard a c"
  by (simp add: same_hard_def)

lemma same_hard_push [hard_frame]: "same_hard a r \<Longrightarrow> same_hard a (push_msgs ms r)"
  by (simp add: same_hard_def)

lemma same_hard_timer [hard_frame]: "same_hard a r \<Longrightarrow> same_hard a (ResetElectionTimer r)"
  by (simp add: same_hard_def ResetElectionTimer_def)

lemma same_hard_EmitCommitted [hard_frame]: "same_hard a r \<Longrightarrow> same_hard a (EmitCommitted r)"
  by (simp add: same_hard_def EmitCommitted_def)

lemma same_hard_upd [hard_frame]:
  "same_hard a r \<Longrightarrow> same_hard a (r\<lparr>r_commit := n\<rparr>)"
  "same_hard a r \<Longrightarrow> same_hard a (r\<lparr>r_leader := l\<rparr>)"
  "same_hard a r \<Longrightarrow> same_hard a (r\<lparr>r_votes := v\<rparr>)"
  "same_hard a r \<Longrightarrow> same_hard a (r\<lparr>r_hb_seq := s\<rparr>)"
  "same_hard a r \<Longrightarrow> same_hard a (r\<lparr>r_hb_acked := h\<rparr>)"
  "same_hard a r \<Longrightarrow> same_hard a (r\<lparr>r_next := nx\<rparr>)"
  "same_hard a r \<Longrightarrow> same_hard a (r\<lparr>r_match := mt, r_next := nx\<rparr>)"
  "same_hard a r \<Longrightarrow> same_hard a (r\<lparr>r_election_elapsed := t\<rparr>)"
  "same_hard a r \<Longrightarrow> same_hard a (r\<lparr>r_heartbeat_elapsed := t\<rparr>)"
  by (simp_all add: same_hard_def)

lemma same_hard_MaybeAdvanceCommit [hard_frame]:
  "same_hard a r \<Longrightarrow> same_hard a (MaybeAdvanceCommit r)"
  by (auto simp: MaybeAdvanceCommit_def intro!: hard_frame split: option.split)

lemma same_hard_leader_append [hard_frame]: "same_hard a r \<Longrightarrow> same_hard a (leader_append c r)"
  by (simp add: leader_append_def Let_def same_hard_def)

lemma same_hard_BecomeLeader [hard_frame]:
  assumes "same_hard a r"
  shows "same_hard a (BecomeLeader r)"
  unfolding BecomeLeader_def Let_def BroadcastAppend_push
  by (intro same_hard_MaybeAdvanceCommit same_hard_push same_hard_upd(4) same_hard_leader_append)
    (use assms in \<open>simp add: same_hard_def\<close>)

lemma same_hard_append_entry [hard_frame]: "same_hard a r \<Longrightarrow> same_hard a (append_entry e r)"
  by (simp add: append_entry_def Let_def same_hard_def)

lemma same_hard_append_entries [hard_frame]:
  "same_hard a r \<Longrightarrow> same_hard a (fold append_entry es r)"
  by (induction es arbitrary: r) (simp_all add: same_hard_append_entry)

lemma same_hard_accept_entries [hard_frame]:
  "same_hard a r \<Longrightarrow> same_hard a (accept_entries m resp pi pt es r)"
  by (auto simp: accept_entries_def Let_def Send_push intro!: hard_frame)

lemma same_hard_confirm_reads [hard_frame]: "same_hard a r \<Longrightarrow> same_hard a (confirm_reads r)"
  by (simp add: confirm_reads_def same_hard_def)

lemma same_hard_note_match [hard_frame]: "same_hard a r \<Longrightarrow> same_hard a (note_match m r)"
  unfolding note_match_def by (intro hard_frame)

lemma same_hard_follow_leader [hard_frame]: "same_hard a r \<Longrightarrow> same_hard a (follow_leader m r)"
  by (simp add: follow_leader_def BecomeFollower_def Let_def ResetElectionTimer_def same_hard_def)

lemma same_hard_handlers:
  "same_hard r (HandleRequestVoteResp m r)" "same_hard r (HandleAppendEntries m r)"
  "same_hard r (HandleAppendEntriesResp m r)" "same_hard r (HandleInstallSnapshotResp m r)"
proof -
  show "same_hard r (HandleRequestVoteResp m r)"
    by (auto simp: HandleRequestVoteResp_def Let_def intro!: hard_frame)
  show "same_hard r (HandleAppendEntries m r)"
    by (auto simp: HandleAppendEntries_def Let_def Send_push intro!: hard_frame)
  show "same_hard r (HandleAppendEntriesResp m r)"
    by (auto simp: HandleAppendEntriesResp_def Let_def SendAppend_push intro!: hard_frame)
  show "same_hard r (HandleInstallSnapshotResp m r)"
    by (auto simp: HandleInstallSnapshotResp_def intro!: hard_frame)
qed

lemma same_hard_HandleInstallSnapshot: "same_hard r (HandleInstallSnapshot m r)"
  using same_hard_follow_leader [OF same_hard_refl, of r m]
  by (auto simp: HandleInstallSnapshot_def Let_def Send_push same_hard_def)

lemma same_hard_stale_reply: "same_hard r (stale_reply m r)"
  by (simp add: stale_reply_def Send_push same_hard_push same_hard_refl)

subsection \<open>Steps that keep the log\<close>

definition same_log :: "raft \<Rightarrow> raft \<Rightarrow> bool" where
  "same_log r r' \<longleftrightarrow> r_log r' = r_log r \<and> r_base r' = r_base r \<and>
     truncate_from (r_ready r') = truncate_from (r_ready r) \<and>
     entries_to_append (r_ready r') = entries_to_append (r_ready r) \<and>
     snapshot_to_apply (r_ready r') = snapshot_to_apply (r_ready r)"

named_theorems log_frame \<open>steps that keep the log\<close>

lemma same_log_refl [log_frame]: "same_log r r"
  by (simp add: same_log_def)

lemma same_log_trans [trans]: "same_log a b \<Longrightarrow> same_log b c \<Longrightarrow> same_log a c"
  by (simp add: same_log_def)

lemma same_log_push [log_frame]: "same_log a r \<Longrightarrow> same_log a (push_msgs ms r)"
  by (simp add: same_log_def)

lemma same_log_timer [log_frame]: "same_log a r \<Longrightarrow> same_log a (ResetElectionTimer r)"
  by (simp add: same_log_def ResetElectionTimer_def)

lemma same_log_PersistHardState [log_frame]: "same_log a r \<Longrightarrow> same_log a (PersistHardState r)"
  by (simp add: same_log_def PersistHardState_def)

lemma same_log_EmitCommitted [log_frame]: "same_log a r \<Longrightarrow> same_log a (EmitCommitted r)"
  by (simp add: same_log_def EmitCommitted_def)

lemma same_log_upd [log_frame]:
  "same_log a r \<Longrightarrow> same_log a (r\<lparr>r_commit := n\<rparr>)"
  "same_log a r \<Longrightarrow> same_log a (r\<lparr>r_leader := l\<rparr>)"
  "same_log a r \<Longrightarrow> same_log a (r\<lparr>r_votes := v\<rparr>)"
  "same_log a r \<Longrightarrow> same_log a (r\<lparr>r_hb_seq := s\<rparr>)"
  "same_log a r \<Longrightarrow> same_log a (r\<lparr>r_hb_acked := h\<rparr>)"
  "same_log a r \<Longrightarrow> same_log a (r\<lparr>r_next := nx\<rparr>)"
  "same_log a r \<Longrightarrow> same_log a (r\<lparr>r_match := mt, r_next := nx\<rparr>)"
  "same_log a r \<Longrightarrow> same_log a (r\<lparr>r_election_elapsed := t\<rparr>)"
  "same_log a r \<Longrightarrow> same_log a (r\<lparr>r_heartbeat_elapsed := t\<rparr>)"
  "same_log a r \<Longrightarrow> same_log a (r\<lparr>r_hard := hs\<rparr>)"
  by (simp_all add: same_log_def)

lemma same_log_MaybeAdvanceCommit [log_frame]:
  "same_log a r \<Longrightarrow> same_log a (MaybeAdvanceCommit r)"
  by (auto simp: MaybeAdvanceCommit_def intro!: log_frame split: option.split)

lemma same_log_BecomeFollower [log_frame]: "same_log a r \<Longrightarrow> same_log a (BecomeFollower t l r)"
  by (simp add: BecomeFollower_def Let_def ResetElectionTimer_def PersistHardState_def same_log_def)

lemma same_log_follow_leader [log_frame]: "same_log a r \<Longrightarrow> same_log a (follow_leader m r)"
  by (auto simp: follow_leader_def Let_def intro!: log_frame)

lemma same_log_confirm_reads [log_frame]: "same_log a r \<Longrightarrow> same_log a (confirm_reads r)"
  by (simp add: confirm_reads_def same_log_def)

lemma same_log_note_match [log_frame]: "same_log a r \<Longrightarrow> same_log a (note_match m r)"
  unfolding note_match_def by (intro log_frame)

lemma same_log_candidate: "same_log r (candidate r)"
  by (simp add: candidate_def PersistHardState_def ResetElectionTimer_def same_log_def)

lemma same_log_handlers:
  "same_log r (HandleRequestVote m r)" "same_log r (HandleAppendEntriesResp m r)"
  "same_log r (HandleInstallSnapshotResp m r)" "same_log r (stale_reply m r)"
proof -
  show "same_log r (HandleRequestVote m r)"
    by (auto simp: HandleRequestVote_def Let_def Send_push intro!: log_frame)
  show "same_log r (HandleAppendEntriesResp m r)"
    by (auto simp: HandleAppendEntriesResp_def Let_def SendAppend_push intro!: log_frame)
  show "same_log r (HandleInstallSnapshotResp m r)"
    by (auto simp: HandleInstallSnapshotResp_def intro!: log_frame)
  show "same_log r (stale_reply m r)"
    by (simp add: stale_reply_def Send_push log_frame)
qed

lemma same_log_StartReadIndex: "same_log r (snd (StartReadIndex ctx r))"
  by (simp add: StartReadIndex_def Let_def BroadcastAppend_push same_log_def)

lemma last_index_same_log: "same_log r r' \<Longrightarrow> last_index r' = last_index r"
  by (simp add: same_log_def last_index_def)

lemma TermAt_same_log: "same_log r r' \<Longrightarrow> TermAt r' = TermAt r"
  by (simp add: same_log_def TermAt_def last_index_def fun_eq_iff)

subsection \<open>The commit index\<close>

text \<open>Steps that neither move the commit index nor touch what was handed out.\<close>

definition same_commit :: "raft \<Rightarrow> raft \<Rightarrow> bool" where
  "same_commit r r' \<longleftrightarrow> r_commit r' = r_commit r \<and> r_last_emitted r' = r_last_emitted r \<and>
     committed (r_ready r') = committed (r_ready r)"

lemma same_commit_push [simp]: "same_commit r (push_msgs ms r)"
  by (simp add: same_commit_def)

lemma same_commit_follow_leader [simp]: "same_commit r (follow_leader m r)"
  by (simp add: same_commit_def follow_leader_def BecomeFollower_def Let_def ResetElectionTimer_def)

lemma same_commit_BecomeFollower [simp]: "same_commit r (BecomeFollower t l r)"
  by (simp add: same_commit_def BecomeFollower_def Let_def ResetElectionTimer_def PersistHardState_def)

lemma same_commit_candidate [simp]: "same_commit r (candidate r)"
  by (simp add: candidate_def PersistHardState_def ResetElectionTimer_def same_commit_def)

lemma same_commit_append_entry [simp]: "same_commit r (append_entry e r)"
  by (simp add: same_commit_def append_entry_def Let_def)

lemma same_commit_append_entries [simp]: "same_commit r (fold append_entry es r)"
  by (induction es arbitrary: r) (simp_all add: same_commit_def, metis same_commit_append_entry same_commit_def)

end
