(* ===== verification/Coding.thy ===== *)
theory Coding
  imports Prelude
begin

text \<open>
  The byte coding of \<open>src/common/coding.h\<close>: fixed-width little-endian integers,
  length-prefixed strings and the sequential \<open>Decoder\<close>.  A \<open>Put\<close> function of the code appends
  to a string; here it returns the bytes appended.  The decoder is the record of its three
  fields, and each of its methods returns the value read together with the decoder after it.

  The locale \<open>wire_item\<close> is the contract between an encoder and the decoder of one item; the
  counted lists of the wire formats are decoded once, inside it.
\<close>

subsection \<open>Fixed-width integers\<close>

definition le_bytes :: "nat \<Rightarrow> 'a::len word \<Rightarrow> bytes" where
  "le_bytes n v = map (\<lambda>i. ucast (drop_bit (8 * i) v)) [0..<n]"

definition le_value :: "bytes \<Rightarrow> 'a::len word" where
  "le_value p = foldr (\<lambda>b v. push_bit 8 v OR ucast b) p 0"

definition PutFixed8 :: "u8 \<Rightarrow> bytes" where
  "PutFixed8 v = [v]"

definition PutFixed16 :: "u16 \<Rightarrow> bytes" where
  "PutFixed16 v = [ucast v, ucast (drop_bit 8 v)]"

definition PutFixed32 :: "u32 \<Rightarrow> bytes" where
  "PutFixed32 v = le_bytes 4 v"

definition PutFixed64 :: "u64 \<Rightarrow> bytes" where
  "PutFixed64 v = le_bytes 8 v"

definition DecodeFixed8 :: "bytes \<Rightarrow> u8" where
  "DecodeFixed8 p = p ! 0"

definition DecodeFixed16 :: "bytes \<Rightarrow> u16" where
  "DecodeFixed16 p = ucast (p ! 0) OR push_bit 8 (ucast (p ! 1))"

definition DecodeFixed32 :: "bytes \<Rightarrow> u32" where
  "DecodeFixed32 p = le_value (take 4 p)"

definition DecodeFixed64 :: "bytes \<Rightarrow> u64" where
  "DecodeFixed64 p = le_value (take 8 p)"

definition PutLengthPrefixed :: "bytes \<Rightarrow> bytes" where
  "PutLengthPrefixed s = PutFixed32 (of_nat (length s)) @ s"

subsection \<open>The sequential decoder\<close>

record decoder =
  dec_data :: bytes
  dec_pos :: nat
  dec_failed :: bool

definition Decoder :: "bytes \<Rightarrow> decoder" where
  "Decoder data = \<lparr>dec_data = data, dec_pos = 0, dec_failed = False\<rparr>"

definition dec_ok :: "decoder \<Rightarrow> bool" where
  "dec_ok d = (\<not> dec_failed d)"

definition remaining :: "decoder \<Rightarrow> nat" where
  "remaining d = length (dec_data d) - dec_pos d"

definition Have :: "nat \<Rightarrow> decoder \<Rightarrow> bool \<times> decoder" where
  "Have n d =
     (if dec_failed d \<or> length (dec_data d) - dec_pos d < n
      then (False, d\<lparr>dec_failed := True\<rparr>)
      else (True, d))"

definition Advance :: "nat \<Rightarrow> decoder \<Rightarrow> bytes \<times> decoder" where
  "Advance n d = (drop (dec_pos d) (dec_data d), d\<lparr>dec_pos := dec_pos d + n\<rparr>)"

definition read_with :: "nat \<Rightarrow> (bytes \<Rightarrow> 'a::zero) \<Rightarrow> decoder \<Rightarrow> 'a \<times> decoder" where
  "read_with n f d =
     (case Have n d of
        (True, d1) \<Rightarrow> (case Advance n d1 of (p, d2) \<Rightarrow> (f p, d2))
      | (False, d1) \<Rightarrow> (0, d1))"

definition U8 :: "decoder \<Rightarrow> u8 \<times> decoder" where
  "U8 d = read_with 1 DecodeFixed8 d"

definition U16 :: "decoder \<Rightarrow> u16 \<times> decoder" where
  "U16 d = read_with 2 DecodeFixed16 d"

definition U32 :: "decoder \<Rightarrow> u32 \<times> decoder" where
  "U32 d = read_with 4 DecodeFixed32 d"

definition U64 :: "decoder \<Rightarrow> u64 \<times> decoder" where
  "U64 d = read_with 8 DecodeFixed64 d"

definition Bytes :: "nat \<Rightarrow> decoder \<Rightarrow> bytes \<times> decoder" where
  "Bytes n d =
     (case Have n d of
        (False, d1) \<Rightarrow> ([], d1)
      | (True, d1) \<Rightarrow> (case Advance n d1 of (p, d2) \<Rightarrow> (take n p, d2)))"

definition LengthPrefixed :: "decoder \<Rightarrow> bytes \<times> decoder" where
  "LengthPrefixed d = (case U32 d of (n, d1) \<Rightarrow> Bytes (unat n) d1)"

definition Str :: "decoder \<Rightarrow> bytes \<times> decoder" where
  "Str d = LengthPrefixed d"

text \<open>The loop \<open>for (uint32_t i = 0; i < count && dec.ok(); i++)\<close> around one item.\<close>

fun decode_n :: "(decoder \<Rightarrow> 'a \<times> decoder) \<Rightarrow> nat \<Rightarrow> decoder \<Rightarrow> 'a list \<times> decoder" where
  "decode_n get 0 d = ([], d)"
| "decode_n get (Suc n) d =
     (if dec_ok d
      then (case get d of (x, d1) \<Rightarrow> (case decode_n get n d1 of (xs, d2) \<Rightarrow> (x # xs, d2)))
      else ([], d))"

subsection \<open>Little-endian integers: reading back what was written\<close>

lemma length_le_bytes [simp]: "length (le_bytes n v) = n"
  by (simp add: le_bytes_def)

lemma le_bytes_Suc: "le_bytes (Suc n) v = ucast v # le_bytes n (drop_bit 8 v)"
proof -
  have "[0..<Suc n] = 0 # map Suc [0..<n]"
    by (simp add: map_Suc_upt upt_conv_Cons del: upt_Suc)
  then show ?thesis
    by (simp add: le_bytes_def comp_def drop_bit_drop_bit add.commute del: upt_Suc)
qed

lemma le_value_Cons: "le_value (b # p) = push_bit 8 (le_value p) OR ucast b"
  by (simp add: le_value_def)

lemma le_value_le_bytes: "le_value (le_bytes n v) = take_bit (8 * n) (v :: 'a::len word)"
proof (induction n arbitrary: v)
  case 0
  then show ?case by (simp add: le_bytes_def le_value_def)
next
  case (Suc n)
  show ?case
    by (rule bit_word_eqI) (auto simp: le_bytes_Suc le_value_Cons Suc bit_simps)
qed

lemma DecodeFixed32_Put [codec]: "DecodeFixed32 (PutFixed32 v @ rest) = v"
  by (simp add: DecodeFixed32_def PutFixed32_def le_value_le_bytes take_bit_word_eq_self)

lemma DecodeFixed64_Put [codec]: "DecodeFixed64 (PutFixed64 v @ rest) = v"
  by (simp add: DecodeFixed64_def PutFixed64_def le_value_le_bytes take_bit_word_eq_self)

lemma DecodeFixed16_Put [codec]: "DecodeFixed16 (PutFixed16 v @ rest) = v"
  by (rule bit_word_eqI) (auto simp: DecodeFixed16_def PutFixed16_def bit_simps)

lemma DecodeFixed8_Put [codec]: "DecodeFixed8 (PutFixed8 v @ rest) = v"
  by (simp add: DecodeFixed8_def PutFixed8_def)

lemma length_PutFixed [simp]:
  "length (PutFixed8 a) = 1" "length (PutFixed16 b) = 2"
  "length (PutFixed32 c) = 4" "length (PutFixed64 d) = 8"
  by (simp_all add: PutFixed8_def PutFixed16_def PutFixed32_def PutFixed64_def)

lemma length_PutLengthPrefixed [simp]: "length (PutLengthPrefixed s) = 4 + length s"
  by (simp add: PutLengthPrefixed_def)

subsection \<open>Decoding what was encoded\<close>

text \<open>A decoder that has consumed \<open>pre\<close> and still has \<open>rest\<close> in front of it.\<close>

definition dec_at :: "bytes \<Rightarrow> bytes \<Rightarrow> decoder" where
  "dec_at pre rest = \<lparr>dec_data = pre @ rest, dec_pos = length pre, dec_failed = False\<rparr>"

lemma Decoder_dec_at [codec]: "Decoder data = dec_at [] data"
  by (simp add: Decoder_def dec_at_def)

lemma dec_ok_at [codec]: "dec_ok (dec_at pre rest)"
  by (simp add: dec_ok_def dec_at_def)

lemma remaining_at [codec]: "remaining (dec_at pre rest) = length rest"
  by (simp add: remaining_def dec_at_def)

lemma read_with_at:
  assumes "length enc = n" and "f (enc @ rest) = v"
  shows "read_with n f (dec_at pre (enc @ rest)) = (v, dec_at (pre @ enc) rest)"
  using assms by (simp add: read_with_def Have_def Advance_def dec_at_def)

lemma U8_at [codec]: "U8 (dec_at pre (PutFixed8 v @ rest)) = (v, dec_at (pre @ PutFixed8 v) rest)"
  by (simp add: U8_def read_with_at codec)

lemma U16_at [codec]: "U16 (dec_at pre (PutFixed16 v @ rest)) = (v, dec_at (pre @ PutFixed16 v) rest)"
  by (simp add: U16_def read_with_at codec)

lemma U32_at [codec]: "U32 (dec_at pre (PutFixed32 v @ rest)) = (v, dec_at (pre @ PutFixed32 v) rest)"
  by (simp add: U32_def read_with_at codec)

lemma U64_at [codec]: "U64 (dec_at pre (PutFixed64 v @ rest)) = (v, dec_at (pre @ PutFixed64 v) rest)"
  by (simp add: U64_def read_with_at codec)

lemma Bytes_at: "Bytes (length s) (dec_at pre (s @ rest)) = (s, dec_at (pre @ s) rest)"
  by (simp add: Bytes_def Have_def Advance_def dec_at_def)

lemma Str_at [codec]:
  assumes "size32 s"
  shows "Str (dec_at pre (PutLengthPrefixed s @ rest)) = (s, dec_at (pre @ PutLengthPrefixed s) rest)"
  using Bytes_at [of s "pre @ PutFixed32 (of_nat (length s))" rest] assms
  by (simp add: Str_def LengthPrefixed_def PutLengthPrefixed_def codec unat_of_nat_u32)

text \<open>The last item of a buffer, with nothing behind it.\<close>

lemmas codec_last [codec] =
  U8_at [where rest = "[]", simplified] U16_at [where rest = "[]", simplified]
  U32_at [where rest = "[]", simplified] U64_at [where rest = "[]", simplified]
  Str_at [where rest = "[]", simplified append_Nil2]

subsection \<open>The contract of one encoded item\<close>

locale wire_item =
  fixes put :: "'a \<Rightarrow> bytes"
    and get :: "decoder \<Rightarrow> 'a \<times> decoder"
    and item_ok :: "'a \<Rightarrow> bool"
  assumes get_put: "item_ok x \<Longrightarrow> get (dec_at pre (put x @ rest)) = (x, dec_at (pre @ put x) rest)"
begin

lemma decode_items:
  assumes "list_all item_ok xs"
  shows "decode_n get (length xs) (dec_at pre (concat (map put xs) @ rest)) =
           (xs, dec_at (pre @ concat (map put xs)) rest)"
  using assms by (induction xs arbitrary: pre) (auto simp: get_put dec_ok_at)

lemma decode_counted:
  assumes "list_all item_ok xs" and "length xs < 2 ^ 32"
  shows "(case U32 (dec_at pre (PutFixed32 (of_nat (length xs)) @ concat (map put xs) @ rest)) of
            (count, d) \<Rightarrow> decode_n get (unat count) d) =
         (xs, dec_at (pre @ PutFixed32 (of_nat (length xs)) @ concat (map put xs)) rest)"
  using assms decode_items [of xs "pre @ PutFixed32 (of_nat (length xs))" rest]
  by (simp add: U32_at unat_of_nat_u32)

end

subsection \<open>What every decoding step keeps\<close>

text \<open>
  The decoder never reads outside its buffer, keeps the buffer, only moves forward and never
  clears the failed flag.
\<close>

definition dec_inv :: "decoder \<Rightarrow> bool" where
  "dec_inv d \<longleftrightarrow> dec_pos d \<le> length (dec_data d)"

definition dec_step :: "decoder \<Rightarrow> decoder \<Rightarrow> bool" where
  "dec_step d d' \<longleftrightarrow> dec_data d' = dec_data d \<and> dec_pos d \<le> dec_pos d' \<and>
     dec_pos d' \<le> length (dec_data d) \<and> (dec_failed d \<longrightarrow> dec_failed d' \<and> dec_pos d' = dec_pos d)"

lemma dec_step_trans [trans]: "dec_step d1 d2 \<Longrightarrow> dec_step d2 d3 \<Longrightarrow> dec_step d1 d3"
  by (auto simp: dec_step_def)

lemma dec_step_inv: "dec_step d d' \<Longrightarrow> dec_inv d'"
  by (simp add: dec_step_def dec_inv_def)

lemma dec_inv_Decoder: "dec_inv (Decoder data)"
  by (simp add: dec_inv_def Decoder_def)

locale decode_op =
  fixes get :: "decoder \<Rightarrow> 'a \<times> decoder"
  assumes get_step: "dec_inv d \<Longrightarrow> dec_step d (snd (get d))"
begin

lemma decode_n_step: "dec_inv d \<Longrightarrow> dec_step d (snd (decode_n get n d))"
proof (induction n arbitrary: d)
  case 0
  then show ?case by (simp add: dec_step_def dec_inv_def)
next
  case (Suc n)
  obtain x d1 where g: "get d = (x, d1)" by fastforce
  with get_step Suc.prems have s1: "dec_step d d1" by fastforce
  then have "dec_step d1 (snd (decode_n get n d1))" using Suc.IH dec_step_inv by blast
  with s1 have "dec_step d (snd (decode_n get n d1))" by (rule dec_step_trans)
  with g Suc.prems show ?case by (auto simp: dec_step_def dec_inv_def split: prod.splits)
qed

end

lemma read_with_step: "dec_inv d \<Longrightarrow> dec_step d (snd (read_with n f d))"
  by (auto simp: read_with_def Have_def Advance_def dec_step_def dec_inv_def)

lemma Bytes_step: "dec_inv d \<Longrightarrow> dec_step d (snd (Bytes n d))"
  by (auto simp: Bytes_def Have_def Advance_def dec_step_def dec_inv_def)

interpretation op_u8: decode_op U8
  by unfold_locales (simp add: U8_def read_with_step)

interpretation op_u32: decode_op U32
  by unfold_locales (simp add: U32_def read_with_step)

interpretation op_u64: decode_op U64
  by unfold_locales (simp add: U64_def read_with_step)

interpretation op_str: decode_op Str
proof
  fix d :: decoder
  assume "dec_inv d"
  then have s1: "dec_step d (snd (U32 d))" by (rule op_u32.get_step)
  then have "dec_step (snd (U32 d)) (snd (Bytes (unat (fst (U32 d))) (snd (U32 d))))"
    using Bytes_step dec_step_inv by blast
  with s1 show "dec_step d (snd (Str d))"
    using dec_step_trans by (fastforce simp: Str_def LengthPrefixed_def split: prod.splits)
qed

interpretation str_item: wire_item PutLengthPrefixed Str "\<lambda>s. size32 s"
  by unfold_locales (rule Str_at)

end
