(* ===== verification/Wire.thy ===== *)
theory Wire
  imports Coding Raft
begin

text \<open>
  The wire form of a Raft message (\<open>src/raft/wire.cc\<close>): \<open>EncodeMessage\<close> and \<open>DecodeMessage\<close>.
  A message that fits its 32-bit counts decodes to itself, and a decoder that accepts a buffer
  has consumed all of it.
\<close>

subsection \<open>Encoding and decoding\<close>

fun kind_value :: "MsgKind \<Rightarrow> u8" where
  "kind_value kRequestVote = 1"
| "kind_value kRequestVoteResp = 2"
| "kind_value kAppendEntries = 3"
| "kind_value kAppendEntriesResp = 4"
| "kind_value kInstallSnapshot = 5"
| "kind_value kInstallSnapshotResp = 6"

definition kind_of_value :: "u8 \<Rightarrow> MsgKind option" where
  "kind_of_value v =
     (if v = 1 then Some kRequestVote else if v = 2 then Some kRequestVoteResp
      else if v = 3 then Some kAppendEntries else if v = 4 then Some kAppendEntriesResp
      else if v = 5 then Some kInstallSnapshot else if v = 6 then Some kInstallSnapshotResp
      else None)"

definition put_bool :: "bool \<Rightarrow> bytes" where
  "put_bool b = PutFixed8 (if b then 1 else 0)"

definition get_bool :: "decoder \<Rightarrow> bool \<times> decoder" where
  "get_bool d = (case U8 d of (v, d1) \<Rightarrow> (v \<noteq> 0, d1))"

definition put_entry :: "LogEntry \<Rightarrow> bytes" where
  "put_entry e = PutFixed64 (e_term e) @ PutFixed64 (e_index e) @ PutLengthPrefixed (e_command e)"

definition get_entry :: "decoder \<Rightarrow> LogEntry \<times> decoder" where
  "get_entry d =
     (let (t, d1) = U64 d; (i, d2) = U64 d1; (c, d3) = Str d2
      in (\<lparr>e_term = t, e_index = i, e_command = c\<rparr>, d3))"

definition EncodeMessage :: "Message \<Rightarrow> bytes" where
  "EncodeMessage m =
     PutFixed8 (kind_value (m_kind m)) @ PutFixed32 (m_from m) @ PutFixed32 (m_to m) @
     PutFixed64 (m_term m) @ PutFixed64 (m_last_log_index m) @ PutFixed64 (m_last_log_term m) @
     put_bool (m_granted m) @ PutFixed64 (m_prev_index m) @ PutFixed64 (m_prev_term m) @
     PutFixed64 (m_commit m) @ PutFixed64 (m_hb_seq m) @ put_bool (m_success m) @
     PutFixed64 (m_match_index m) @ PutFixed64 (m_hint_index m) @ PutFixed64 (m_snap_index m) @
     PutFixed64 (m_snap_term m) @ PutLengthPrefixed (m_snap_data m) @
     PutFixed32 (of_nat (length (m_entries m))) @ concat (map put_entry (m_entries m))"

definition DecodeMessage :: "bytes \<Rightarrow> Message option" where
  "DecodeMessage data =
     (let (kind, d) = U8 (Decoder data)
      in case kind_of_value kind of
           None \<Rightarrow> None
         | Some k \<Rightarrow>
             (let (from, d) = U32 d; (to, d) = U32 d; (term, d) = U64 d;
                  (lli, d) = U64 d; (llt, d) = U64 d; (granted, d) = get_bool d;
                  (prev_index, d) = U64 d; (prev_term, d) = U64 d;
                  (commit, d) = U64 d; (hb_seq, d) = U64 d; (success, d) = get_bool d;
                  (match_index, d) = U64 d; (hint_index, d) = U64 d;
                  (snap_index, d) = U64 d; (snap_term, d) = U64 d; (snap_data, d) = Str d;
                  (count, d) = U32 d; (entries, d) = decode_n get_entry (unat count) d
              in if dec_ok d \<and> remaining d = 0
                 then Some \<lparr>m_kind = k, m_from = from, m_to = to, m_term = term,
                        m_last_log_index = lli, m_last_log_term = llt, m_granted = granted,
                        m_prev_index = prev_index, m_prev_term = prev_term, m_commit = commit,
                        m_hb_seq = hb_seq, m_entries = entries, m_success = success,
                        m_match_index = match_index, m_hint_index = hint_index,
                        m_snap_index = snap_index, m_snap_term = snap_term,
                        m_snap_data = snap_data\<rparr>
                 else None))"

definition message_fits :: "Message \<Rightarrow> bool" where
  "message_fits m \<longleftrightarrow> size32 (m_snap_data m) \<and> length (m_entries m) < 2 ^ 32 \<and>
     list_all (\<lambda>e. size32 (e_command e)) (m_entries m)"

subsection \<open>Round trip\<close>

lemma kind_of_value_kind [simp]: "kind_of_value (kind_value k) = Some k"
  by (cases k) (simp_all add: kind_of_value_def)

lemma get_bool_at [codec]:
  "get_bool (dec_at pre (put_bool b @ rest)) = (b, dec_at (pre @ put_bool b) rest)"
  by (simp add: get_bool_def put_bool_def codec)

lemma get_entry_at:
  "size32 (e_command e) \<Longrightarrow>
   get_entry (dec_at pre (put_entry e @ rest)) = (e, dec_at (pre @ put_entry e) rest)"
  by (simp add: get_entry_def put_entry_def codec)

interpretation entry_item: wire_item put_entry get_entry "\<lambda>e. size32 (e_command e)"
  by unfold_locales (rule get_entry_at)

interpretation op_entry: decode_op get_entry
proof
  fix d :: decoder
  assume d: "dec_inv d"
  obtain t d1 i d2 c d3 where g: "U64 d = (t, d1)" "U64 d1 = (i, d2)" "Str d2 = (c, d3)"
    by (metis surj_pair)
  have s1: "dec_step d d1" using op_u64.get_step [OF d] g by simp
  have s2: "dec_step d1 d2" using op_u64.get_step [OF dec_step_inv [OF s1]] g by simp
  have s3: "dec_step d2 d3" using op_str.get_step [OF dec_step_inv [OF s2]] g by simp
  show "dec_step d (snd (get_entry d))"
    using dec_step_trans [OF dec_step_trans [OF s1 s2] s3] g by (simp add: get_entry_def)
qed

lemma decode_entries_last:
  assumes "list_all (\<lambda>e. size32 (e_command e)) es"
  shows "decode_n get_entry (length es) (dec_at pre (concat (map put_entry es))) =
           (es, dec_at (pre @ concat (map put_entry es)) [])"
  using entry_item.decode_items [OF assms, of pre "[]"] by simp

lemma DecodeMessage_Encode: "message_fits m \<Longrightarrow> DecodeMessage (EncodeMessage m) = Some m"
  by (simp add: message_fits_def DecodeMessage_def EncodeMessage_def codec decode_entries_last
      unat_of_nat_u32)

subsection \<open>Properties\<close>

text \<open>
  (C22) A Raft message whose snapshot, entry count and commands fit the 32-bit length fields
  decodes to itself.
\<close>
theorem wire_roundtrip: "message_fits m \<Longrightarrow> DecodeMessage (EncodeMessage m) = Some m"
  by (rule DecodeMessage_Encode)

theorem wire_roundtrip_witness:
  "DecodeMessage (EncodeMessage (empty_message
     \<lparr>m_kind := kAppendEntries, m_term := 7, m_entries := [\<lparr>e_term = 7, e_index = 1, e_command = [1, 2]\<rparr>]\<rparr>)) =
   Some (empty_message
     \<lparr>m_kind := kAppendEntries, m_term := 7, m_entries := [\<lparr>e_term = 7, e_index = 1, e_command = [1, 2]\<rparr>]\<rparr>)"
  by (rule wire_roundtrip) (simp add: message_fits_def empty_message_def)

end
