(* ===== verification/Crc32.thy ===== *)
theory Crc32
  imports Prelude
begin

text \<open>
  The checksum of \<open>src/common/crc32.cc\<close>: a table-driven reflected CRC-32.  The lemmas show that
  the table gives the bit-by-bit definition and that a change confined to one byte is always
  detected.
\<close>

definition crc_bit :: "u32 \<Rightarrow> u32" where
  "crc_bit c = (if c AND 1 \<noteq> 0 then 0xEDB88320 XOR drop_bit 1 c else drop_bit 1 c)"

definition kTable :: "u32 list" where
  "kTable = map (\<lambda>i. (crc_bit ^^ 8) (of_nat i)) [0..<256]"

definition crc_byte :: "u32 \<Rightarrow> byte \<Rightarrow> u32" where
  "crc_byte crc c = kTable ! unat ((crc XOR ucast c) AND 0xFF) XOR drop_bit 8 crc"

definition Crc32 :: "bytes \<Rightarrow> u32" where
  "Crc32 data = foldl crc_byte 0xFFFFFFFF data XOR 0xFFFFFFFF"

text \<open>The reference: the message is fed into the register bit by bit, with no table.\<close>

definition crc_ref_byte :: "u32 \<Rightarrow> byte \<Rightarrow> u32" where
  "crc_ref_byte crc c = (crc_bit ^^ 8) (crc XOR ucast c)"

definition crc_ref :: "bytes \<Rightarrow> u32" where
  "crc_ref data = foldl crc_ref_byte 0xFFFFFFFF data XOR 0xFFFFFFFF"

subsection \<open>One bit is linear and injective\<close>

lemma and_1_bit: "(c AND 1 \<noteq> 0) = bit c 0" for c :: u32
  by (simp add: and_one_eq bit_0 odd_iff_mod_2_eq_one)

lemma crc_bit_alt: "crc_bit c = (if bit c 0 then 0xEDB88320 else 0) XOR drop_bit 1 c"
  by (simp add: crc_bit_def and_1_bit)

lemma crc_bit_xor: "crc_bit (a XOR b) = crc_bit a XOR crc_bit b"
  by (auto simp: crc_bit_alt bit_xor_iff drop_bit_xor xor.assoc xor.left_commute xor.commute)

lemma crc_bits_xor: "(crc_bit ^^ n) (a XOR b) = (crc_bit ^^ n) a XOR (crc_bit ^^ n) b"
  by (induction n) (simp_all add: crc_bit_xor)

lemma crc_bit_top: "bit (crc_bit c) 31 = bit c 0"
proof -
  have "bit (0xEDB88320 :: u32) 31" by simp
  moreover have "\<not> bit (drop_bit 1 c) 31"
    by (auto simp: bit_drop_bit_eq dest: bit_imp_le_length)
  ultimately show ?thesis by (simp add: crc_bit_alt bit_xor_iff)
qed

lemma xor_cancel_right: "(a XOR x = b XOR x) = (a = b)" for a b x :: u32
proof
  assume "a XOR x = b XOR x"
  then have "(a XOR x) XOR x = (b XOR x) XOR x" by simp
  then show "a = b" by (simp add: xor.assoc)
qed simp

lemma xor_cancel_left: "(x XOR a = x XOR b) = (a = b)" for a b x :: u32
  using xor_cancel_right [of a x b] by (simp add: xor.commute)

lemma inj_crc_bit: "inj crc_bit"
proof (rule injI)
  fix a b :: u32
  assume eq: "crc_bit a = crc_bit b"
  then have b0: "bit a 0 = bit b 0" by (metis crc_bit_top)
  with eq have d: "drop_bit 1 a = drop_bit 1 b"
    by (simp add: crc_bit_alt xor_cancel_left)
  show "a = b"
  proof (rule bit_word_eqI)
    fix n
    have "bit (drop_bit 1 a) (n - 1) = bit (drop_bit 1 b) (n - 1)" by (simp only: d)
    with b0 show "bit a n = bit b n" by (cases n) (simp_all add: bit_drop_bit_eq)
  qed
qed

lemma inj_crc_bits: "inj (crc_bit ^^ n)"
  by (rule inj_fn) (rule inj_crc_bit)

lemma crc_bits_shift: "take_bit n c = 0 \<Longrightarrow> (crc_bit ^^ n) c = drop_bit n c"
proof (induction n arbitrary: c)
  case 0
  then show ?case by simp
next
  case (Suc n)
  from Suc.prems have b: "\<not> bit c i" if "i \<le> n" for i
    using that by (metis bit_0_eq bit_take_bit_iff bot_apply less_Suc_eq_le bot_bool_def)
  then have c1: "crc_bit c = drop_bit 1 c" by (simp add: crc_bit_alt)
  have "take_bit n (drop_bit 1 c) = 0"
    by (rule bit_word_eqI) (auto simp: bit_simps b)
  from Suc.IH [OF this] show ?case
    by (simp add: funpow_Suc_right c1 del: funpow.simps)
qed

lemma power2_eq_256: "2 ^ 8 = (256 :: nat)"
  by simp

subsection \<open>The table computes the reference\<close>

lemma crc_byte_ref: "crc_byte crc c = crc_ref_byte crc c"
proof -
  define x where "x = crc XOR ucast c"
  define lo where "lo = x AND 0xFF"
  define hi where "hi = x AND NOT 0xFF"
  have x: "x = hi XOR lo"
    unfolding lo_def hi_def by (rule bit_word_eqI) (auto simp: bit_simps)
  have ff: "(0xFF :: u32) = mask 8" by (simp add: mask_eq_exp_minus_1)
  have lo8: "unat lo < 256"
    unfolding lo_def ff
    by (metis take_bit_eq_mask take_bit_nat_less_exp unsigned_take_bit_eq power2_eq_256)
  then have tab: "kTable ! unat lo = (crc_bit ^^ 8) lo"
    by (simp add: kTable_def del: upt_rec_numeral)
  have "take_bit 8 hi = 0"
    unfolding hi_def ff by (rule bit_word_eqI) (auto simp: bit_simps)
  then have "(crc_bit ^^ 8) hi = drop_bit 8 hi" by (rule crc_bits_shift)
  also have "drop_bit 8 hi = drop_bit 8 crc"
    unfolding hi_def x_def ff
    by (rule bit_word_eqI) (auto simp: bit_simps dest: bit_imp_le_length)
  finally have "crc_ref_byte crc c = drop_bit 8 crc XOR (crc_bit ^^ 8) lo"
    unfolding crc_ref_byte_def x_def [symmetric] by (subst x) (simp add: crc_bits_xor)
  then show ?thesis
    by (simp add: crc_byte_def x_def [symmetric] lo_def [symmetric] tab xor.commute)
qed

lemma Crc32_table_ref: "Crc32 data = crc_ref data"
proof -
  have "crc_byte = crc_ref_byte" by (intro ext) (rule crc_byte_ref)
  then show ?thesis by (simp add: Crc32_def crc_ref_def)
qed

subsection \<open>Single-byte errors are detected\<close>

lemma crc_ref_byte_inject: "crc_ref_byte a c = crc_ref_byte b d \<longleftrightarrow> a XOR ucast c = b XOR ucast d"
  unfolding crc_ref_byte_def using inj_crc_bits [of 8] by (simp add: inj_eq)

lemma foldl_crc_inject: "foldl crc_ref_byte a ys = foldl crc_ref_byte b ys \<longleftrightarrow> a = b"
  by (induction ys arbitrary: a b) (simp_all add: crc_ref_byte_inject xor_cancel_right)

lemma ucast_byte_inject: "(ucast c :: u32) = ucast d \<longleftrightarrow> c = d" for c d :: byte
proof
  assume eq: "(ucast c :: u32) = ucast d"
  show "c = d"
  proof (rule bit_word_eqI)
    fix n
    have "bit (ucast c :: u32) n = bit (ucast d :: u32) n" by (simp only: eq)
    moreover assume "n < LENGTH(8)"
    ultimately show "bit c n = bit d n" by (simp add: bit_simps)
  qed
qed simp

lemma Crc32_one_byte: "Crc32 (xs @ c # ys) = Crc32 (xs @ d # ys) \<longleftrightarrow> c = d"
  by (simp add: Crc32_table_ref crc_ref_def xor_cancel_right foldl_crc_inject
      crc_ref_byte_inject xor_cancel_left ucast_byte_inject)

subsection \<open>Properties\<close>

text \<open>
  (C23) The table-driven checksum is the bit-by-bit CRC-32, and two messages that differ in
  exactly one byte never have the same checksum.
\<close>
theorem Crc32_reference_and_detection:
  "Crc32 data = crc_ref data \<and> (Crc32 (xs @ c # ys) = Crc32 (xs @ d # ys) \<longleftrightarrow> c = d)"
  by (simp add: Crc32_one_byte) (rule Crc32_table_ref)

end
