(* ===== verification/Records.thy ===== *)
theory Records
  imports Coding Crc32
begin

text \<open>
  The framing that the write-ahead log (\<open>src/storage/wal.cc\<close>) and the Raft log
  (\<open>src/raft/raft_storage.cc\<close>) share: a record is its payload behind a length and a
  checksum, and recovery scans records until the first one that is torn or does not check.

  The scan is generic in what one payload does to the state of the reader; the locale
  \<open>framed_log\<close> is the contract between the writer's payloads and the reader's step.
\<close>

subsection \<open>Records and the recovery scan\<close>

definition frame_record :: "bytes \<Rightarrow> bytes" where
  "frame_record payload = PutFixed32 (of_nat (length payload)) @ PutFixed32 (Crc32 payload) @ payload"

text \<open>The payload of the record at \<open>pos\<close> and the position behind it, if it is whole and checks.\<close>

definition next_record :: "bytes \<Rightarrow> nat \<Rightarrow> (bytes \<times> nat) option" where
  "next_record data pos =
     (if length data - pos \<ge> 8
      then (let len = unat (DecodeFixed32 (drop pos data));
                crc = DecodeFixed32 (drop (pos + 4) data)
            in if length data - pos - 8 < len then None
               else (let payload = take len (drop (pos + 8) data)
                     in if Crc32 payload \<noteq> crc then None else Some (payload, pos + 8 + len)))
      else None)"

text \<open>What one payload does: leave the loop in front of it, take it and go on, or leave behind it.\<close>

datatype 's scan_step = Break | Continue 's | BreakAfter

lemma next_record_pos: "next_record data pos = Some (payload, pos') \<Longrightarrow> pos < pos' \<and> pos' \<le> length data"
  by (auto simp: next_record_def Let_def split: if_splits)

function scan_records :: "('s \<Rightarrow> bytes \<Rightarrow> 's scan_step) \<Rightarrow> bytes \<Rightarrow> 's \<Rightarrow> nat \<Rightarrow> 's \<times> nat" where
  "scan_records step data s pos =
     (case next_record data pos of
        None \<Rightarrow> (s, pos)
      | Some (payload, pos') \<Rightarrow>
          (case step s payload of
             Break \<Rightarrow> (s, pos)
           | Continue s' \<Rightarrow> scan_records step data s' pos'
           | BreakAfter \<Rightarrow> (s, pos')))"
  by pat_completeness auto
termination
  by (relation "measure (\<lambda>(step, data, s, pos). length data - pos)")
    (auto dest: next_record_pos intro: diff_less_mono2)

declare scan_records.simps [simp del]

subsection \<open>Whole, torn and damaged records\<close>

lemma length_frame_record [simp]: "length (frame_record p) = 8 + length p"
  by (simp add: frame_record_def)

lemma next_record_whole:
  assumes "size32 p"
  shows "next_record (pre @ frame_record p @ rest) (length pre) =
           Some (p, length pre + length (frame_record p))"
  using assms
  by (simp add: next_record_def frame_record_def codec unat_of_nat_u32)

lemma DecodeFixed32_take:
  assumes "4 \<le> n"
  shows "DecodeFixed32 (take n (PutFixed32 v @ rest)) = v"
  using assms by (simp add: codec)

text \<open>A record cut short anywhere is not accepted.\<close>

lemma next_record_torn:
  assumes "size32 p" and "n < length (frame_record p)"
  shows "next_record (pre @ take n (frame_record p)) (length pre) = None"
proof (cases "8 \<le> n")
  case False
  with assms show ?thesis by (simp add: next_record_def)
next
  case True
  then have "take n (frame_record p) =
      PutFixed32 (of_nat (length p)) @ PutFixed32 (Crc32 p) @ take (n - 8) p"
    by (simp add: frame_record_def)
  moreover from True assms have "n - 8 < length p" by simp
  ultimately show ?thesis
    using True assms by (simp add: next_record_def codec unat_of_nat_u32 Let_def)
qed

text \<open>Damage to one byte of the payload is always detected by the checksum.\<close>

lemma next_record_bad_crc:
  assumes "size32 p" and "length q = length p" and "Crc32 q \<noteq> crc"
  shows "next_record (pre @ PutFixed32 (of_nat (length p)) @ PutFixed32 crc @ q @ rest) (length pre) = None"
  using assms by (simp add: next_record_def codec unat_of_nat_u32 Let_def)

lemma next_record_damaged:
  assumes "size32 (xs @ c # ys)" and "c \<noteq> d"
  shows "next_record (pre @ PutFixed32 (of_nat (length (xs @ c # ys))) @
           PutFixed32 (Crc32 (xs @ c # ys)) @ (xs @ d # ys) @ rest) (length pre) = None"
  using assms by (intro next_record_bad_crc) (simp_all add: Crc32_one_byte)

subsection \<open>The contract of a log of framed records\<close>

text \<open>
  \<open>enc\<close> gives the payload of an item and \<open>step\<close> is the reader's loop body; \<open>good s x\<close> says that
  the reader in state \<open>s\<close> takes the item \<open>x\<close>, and then \<open>add s x\<close> is its next state.
\<close>

locale framed_log =
  fixes enc :: "'a \<Rightarrow> bytes"
    and step :: "'s \<Rightarrow> bytes \<Rightarrow> 's scan_step"
    and good :: "'s \<Rightarrow> 'a \<Rightarrow> bool"
    and add :: "'s \<Rightarrow> 'a \<Rightarrow> 's"
  assumes enc_size: "good s x \<Longrightarrow> size32 (enc x)"
    and step_enc: "good s x \<Longrightarrow> step s (enc x) = Continue (add s x)"
begin

fun good_list :: "'s \<Rightarrow> 'a list \<Rightarrow> bool" where
  "good_list s [] = True"
| "good_list s (x # xs) = (good s x \<and> good_list (add s x) xs)"

lemma good_list_append: "good_list s (xs @ ys) \<longleftrightarrow> good_list s xs \<and> good_list (foldl add s xs) ys"
  by (induction xs arbitrary: s) auto

lemma scan_items:
  assumes "good_list s xs"
  shows "scan_records step (pre @ concat (map (\<lambda>x. frame_record (enc x)) xs) @ rest) s (length pre) =
         scan_records step (pre @ concat (map (\<lambda>x. frame_record (enc x)) xs) @ rest) (foldl add s xs)
           (length (pre @ concat (map (\<lambda>x. frame_record (enc x)) xs)))"
  using assms
proof (induction xs arbitrary: s pre)
  case (Cons x xs)
  let ?r = "frame_record (enc x)" and ?rs = "concat (map (\<lambda>x. frame_record (enc x)) xs)"
  from Cons.prems have g: "good s x" "good_list (add s x) xs" by auto
  have n: "next_record (pre @ ?r @ ?rs @ rest) (length pre) = Some (enc x, length (pre @ ?r))"
    using next_record_whole [OF enc_size [OF g(1)]] by simp
  have "scan_records step (pre @ ?r @ ?rs @ rest) s (length pre) =
        scan_records step ((pre @ ?r) @ ?rs @ rest) (add s x) (length (pre @ ?r))"
    by (subst scan_records.simps) (simp only: n step_enc [OF g(1)] option.case prod.case
        scan_step.case append_assoc)
  also note Cons.IH [OF g(2), of "pre @ ?r"]
  finally show ?case by (simp del: length_frame_record length_append)
qed simp

text \<open>
  What the scan makes of the first \<open>n\<close> bytes of a log: the items whose records are complete
  within them, and the position behind the last of these.
\<close>

lemma cut_point:
  "\<exists>k \<le> length xs. length (concat (map f (take k xs))) \<le> n \<and>
     (k < length xs \<longrightarrow> n < length (concat (map f (take (Suc k) xs))))"
proof (induction xs arbitrary: n)
  case (Cons x xs)
  show ?case
  proof (cases "length (f x) \<le> n")
    case True
    from Cons [of "n - length (f x)"] obtain k where
      "k \<le> length xs" "length (concat (map f (take k xs))) \<le> n - length (f x)"
      "k < length xs \<longrightarrow> n - length (f x) < length (concat (map f (take (Suc k) xs)))" by blast
    with True show ?thesis by (intro exI [of _ "Suc k"]) auto
  qed (auto intro: exI [of _ 0])
qed simp

lemma scan_stop:
  assumes "good_list s xs"
    and "next_record (concat (map (\<lambda>x. frame_record (enc x)) xs) @ rest)
           (length (concat (map (\<lambda>x. frame_record (enc x)) xs))) = None"
  shows "scan_records step (concat (map (\<lambda>x. frame_record (enc x)) xs) @ rest) s 0 =
           (foldl add s xs, length (concat (map (\<lambda>x. frame_record (enc x)) xs)))"
  using scan_items [OF assms(1), of "[]" rest] assms(2)
  by (simp del: length_frame_record length_concat) (subst scan_records.simps, simp)

lemma scan_prefix:
  assumes "good_list s xs"
  shows "\<exists>k \<le> length xs. scan_records step (take n (concat (map (\<lambda>x. frame_record (enc x)) xs))) s 0 =
             (foldl add s (take k xs), length (concat (map (\<lambda>x. frame_record (enc x)) (take k xs)))) \<and>
           length (concat (map (\<lambda>x. frame_record (enc x)) (take k xs))) \<le> n \<and>
           (k < length xs \<longrightarrow> n < length (concat (map (\<lambda>x. frame_record (enc x)) (take (Suc k) xs))))"
proof -
  let ?f = "\<lambda>xs. concat (map (\<lambda>x. frame_record (enc x)) xs)"
  obtain k where k: "k \<le> length xs" "length (?f (take k xs)) \<le> n"
    "k < length xs \<longrightarrow> n < length (?f (take (Suc k) xs))"
    using cut_point [of xs "\<lambda>x. frame_record (enc x)" n] by blast
  let ?m = "n - length (?f (take k xs))"
  have "\<exists>rest. take n (?f xs) = ?f (take k xs) @ rest \<and>
          next_record (?f (take k xs) @ rest) (length (?f (take k xs))) = None"
    (is "\<exists>rest. ?cut rest")
  proof (cases "k < length xs")
    case False
    with k have "take n (?f xs) = ?f (take k xs) @ []" by simp
    then show ?thesis by (intro exI [of _ "[]"]) (simp add: next_record_def)
  next
    case True
    have xs: "xs = take k xs @ xs ! k # drop (Suc k) xs" using True by (rule id_take_nth_drop)
    have good: "good (foldl add s (take k xs)) (xs ! k)"
      using assms good_list_append [of s "take k xs" "xs ! k # drop (Suc k) xs"] xs by simp
    have m: "?m < length (frame_record (enc (xs ! k)))"
      using k True by (simp add: take_Suc_conv_app_nth)
    have "take n (?f xs) = ?f (take k xs) @ take ?m (frame_record (enc (xs ! k)))"
      using k(2) m by (subst xs) (simp del: length_frame_record length_concat)
    with next_record_torn [OF enc_size [OF good] m] show ?thesis by blast
  qed
  then obtain rest where "?cut rest" by blast
  moreover have "good_list s (take k xs)"
    using assms good_list_append [of s "take k xs" "drop k xs"] by simp
  ultimately have "scan_records step (take n (?f xs)) s 0 = (foldl add s (take k xs), length (?f (take k xs)))"
    using scan_stop [of s "take k xs" rest] by simp
  with k show ?thesis by blast
qed

end

end
