(* ===== verification/Status.thy ===== *)
theory Status
  imports Prelude
begin

text \<open>
  \<open>src/common/status.h\<close> and \<open>status.cc\<close>: the result of a fallible operation is a code and a
  message.  Decimal rendering (\<open>std::to_string\<close>, stream output of unsigned integers) and its
  inverse (\<open>strtoull\<close> on a run of digits) are here too, since messages and names use them.
\<close>

datatype status_code =
  kOk | kNotFound | kCorruption | kIOError | kInvalidArgument | kNotLeader
| kTimeout | kAborted | kConflict

record status =
  st_code :: status_code
  st_msg :: bytes

definition OK :: status where
  "OK = \<lparr>st_code = kOk, st_msg = []\<rparr>"

definition mk_status :: "status_code \<Rightarrow> bytes \<Rightarrow> status" where
  "mk_status c m = \<lparr>st_code = c, st_msg = m\<rparr>"

abbreviation "NotFound \<equiv> mk_status kNotFound"
abbreviation "Corruption \<equiv> mk_status kCorruption"
abbreviation "IOError \<equiv> mk_status kIOError"
abbreviation "InvalidArgument \<equiv> mk_status kInvalidArgument"
abbreviation "NotLeader \<equiv> mk_status kNotLeader"
abbreviation "Timeout \<equiv> mk_status kTimeout"
abbreviation "Aborted \<equiv> mk_status kAborted"
abbreviation "Conflict \<equiv> mk_status kConflict"

definition is_ok :: "status \<Rightarrow> bool" where
  "is_ok s = (st_code s = kOk)"

definition IsNotFound :: "status \<Rightarrow> bool" where
  "IsNotFound s = (st_code s = kNotFound)"

definition IsCorruption :: "status \<Rightarrow> bool" where
  "IsCorruption s = (st_code s = kCorruption)"

definition IsNotLeader :: "status \<Rightarrow> bool" where
  "IsNotLeader s = (st_code s = kNotLeader)"

definition IsConflict :: "status \<Rightarrow> bool" where
  "IsConflict s = (st_code s = kConflict)"

definition IsAborted :: "status \<Rightarrow> bool" where
  "IsAborted s = (st_code s = kAborted)"

fun code_name :: "status_code \<Rightarrow> bytes" where
  "code_name kOk = str ''OK''"
| "code_name kNotFound = str ''not found''"
| "code_name kCorruption = str ''corruption''"
| "code_name kIOError = str ''io error''"
| "code_name kInvalidArgument = str ''invalid argument''"
| "code_name kNotLeader = str ''not leader''"
| "code_name kTimeout = str ''timeout''"
| "code_name kAborted = str ''aborted''"
| "code_name kConflict = str ''conflict''"

definition ToString :: "status \<Rightarrow> bytes" where
  "ToString s =
     (if st_code s = kOk then str ''OK''
      else if st_msg s = [] then code_name (st_code s)
      else code_name (st_code s) @ str '': '' @ st_msg s)"

text \<open>The enumerator values, as the wire carries them.\<close>

fun code_value :: "status_code \<Rightarrow> u8" where
  "code_value kOk = 0"
| "code_value kNotFound = 1"
| "code_value kCorruption = 2"
| "code_value kIOError = 3"
| "code_value kInvalidArgument = 4"
| "code_value kNotLeader = 5"
| "code_value kTimeout = 6"
| "code_value kAborted = 7"
| "code_value kConflict = 8"

lemmas status_simps [simp] =
  is_ok_def IsNotFound_def IsCorruption_def IsNotLeader_def IsConflict_def IsAborted_def
  OK_def mk_status_def

subsection \<open>Decimal numbers\<close>

fun to_string :: "nat \<Rightarrow> bytes" where
  "to_string n = (if n < 10 then [48 + of_nat n] else to_string (n div 10) @ [48 + of_nat (n mod 10)])"

declare to_string.simps [simp del]

definition is_digit :: "byte \<Rightarrow> bool" where
  "is_digit c \<longleftrightarrow> 48 \<le> c \<and> c \<le> 57"

definition digits_value :: "bytes \<Rightarrow> nat" where
  "digits_value ds = foldl (\<lambda>a c. 10 * a + unat (c - 48)) 0 ds"

lemma digits_value_snoc: "digits_value (ds @ [c]) = 10 * digits_value ds + unat (c - 48)"
  by (simp add: digits_value_def)

lemma unat_digit: "d < 10 \<Longrightarrow> unat (of_nat d :: byte) = d"
  by (simp add: unat_of_nat take_bit_nat_eq_self)

lemma is_digit_of_nat: "d < 10 \<Longrightarrow> is_digit (48 + of_nat d)"
proof -
  assume d: "d < 10"
  have "unat (48 + of_nat d :: byte) = 48 + d"
    using d by (simp add: unat_word_ariths unat_digit)
  with d show ?thesis by (simp add: is_digit_def word_le_nat_alt)
qed

lemma digits_value_to_string [simp]: "digits_value (to_string n) = n"
proof (induction n rule: to_string.induct)
  case (1 n)
  show ?case
  proof (cases "n < 10")
    case True
    then show ?thesis by (simp add: to_string.simps [of n] digits_value_def unat_digit)
  next
    case False
    with 1 show ?thesis
      by (simp add: to_string.simps [of n] digits_value_snoc unat_digit)
  qed
qed

lemma to_string_digits: "list_all is_digit (to_string n)"
proof (induction n rule: to_string.induct)
  case (1 n)
  then show ?case
    by (cases "n < 10") (auto simp: to_string.simps [of n] is_digit_of_nat)
qed

lemma to_string_not_Nil [simp]: "to_string n \<noteq> []"
  by (simp add: to_string.simps [of n])

lemma to_string_inject [simp]: "to_string m = to_string n \<longleftrightarrow> m = n"
  by (metis digits_value_to_string)

end
