(* ===== verification/Fs.thy ===== *)
theory Fs
  imports Status
begin

text \<open>
  \<open>src/common/fs.cc\<close> over a small model of the operating system: a map from paths to file
  contents and the outcomes of the system calls still to come.  Each call consumes one
  outcome: it fails with an error text, transfers only part of the data, or (also when the list
  is used up) succeeds.  Every partial write and every error return of the code is a branch.

  The lemmas show that \<open>WriteFileAtomic\<close> leaves at its path either the old content or all of
  the new one, whatever the outcomes are, and the new one when it reports OK.
\<close>

subsection \<open>System calls\<close>

datatype io = IoOk | IoFail bytes | IoShort nat

record world =
  w_files :: "bytes \<rightharpoonup> bytes"
  w_io :: "io list"

definition next_io :: "world \<Rightarrow> io \<times> world" where
  "next_io w = (case w_io w of [] \<Rightarrow> (IoOk, w) | x # xs \<Rightarrow> (x, w\<lparr>w_io := xs\<rparr>))"

definition set_file :: "bytes \<Rightarrow> bytes \<Rightarrow> world \<Rightarrow> world" where
  "set_file path data w = w\<lparr>w_files := (w_files w)(path \<mapsto> data)\<rparr>"

definition drop_file :: "bytes \<Rightarrow> world \<Rightarrow> world" where
  "drop_file path w = w\<lparr>w_files := (w_files w)(path := None)\<rparr>"

definition file_data :: "bytes \<Rightarrow> world \<Rightarrow> bytes" where
  "file_data path w = (case w_files w path of None \<Rightarrow> [] | Some d \<Rightarrow> d)"

text \<open>A call that either happens or fails: the failure is its error text.\<close>

definition sys_call :: "(world \<Rightarrow> world) \<Rightarrow> world \<Rightarrow> bytes option \<times> world" where
  "sys_call act w = (case next_io w of (IoFail e, w1) \<Rightarrow> (Some e, w1) | (_, w1) \<Rightarrow> (None, act w1))"

definition Errno :: "bytes \<Rightarrow> bytes \<Rightarrow> status" where
  "Errno what e = IOError (what @ str '': '' @ e)"

subsection \<open>Writing\<close>

text \<open>
  The loop \<open>while (off < data.size()) write(...)\<close> on a file opened for appending; it runs
  once per outcome until the data is out.
\<close>

function write_loop :: "bytes \<Rightarrow> bytes \<Rightarrow> world \<Rightarrow> bytes option \<times> world" where
  "write_loop path data w =
     (if data = [] then (None, w)
      else case w_io w of
        [] \<Rightarrow> (None, set_file path (file_data path w @ data) w)
      | IoOk # xs \<Rightarrow> (None, set_file path (file_data path w @ data) (w\<lparr>w_io := xs\<rparr>))
      | IoFail e # xs \<Rightarrow> (Some e, w\<lparr>w_io := xs\<rparr>)
      | IoShort n # xs \<Rightarrow>
          write_loop path (drop n data)
            (set_file path (file_data path w @ take n data) (w\<lparr>w_io := xs\<rparr>)))"
  by pat_completeness auto
termination
  by (relation "measure (\<lambda>(path, data, w). length (w_io w))") (auto simp: set_file_def)

declare write_loop.simps [simp del]

definition parent_path :: "bytes \<Rightarrow> bytes" where
  "parent_path path = rev (tl (dropWhile (\<lambda>c. c \<noteq> 47) (rev path)))"

definition SyncDir :: "bytes \<Rightarrow> world \<Rightarrow> status \<times> world" where
  "SyncDir dir w =
     (case sys_call id w of
        (Some e, w1) \<Rightarrow> (Errno (str ''open dir '' @ dir) e, w1)
      | (None, w1) \<Rightarrow>
          (case sys_call id w1 of
             (Some e, w2) \<Rightarrow> (Errno (str ''fsync dir '' @ dir) e, w2)
           | (None, w2) \<Rightarrow> (OK, w2)))"

definition WriteFileAtomic :: "bytes \<Rightarrow> bytes \<Rightarrow> world \<Rightarrow> status \<times> world" where
  "WriteFileAtomic path data w =
     (let tmp = path @ str ''.tmp''
      in case sys_call (set_file tmp []) w of
           (Some e, w1) \<Rightarrow> (Errno (str ''open '' @ tmp) e, w1)
         | (None, w1) \<Rightarrow>
             (case write_loop tmp data w1 of
                (Some e, w2) \<Rightarrow> (Errno (str ''write '' @ tmp) e, w2)
              | (None, w2) \<Rightarrow>
                  (case sys_call id w2 of
                     (Some e, w3) \<Rightarrow> (Errno (str ''fsync '' @ tmp) e, w3)
                   | (None, w3) \<Rightarrow>
                       (case sys_call (\<lambda>w. drop_file tmp (set_file path (file_data tmp w) w)) w3 of
                          (Some e, w4) \<Rightarrow> (Errno (str ''rename '' @ tmp) e, w4)
                        | (None, w4) \<Rightarrow> SyncDir (parent_path path) w4))))"

subsection \<open>Reading\<close>

text \<open>The chunked read loop with its 64 KiB buffer; a partial read returns at least one byte.\<close>

function read_loop :: "bytes \<Rightarrow> bytes \<Rightarrow> world \<Rightarrow> (bytes, bytes) sum \<times> world" where
  "read_loop rest out w =
     (case next_io w of
        (IoFail e, w1) \<Rightarrow> (Inl e, w1)
      | (x, w1) \<Rightarrow>
          (if rest = [] then (Inr out, w1)
           else (let n = (case x of IoShort k \<Rightarrow> max 1 (min k 65536) | _ \<Rightarrow> 65536)
                 in read_loop (drop n rest) (out @ take n rest) w1)))"
  by pat_completeness auto
termination
  by (relation "measure (\<lambda>(rest, out, w). length rest)") (auto split: io.splits)

declare read_loop.simps [simp del]

definition ReadFileToString :: "bytes \<Rightarrow> world \<Rightarrow> (status, bytes) sum \<times> world" where
  "ReadFileToString path w =
     (case next_io w of
        (IoFail e, w1) \<Rightarrow> (Inl (Errno (str ''open '' @ path) e), w1)
      | (_, w1) \<Rightarrow>
          (case w_files w1 path of
             None \<Rightarrow> (Inl (NotFound path), w1)
           | Some content \<Rightarrow>
               (case read_loop content [] w1 of
                  (Inl e, w2) \<Rightarrow> (Inl (Errno (str ''read '' @ path) e), w2)
                | (Inr out, w2) \<Rightarrow> (Inr out, w2))))"

subsection \<open>Facts on single calls\<close>

lemma next_io_files [simp]: "w_files (snd (next_io w)) = w_files w"
  by (simp add: next_io_def split: list.split)

lemma w_files_set_file [simp]: "w_files (set_file p d w) = (w_files w)(p \<mapsto> d)"
  by (simp add: set_file_def)

lemma w_files_drop_file [simp]: "w_files (drop_file p w) = (w_files w)(p := None)"
  by (simp add: drop_file_def)

lemma w_io_set_file [simp]: "w_io (set_file p d w) = w_io w" "w_io (drop_file p w) = w_io w"
  by (simp_all add: set_file_def drop_file_def)

lemma sys_callD:
  assumes "sys_call act w = (r, w')"
  obtains w1 where "w_files w1 = w_files w" "w' = (if r = None then act w1 else w1)"
proof -
  obtain x w1 where n: "next_io w = (x, w1)" by fastforce
  then have f: "w_files w1 = w_files w" by (metis next_io_files snd_conv)
  show ?thesis
    by (cases x) (use that n f assms in \<open>auto simp: sys_call_def split: if_splits\<close>)
qed

lemma sys_call_no_fault: "w_io w = [] \<Longrightarrow> sys_call act w = (None, act w)"
  by (simp add: sys_call_def next_io_def)

lemma write_loop_files:
  assumes "write_loop path data w = (r, w')"
  shows "\<exists>n. (r = None \<longrightarrow> n \<ge> length data) \<and>
           (\<forall>p. p \<noteq> path \<longrightarrow> w_files w' p = w_files w p) \<and>
           (w_files w path \<noteq> None \<longrightarrow> w_files w' path = Some (file_data path w @ take n data))"
  using assms
proof (induction path data w arbitrary: r w' rule: write_loop.induct)
  case (1 path data w)
  show ?case
  proof (cases "data = []")
    case True
    with 1(2) show ?thesis
      by (auto simp: write_loop.simps file_data_def)
  next
    case False
    show ?thesis
    proof (cases "w_io w")
      case Nil
      with False 1(2) show ?thesis
        by (auto simp: write_loop.simps [of path data w] intro: exI [of _ "length data"])
    next
      case (Cons x xs)
      show ?thesis
      proof (cases x)
        case IoOk
        with False Cons 1(2) show ?thesis
          by (auto simp: write_loop.simps [of path data w] file_data_def
              intro: exI [of _ "length data"])
      next
        case (IoFail e)
        with False Cons 1(2) show ?thesis
          by (auto simp: write_loop.simps [of path data w] file_data_def intro: exI [of _ 0])
      next
        case (IoShort n)
        let ?w = "set_file path (file_data path w @ take n data) (w\<lparr>w_io := xs\<rparr>)"
        have "write_loop path (drop n data) ?w = (r, w')"
          using 1(2) False Cons IoShort by (simp add: write_loop.simps [of path data w])
        from 1(1) [OF False Cons IoShort this] obtain k where
          k: "r = None \<longrightarrow> k \<ge> length (drop n data)"
            "\<forall>p. p \<noteq> path \<longrightarrow> w_files w' p = w_files ?w p"
            "w_files ?w path \<noteq> None \<longrightarrow> w_files w' path = Some (file_data path ?w @ take k (drop n data))"
          by blast
        have "take n data @ take k (drop n data) = take (n + k) data"
          by (simp add: take_add)
        with k show ?thesis
          by (intro exI [of _ "n + k"]) (auto simp: file_data_def)
      qed
    qed
  qed
qed

lemma write_loop_ok:
  assumes "write_loop path data w = (None, w')" and "w_files w path = Some old"
  shows "w_files w' = (w_files w)(path \<mapsto> old @ data)"
proof -
  from write_loop_files [OF assms(1)] obtain n where
    n: "n \<ge> length data" "\<forall>p. p \<noteq> path \<longrightarrow> w_files w' p = w_files w p"
      "w_files w path \<noteq> None \<longrightarrow> w_files w' path = Some (file_data path w @ take n data)"
    by blast
  show ?thesis
    using n assms(2) by (intro ext) (auto simp: file_data_def)
qed

lemma write_loop_no_fault:
  "w_io w = [] \<Longrightarrow> data \<noteq> [] \<or> w_files w path \<noteq> None \<Longrightarrow>
   write_loop path data w = (None, if data = [] then w else set_file path (file_data path w @ data) w)"
  by (auto simp: write_loop.simps [of path data w])

lemma SyncDir_files: "SyncDir dir w = (s, w') \<Longrightarrow> w_files w' = w_files w"
  by (auto simp: SyncDir_def split: prod.splits option.splits elim!: sys_callD)

subsection \<open>Atomic replacement\<close>

lemma tmp_ne [simp]: "path @ str ''.tmp'' \<noteq> path" "path \<noteq> path @ str ''.tmp''"
  by (simp_all add: str_def)

text \<open>The loop that fills the temporary file touches no other one and ends with all of the data.\<close>

lemma write_tmp:
  assumes "write_loop tmp data (set_file tmp [] w1) = (r, w2)"
  shows "(\<forall>p. p \<noteq> tmp \<longrightarrow> w_files w2 p = w_files w1 p) \<and> (r = None \<longrightarrow> w_files w2 tmp = Some data)"
  using write_loop_files [OF assms] by (auto simp: file_data_def)

lemma WriteFileAtomic_files:
  assumes "WriteFileAtomic path data w = (s, w')"
  shows "(\<forall>p. p \<noteq> path \<and> p \<noteq> path @ str ''.tmp'' \<longrightarrow> w_files w' p = w_files w p) \<and>
         (w_files w' path = w_files w path \<or> w_files w' path = Some data) \<and>
         (is_ok s \<longrightarrow> w_files w' path = Some data)"
  using assms
  by (auto simp: WriteFileAtomic_def Let_def Errno_def file_data_def
      split: prod.splits option.splits elim!: sys_callD dest!: SyncDir_files write_tmp)

lemma WriteFileAtomic_ok:
  assumes "w_io w = []"
  shows "\<exists>w'. WriteFileAtomic path data w = (OK, w') \<and> w_io w' = [] \<and>
           w_files w' = (w_files w)(path @ str ''.tmp'' := None, path \<mapsto> data)"
proof -
  have "path @ str ''.tmp'' \<noteq> path" by simp
  then show ?thesis
    using assms
    by (simp add: WriteFileAtomic_def Let_def sys_call_no_fault write_loop_no_fault SyncDir_def
        file_data_def fun_upd_twist)
qed

subsection \<open>Reading back\<close>

lemma next_ioD:
  assumes "next_io w = (x, w1)"
  shows "w_files w1 = w_files w" and "w_io w = [] \<Longrightarrow> x = IoOk \<and> w1 = w"
  using assms next_io_files [of w] by (simp, simp add: next_io_def)

lemma read_loop_spec:
  "w_files (snd (read_loop rest out w)) = w_files w \<and>
   (\<forall>x. fst (read_loop rest out w) = Inr x \<longrightarrow> x = out @ rest)"
proof (induction rest out w rule: read_loop.induct)
  case (1 rest out w)
  obtain x w1 where n: "next_io w = (x, w1)" by fastforce
  show ?case
    by (subst (1 2) read_loop.simps, cases x; cases "rest = []")
      (use n next_ioD(1) [OF n] 1(1,2) [OF n [symmetric]] in \<open>simp_all add: Let_def\<close>)
qed

lemma read_loop_no_fault: "w_io w = [] \<Longrightarrow> read_loop rest out w = (Inr (out @ rest), w)"
proof (induction rest out w rule: read_loop.induct)
  case (1 rest out w)
  from 1(3) have n: "next_io w = (IoOk, w)" by (simp add: next_io_def)
  show ?case
    by (subst read_loop.simps) (use n 1(1) [OF n [symmetric]] 1(3) in simp)
qed

lemma ReadFileToString_no_fault:
  assumes "w_io w = []"
  shows "ReadFileToString path w =
           ((case w_files w path of None \<Rightarrow> Inl (NotFound path) | Some c \<Rightarrow> Inr c), w)"
  using assms
  by (auto simp: ReadFileToString_def next_io_def read_loop_no_fault split: option.splits)

lemma ReadFileToString_ok:
  assumes "ReadFileToString path w = (Inr out, w')"
  shows "w_files w path = Some out \<and> w_files w' = w_files w"
proof -
  obtain x w1 where n: "next_io w = (x, w1)" by fastforce
  obtain c where c: "w_files w1 path = Some c" "read_loop c [] w1 = (Inr out, w')"
    using assms n by (auto simp: ReadFileToString_def split: io.splits option.splits prod.splits sum.splits)
  with read_loop_spec [of c "[]" w1] next_ioD [OF n] show ?thesis by simp
qed

end
