(* ===== verification/RaftStorage.thy ===== *)
theory RaftStorage
  imports Wire Records Fs
begin

text \<open>
  The durable state of one Raft member (\<open>src/raft/raft_storage.cc\<close>): a state file with the
  term and vote, a snapshot file, and a log file of framed entry records.  The abstract
  contract is a triple of hard state, snapshot and entries with the four updates of
  \<open>Persist\<close>; the files refine it, and reopening the directory gives the triple back.
\<close>

subsection \<open>Operations\<close>

record raft_storage =
  rs_dir :: bytes
  rs_hard :: HardState
  rs_snap :: Snapshot
  rs_entries :: "LogEntry list"
  rs_fd :: bool

definition new_storage :: "bytes \<Rightarrow> raft_storage" where
  "new_storage dir =
     \<lparr>rs_dir = dir, rs_hard = \<lparr>hs_term = 0, hs_voted_for = 0\<rparr>,
      rs_snap = \<lparr>s_last_index = 0, s_last_term = 0, s_data = []\<rparr>, rs_entries = [], rs_fd = False\<rparr>"

definition Path :: "bytes \<Rightarrow> bytes \<Rightarrow> bytes" where
  "Path dir name = (if dir = [] \<or> last dir = 47 then dir @ name else dir @ [47] @ name)"

abbreviation state_path where "state_path dir \<equiv> Path dir (str ''state'')"
abbreviation snap_path where "snap_path dir \<equiv> Path dir (str ''snap'')"
abbreviation log_path where "log_path dir \<equiv> Path dir (str ''log'')"

definition EncodeLogRecord :: "LogEntry \<Rightarrow> bytes" where
  "EncodeLogRecord e = frame_record (put_entry e)"

definition EncodeHardState :: "HardState \<Rightarrow> bytes" where
  "EncodeHardState hs =
     (let data = PutFixed64 (hs_term hs) @ PutFixed32 (hs_voted_for hs)
      in data @ PutFixed32 (Crc32 data))"

definition EncodeSnapshot :: "Snapshot \<Rightarrow> bytes" where
  "EncodeSnapshot snap =
     (let data = PutFixed64 (s_last_index snap) @ PutFixed64 (s_last_term snap) @
                 PutLengthPrefixed (s_data snap)
      in data @ PutFixed32 (Crc32 data))"

definition DecodeHardState :: "bytes \<Rightarrow> HardState option" where
  "DecodeHardState data =
     (let (term, d) = U64 (Decoder data); (voted, d) = U32 d; (crc, d) = U32 d
      in if \<not> dec_ok d \<or> remaining d \<noteq> 0 \<or> crc \<noteq> Crc32 (take 12 data) then None
         else Some \<lparr>hs_term = term, hs_voted_for = voted\<rparr>)"

definition DecodeSnapshot :: "bytes \<Rightarrow> Snapshot option" where
  "DecodeSnapshot data =
     (let (i, d) = U64 (Decoder data); (t, d) = U64 d; (s, d) = Str d; (crc, d) = U32 d
      in if \<not> dec_ok d \<or> remaining d \<noteq> 0 \<or> crc \<noteq> Crc32 (take (length data - 4) data) then None
         else Some \<lparr>s_last_index = i, s_last_term = t, s_data = s\<rparr>)"

text \<open>The loop body of \<open>Load\<close> over the log: the entries kept so far and the next index expected.\<close>

definition load_step :: "LogEntry list \<times> u64 \<Rightarrow> bytes \<Rightarrow> (LogEntry list \<times> u64) scan_step" where
  "load_step st payload =
     (case st of (entries, expect) \<Rightarrow>
        (let (e, d) = get_entry (Decoder payload)
         in if \<not> dec_ok d \<or> remaining d \<noteq> 0 then Break
            else if e_index e < expect then Continue (entries, expect)
            else if e_index e \<noteq> expect then BreakAfter
            else Continue (entries @ [e], expect + 1)))"

definition load_log :: "raft_storage \<Rightarrow> world \<Rightarrow> status \<times> raft_storage \<times> world" where
  "load_log rs w =
     (let path = log_path (rs_dir rs)
      in case ReadFileToString path w of
           (Inl s, w1) \<Rightarrow> if IsNotFound s then (OK, rs, w1) else (s, rs, w1)
         | (Inr data, w1) \<Rightarrow>
             (case scan_records load_step data (rs_entries rs, s_last_index (rs_snap rs) + 1) 0 of
                ((entries, _), valid_end) \<Rightarrow>
                  (let rs' = rs\<lparr>rs_entries := entries\<rparr>
                   in if valid_end < length data
                      then (case sys_call (set_file path (take valid_end data)) w1 of
                              (Some e, w2) \<Rightarrow> (Errno (str ''truncate raft log'') e, rs', w2)
                            | (None, w2) \<Rightarrow> (OK, rs', w2))
                      else (OK, rs', w1))))"

definition load_snap :: "raft_storage \<Rightarrow> world \<Rightarrow> status \<times> raft_storage \<times> world" where
  "load_snap rs w =
     (case ReadFileToString (snap_path (rs_dir rs)) w of
        (Inl s, w1) \<Rightarrow> if IsNotFound s then load_log rs w1 else (s, rs, w1)
      | (Inr data, w1) \<Rightarrow>
          (case DecodeSnapshot data of
             None \<Rightarrow> (Corruption (str ''bad raft snapshot file''), rs, w1)
           | Some snap \<Rightarrow> load_log (rs\<lparr>rs_snap := snap\<rparr>) w1))"

definition Load :: "raft_storage \<Rightarrow> world \<Rightarrow> status \<times> raft_storage \<times> world" where
  "Load rs w =
     (case ReadFileToString (state_path (rs_dir rs)) w of
        (Inl s, w1) \<Rightarrow> if IsNotFound s then load_snap rs w1 else (s, rs, w1)
      | (Inr data, w1) \<Rightarrow>
          (case DecodeHardState data of
             None \<Rightarrow> (Corruption (str ''bad raft state file''), rs, w1)
           | Some hs \<Rightarrow> load_snap (rs\<lparr>rs_hard := hs\<rparr>) w1))"

definition OpenLogForAppend :: "raft_storage \<Rightarrow> world \<Rightarrow> status \<times> raft_storage \<times> world" where
  "OpenLogForAppend rs w =
     (let path = log_path (rs_dir rs)
      in case sys_call (\<lambda>w. set_file path (file_data path w) w) w of
           (Some e, w1) \<Rightarrow> (Errno (str ''open raft log'') e, rs\<lparr>rs_fd := False\<rparr>, w1)
         | (None, w1) \<Rightarrow> (OK, rs\<lparr>rs_fd := True\<rparr>, w1))"

definition Storage_Open :: "bytes \<Rightarrow> world \<Rightarrow> status \<times> raft_storage \<times> world" where
  "Storage_Open dir w =
     (case sys_call id w of
        (Some e, w1) \<Rightarrow> (IOError (str ''create dir '' @ dir @ str '': '' @ e), new_storage dir, w1)
      | (None, w1) \<Rightarrow>
          (case Load (new_storage dir) w1 of
             (s, rs, w2) \<Rightarrow> if \<not> is_ok s then (s, rs, w2) else OpenLogForAppend rs w2))"

definition SaveHardState :: "HardState \<Rightarrow> raft_storage \<Rightarrow> world \<Rightarrow> status \<times> raft_storage \<times> world" where
  "SaveHardState hs rs w =
     (case WriteFileAtomic (state_path (rs_dir rs)) (EncodeHardState hs) w of
        (s, w1) \<Rightarrow> if \<not> is_ok s then (s, rs, w1) else (OK, rs\<lparr>rs_hard := hs\<rparr>, w1))"

definition storage_Append :: "LogEntry list \<Rightarrow> raft_storage \<Rightarrow> world \<Rightarrow> status \<times> raft_storage \<times> world" where
  "storage_Append entries rs w =
     (if entries = [] then (OK, rs, w)
      else if \<not> rs_fd rs then (Errno (str ''write raft log'') (str ''Bad file descriptor''), rs, w)
      else (let path = log_path (rs_dir rs); buf = concat (map EncodeLogRecord entries)
            in case write_loop path buf w of
                 (Some e, w1) \<Rightarrow> (Errno (str ''write raft log'') e, rs, w1)
               | (None, w1) \<Rightarrow>
                   (case sys_call id w1 of
                      (Some e, w2) \<Rightarrow> (Errno (str ''fsync raft log'') e, rs, w2)
                    | (None, w2) \<Rightarrow> (OK, rs\<lparr>rs_entries := rs_entries rs @ entries\<rparr>, w2))))"

definition RewriteLog :: "raft_storage \<Rightarrow> world \<Rightarrow> status \<times> raft_storage \<times> world" where
  "RewriteLog rs w =
     (let buf = concat (map EncodeLogRecord (rs_entries rs)); rs1 = rs\<lparr>rs_fd := False\<rparr>
      in case WriteFileAtomic (log_path (rs_dir rs)) buf w of
           (s, w1) \<Rightarrow> if \<not> is_ok s then (s, rs1, w1) else OpenLogForAppend rs1 w1)"

text \<open>\<open>while (!entries_.empty() && entries_.back().index >= index) entries_.pop_back()\<close>\<close>

definition pop_from :: "u64 \<Rightarrow> LogEntry list \<Rightarrow> LogEntry list" where
  "pop_from index entries = rev (dropWhile (\<lambda>e. e_index e \<ge> index) (rev entries))"

definition TruncateFrom :: "u64 \<Rightarrow> raft_storage \<Rightarrow> world \<Rightarrow> status \<times> raft_storage \<times> world" where
  "TruncateFrom index rs w = RewriteLog (rs\<lparr>rs_entries := pop_from index (rs_entries rs)\<rparr>) w"

definition SaveSnapshot ::
  "Snapshot \<Rightarrow> bool \<Rightarrow> raft_storage \<Rightarrow> world \<Rightarrow> status \<times> raft_storage \<times> world" where
  "SaveSnapshot snap drop_all rs w =
     (case WriteFileAtomic (snap_path (rs_dir rs)) (EncodeSnapshot snap) w of
        (s, w1) \<Rightarrow>
          if \<not> is_ok s then (s, rs, w1)
          else RewriteLog
                 (rs\<lparr>rs_snap := snap,
                     rs_entries :=
                       (if drop_all then []
                        else dropWhile (\<lambda>e. e_index e \<le> s_last_index snap) (rs_entries rs))\<rparr>) w1)"

text \<open>Runs the next action only when the one before it succeeded.\<close>

definition and_then ::
  "status \<times> raft_storage \<times> world \<Rightarrow> (raft_storage \<Rightarrow> world \<Rightarrow> status \<times> raft_storage \<times> world) \<Rightarrow>
   status \<times> raft_storage \<times> world" where
  "and_then r f = (case r of (s, rs, w) \<Rightarrow> if is_ok s then f rs w else r)"

definition Persist :: "Ready \<Rightarrow> raft_storage \<Rightarrow> world \<Rightarrow> status \<times> raft_storage \<times> world" where
  "Persist ready rs w =
     and_then (and_then (and_then
       (case snapshot_to_apply ready of
          None \<Rightarrow> (OK, rs, w) | Some snap \<Rightarrow> SaveSnapshot snap True rs w)
       (\<lambda>rs w. if truncate_from ready \<noteq> 0 then TruncateFrom (truncate_from ready) rs w
               else (OK, rs, w)))
       (storage_Append (entries_to_append ready)))
       (\<lambda>rs w. if hard_state_changed ready then SaveHardState (hard_state ready) rs w
               else (OK, rs, w))"

subsection \<open>The abstract contract\<close>

record disk =
  d_hard :: HardState
  d_snap :: Snapshot
  d_entries :: "LogEntry list"

definition persist_snapshot :: "Ready \<Rightarrow> disk \<Rightarrow> disk" where
  "persist_snapshot ready d =
     (case snapshot_to_apply ready of
        None \<Rightarrow> d | Some snap \<Rightarrow> d\<lparr>d_snap := snap, d_entries := []\<rparr>)"

definition persist_truncate :: "Ready \<Rightarrow> disk \<Rightarrow> disk" where
  "persist_truncate ready d =
     (if truncate_from ready \<noteq> 0 then d\<lparr>d_entries := pop_from (truncate_from ready) (d_entries d)\<rparr>
      else d)"

definition persist_append :: "Ready \<Rightarrow> disk \<Rightarrow> disk" where
  "persist_append ready d = d\<lparr>d_entries := d_entries d @ entries_to_append ready\<rparr>"

definition persist_hard :: "Ready \<Rightarrow> disk \<Rightarrow> disk" where
  "persist_hard ready d = (if hard_state_changed ready then d\<lparr>d_hard := hard_state ready\<rparr> else d)"

definition persist :: "Ready \<Rightarrow> disk \<Rightarrow> disk" where
  "persist ready d = persist_hard ready (persist_append ready (persist_truncate ready (persist_snapshot ready d)))"

definition storage_disk :: "raft_storage \<Rightarrow> disk" where
  "storage_disk rs = \<lparr>d_hard = rs_hard rs, d_snap = rs_snap rs, d_entries = rs_entries rs\<rparr>"

lemma storage_disk_sel [simp]:
  "d_hard (storage_disk rs) = rs_hard rs" "d_snap (storage_disk rs) = rs_snap rs"
  "d_entries (storage_disk rs) = rs_entries rs"
  by (simp_all add: storage_disk_def)

text \<open>The files hold the storage's state.\<close>

definition log_bytes :: "LogEntry list \<Rightarrow> bytes" where
  "log_bytes es = concat (map EncodeLogRecord es)"

definition synced :: "raft_storage \<Rightarrow> world \<Rightarrow> bool" where
  "synced rs w \<longleftrightarrow>
     (w_files w (state_path (rs_dir rs)) = Some (EncodeHardState (rs_hard rs)) \<or>
      w_files w (state_path (rs_dir rs)) = None \<and> rs_hard rs = \<lparr>hs_term = 0, hs_voted_for = 0\<rparr>) \<and>
     (w_files w (snap_path (rs_dir rs)) = Some (EncodeSnapshot (rs_snap rs)) \<or>
      w_files w (snap_path (rs_dir rs)) = None \<and>
        rs_snap rs = \<lparr>s_last_index = 0, s_last_term = 0, s_data = []\<rparr>) \<and>
     w_files w (log_path (rs_dir rs)) = Some (log_bytes (rs_entries rs)) \<and> rs_fd rs"

subsection \<open>Paths\<close>

lemma Path_inject [simp]: "Path dir a = Path dir b \<longleftrightarrow> a = b"
  by (simp add: Path_def)

lemma Path_append [simp]: "Path dir a @ b = Path dir (a @ b)"
  by (simp add: Path_def)

lemma str_append [simp]: "str a @ str b = str (a @ b)"
  by (simp add: str_def)

subsection \<open>Refinement of the abstract contract\<close>

lemma synced_files:
  assumes "w_files w' (state_path (rs_dir rs)) = w_files w (state_path (rs_dir rs))"
    and "w_files w' (snap_path (rs_dir rs)) = w_files w (snap_path (rs_dir rs))"
    and "w_files w' (log_path (rs_dir rs)) = w_files w (log_path (rs_dir rs))"
  shows "synced rs w' = synced rs w"
  using assms by (simp add: synced_def)

lemma OpenLogForAppend_ok:
  assumes "OpenLogForAppend rs w = (s, rs', w')" and "is_ok s"
  shows "rs' = rs\<lparr>rs_fd := True\<rparr> \<and>
         w_files w' = (w_files w)(log_path (rs_dir rs) \<mapsto> file_data (log_path (rs_dir rs)) w)"
  using assms
  by (auto simp: OpenLogForAppend_def Let_def Errno_def file_data_def
      split: prod.splits option.splits elim!: sys_callD)

lemma SaveHardState_synced:
  assumes "SaveHardState hs rs w = (s, rs', w')" and "is_ok s" and "synced rs w"
  shows "synced rs' w' \<and> rs_dir rs' = rs_dir rs \<and>
         storage_disk rs' = (storage_disk rs)\<lparr>d_hard := hs\<rparr>"
proof -
  obtain s1 w1 where a: "WriteFileAtomic (state_path (rs_dir rs)) (EncodeHardState hs) w = (s1, w1)"
    by fastforce
  with assms have e: "is_ok s1" "rs' = rs\<lparr>rs_hard := hs\<rparr>" "w' = w1"
    by (auto simp: SaveHardState_def split: if_splits)
  from WriteFileAtomic_files [OF a] e assms(3) show ?thesis by (simp add: synced_def storage_disk_def)
qed

lemma storage_Append_synced:
  assumes "storage_Append es rs w = (s, rs', w')" and "is_ok s" and "synced rs w"
  shows "synced rs' w' \<and> rs_dir rs' = rs_dir rs \<and>
         storage_disk rs' = (storage_disk rs)\<lparr>d_entries := rs_entries rs @ es\<rparr>"
proof (cases "es = []")
  case True
  with assms show ?thesis by (simp add: storage_Append_def storage_disk_def)
next
  case False
  let ?p = "log_path (rs_dir rs)"
  have fd: "rs_fd rs" and f: "w_files w ?p = Some (log_bytes (rs_entries rs))"
    using assms(3) by (auto simp: synced_def)
  from assms(1,2) False fd obtain w1 where
    wl: "write_loop ?p (concat (map EncodeLogRecord es)) w = (None, w1)"
    and w': "w_files w' = w_files w1" "rs' = rs\<lparr>rs_entries := rs_entries rs @ es\<rparr>"
    by (auto simp: storage_Append_def Let_def Errno_def split: prod.splits option.splits elim!: sys_callD)
  from write_loop_ok [OF wl f] w' assms(3) show ?thesis
    by (simp add: synced_def log_bytes_def storage_disk_def)
qed

text \<open>Rewriting the log restores \<open>synced\<close> from any state of the log file.\<close>

lemma RewriteLog_synced:
  assumes "RewriteLog rs w = (s, rs', w')" and "is_ok s"
    and "synced (rs\<lparr>rs_fd := True, rs_entries := old\<rparr>) (set_file (log_path (rs_dir rs)) (log_bytes old) w)"
  shows "synced rs' w' \<and> rs_dir rs' = rs_dir rs \<and> storage_disk rs' = storage_disk rs"
proof -
  let ?p = "log_path (rs_dir rs)"
  obtain s1 w1 where a: "WriteFileAtomic ?p (concat (map EncodeLogRecord (rs_entries rs))) w = (s1, w1)"
    by fastforce
  with assms(1,2) have ok: "is_ok s1"
    and o: "OpenLogForAppend (rs\<lparr>rs_fd := False\<rparr>) w1 = (s, rs', w')"
    by (auto simp: RewriteLog_def Let_def split: if_splits)
  from OpenLogForAppend_ok [OF o assms(2)] WriteFileAtomic_files [OF a] ok assms(3)
  show ?thesis by (auto simp: synced_def log_bytes_def file_data_def storage_disk_def)
qed

lemma TruncateFrom_synced:
  assumes "TruncateFrom i rs w = (s, rs', w')" and "is_ok s" and "synced rs w"
  shows "synced rs' w' \<and> rs_dir rs' = rs_dir rs \<and>
         storage_disk rs' = (storage_disk rs)\<lparr>d_entries := pop_from i (rs_entries rs)\<rparr>"
proof -
  let ?r = "rs\<lparr>rs_entries := pop_from i (rs_entries rs)\<rparr>"
  have "synced (?r\<lparr>rs_fd := True, rs_entries := rs_entries rs\<rparr>)
          (set_file (log_path (rs_dir ?r)) (log_bytes (rs_entries rs)) w)"
    using assms(3) by (simp add: synced_def)
  from RewriteLog_synced [OF _ assms(2) this] assms(1) show ?thesis
    by (auto simp: TruncateFrom_def storage_disk_def)
qed

lemma SaveSnapshot_synced:
  assumes "SaveSnapshot snap drop_all rs w = (s, rs', w')" and "is_ok s" and "synced rs w"
  shows "synced rs' w' \<and> rs_dir rs' = rs_dir rs \<and>
         storage_disk rs' = (storage_disk rs)\<lparr>d_snap := snap, d_entries :=
           (if drop_all then [] else dropWhile (\<lambda>e. e_index e \<le> s_last_index snap) (rs_entries rs))\<rparr>"
proof -
  let ?es = "if drop_all then [] else dropWhile (\<lambda>e. e_index e \<le> s_last_index snap) (rs_entries rs)"
  let ?r = "rs\<lparr>rs_snap := snap, rs_entries := ?es\<rparr>"
  obtain s1 w1 where a: "WriteFileAtomic (snap_path (rs_dir rs)) (EncodeSnapshot snap) w = (s1, w1)"
    by fastforce
  with assms(1,2) have ok: "is_ok s1" and rw: "RewriteLog ?r w1 = (s, rs', w')"
    by (auto simp: SaveSnapshot_def split: if_splits)
  have "synced (?r\<lparr>rs_fd := True, rs_entries := rs_entries rs\<rparr>)
          (set_file (log_path (rs_dir ?r)) (log_bytes (rs_entries rs)) w1)"
    using assms(3) WriteFileAtomic_files [OF a] ok by (simp add: synced_def)
  from RewriteLog_synced [OF rw assms(2) this] show ?thesis by (auto simp: storage_disk_def)
qed

lemma and_then_ok:
  assumes "and_then r f = (s, rs', w')" and "is_ok s"
  obtains s1 rs1 w1 where "r = (s1, rs1, w1)" "is_ok s1" "f rs1 w1 = (s, rs', w')"
  using assms by (auto simp: and_then_def split: prod.splits if_splits)

lemma Persist_synced:
  assumes "Persist ready rs w = (s, rs', w')" and "is_ok s" and "synced rs w"
  shows "synced rs' w' \<and> rs_dir rs' = rs_dir rs \<and> storage_disk rs' = persist ready (storage_disk rs)"
proof -
  from assms(1,2) obtain s1 rs1 w1 s2 rs2 w2 s3 rs3 w3 where
    1: "(case snapshot_to_apply ready of None \<Rightarrow> (OK, rs, w)
         | Some snap \<Rightarrow> SaveSnapshot snap True rs w) = (s1, rs1, w1)" "is_ok s1"
    and 2: "(if truncate_from ready \<noteq> 0 then TruncateFrom (truncate_from ready) rs1 w1
         else (OK, rs1, w1)) = (s2, rs2, w2)" "is_ok s2"
    and 3: "storage_Append (entries_to_append ready) rs2 w2 = (s3, rs3, w3)" "is_ok s3"
    and 4: "(if hard_state_changed ready then SaveHardState (hard_state ready) rs3 w3
         else (OK, rs3, w3)) = (s, rs', w')"
    unfolding Persist_def by (elim and_then_ok) blast
  have a: "synced rs1 w1 \<and> rs_dir rs1 = rs_dir rs \<and> storage_disk rs1 = persist_snapshot ready (storage_disk rs)"
    using 1 assms(3) by (auto simp: persist_snapshot_def split: option.splits dest: SaveSnapshot_synced)
  have b: "synced rs2 w2 \<and> rs_dir rs2 = rs_dir rs1 \<and> storage_disk rs2 = persist_truncate ready (storage_disk rs1)"
    using 2 conjunct1 [OF a] by (auto simp: persist_truncate_def split: if_splits dest: TruncateFrom_synced)
  have c: "synced rs3 w3 \<and> rs_dir rs3 = rs_dir rs2 \<and> storage_disk rs3 = persist_append ready (storage_disk rs2)"
    using storage_Append_synced [OF 3 conjunct1 [OF b]] by (simp add: persist_append_def)
  have "synced rs' w' \<and> rs_dir rs' = rs_dir rs3 \<and> storage_disk rs' = persist_hard ready (storage_disk rs3)"
    using 4 assms(2) c by (auto simp: persist_hard_def split: if_splits dest: SaveHardState_synced)
  with a b c show ?thesis by (simp add: persist_def)
qed

subsection \<open>No faults, no errors\<close>

definition runs_ok :: "(raft_storage \<Rightarrow> world \<Rightarrow> status \<times> raft_storage \<times> world) \<Rightarrow> bool" where
  "runs_ok f \<longleftrightarrow> (\<forall>rs w. w_io w = [] \<and> rs_fd rs \<longrightarrow>
     (\<exists>rs' w'. f rs w = (OK, rs', w') \<and> w_io w' = [] \<and> rs_fd rs'))"

lemma runs_ok_OK: "runs_ok (\<lambda>rs w. (OK, rs, w))"
  by (simp add: runs_ok_def)

lemma runs_ok_and_then:
  assumes "runs_ok f" and "runs_ok g"
  shows "runs_ok (\<lambda>rs w. and_then (f rs w) g)"
  unfolding runs_ok_def
proof (intro allI impI)
  fix rs :: raft_storage and w :: world
  assume "w_io w = [] \<and> rs_fd rs"
  with assms(1) obtain rs1 w1 where "f rs w = (OK, rs1, w1)" "w_io w1 = []" "rs_fd rs1"
    unfolding runs_ok_def by blast
  with assms(2) show "\<exists>rs' w'. and_then (f rs w) g = (OK, rs', w') \<and> w_io w' = [] \<and> rs_fd rs'"
    unfolding runs_ok_def by (simp add: and_then_def)
qed

lemma RewriteLog_runs_ok:
  assumes "w_io w = []"
  shows "\<exists>rs' w'. RewriteLog rs w = (OK, rs', w') \<and> w_io w' = [] \<and> rs_fd rs'"
proof -
  from WriteFileAtomic_ok [OF assms] obtain w1 where
    "WriteFileAtomic (log_path (rs_dir rs)) (concat (map EncodeLogRecord (rs_entries rs))) w = (OK, w1)"
    "w_io w1 = []" by blast
  then show ?thesis
    by (simp add: RewriteLog_def Let_def OpenLogForAppend_def sys_call_no_fault)
qed

lemma TruncateFrom_runs_ok: "runs_ok (TruncateFrom i)"
  unfolding runs_ok_def TruncateFrom_def using RewriteLog_runs_ok by blast

lemma SaveSnapshot_runs_ok: "runs_ok (SaveSnapshot snap drop_all)"
  unfolding runs_ok_def
proof (intro allI impI)
  fix rs :: raft_storage and w :: world
  assume "w_io w = [] \<and> rs_fd rs"
  then obtain w1 where
    "WriteFileAtomic (snap_path (rs_dir rs)) (EncodeSnapshot snap) w = (OK, w1)" "w_io w1 = []"
    using WriteFileAtomic_ok by blast
  then show "\<exists>rs' w'. SaveSnapshot snap drop_all rs w = (OK, rs', w') \<and> w_io w' = [] \<and> rs_fd rs'"
    using RewriteLog_runs_ok [of w1] by (simp add: SaveSnapshot_def)
qed

lemma SaveHardState_runs_ok: "runs_ok (SaveHardState hs)"
  unfolding runs_ok_def
proof (intro allI impI)
  fix rs :: raft_storage and w :: world
  assume "w_io w = [] \<and> rs_fd rs"
  moreover from this obtain w1 where
    "WriteFileAtomic (state_path (rs_dir rs)) (EncodeHardState hs) w = (OK, w1)" "w_io w1 = []"
    using WriteFileAtomic_ok by blast
  ultimately show "\<exists>rs' w'. SaveHardState hs rs w = (OK, rs', w') \<and> w_io w' = [] \<and> rs_fd rs'"
    by (simp add: SaveHardState_def)
qed

lemma EncodeLogRecord_not_Nil [simp]: "EncodeLogRecord e \<noteq> []"
  using length_frame_record [of "put_entry e"] by (auto simp: EncodeLogRecord_def simp del: length_frame_record)

lemma storage_Append_runs_ok: "runs_ok (storage_Append es)"
  unfolding runs_ok_def
proof (intro allI impI)
  fix rs :: raft_storage and w :: world
  assume "w_io w = [] \<and> rs_fd rs"
  moreover have "concat (map EncodeLogRecord es) \<noteq> []" if "es \<noteq> []"
    using that by (cases es) auto
  ultimately show "\<exists>rs' w'. storage_Append es rs w = (OK, rs', w') \<and> w_io w' = [] \<and> rs_fd rs'"
    by (simp add: storage_Append_def Let_def write_loop_no_fault sys_call_no_fault)
qed

lemma Persist_runs_ok: "runs_ok (Persist ready)"
proof -
  have 1: "runs_ok (\<lambda>rs w. case snapshot_to_apply ready of None \<Rightarrow> (OK, rs, w)
      | Some snap \<Rightarrow> SaveSnapshot snap True rs w)"
    by (cases "snapshot_to_apply ready") (simp_all only: option.case runs_ok_OK SaveSnapshot_runs_ok)
  have 2: "runs_ok (\<lambda>rs w. if truncate_from ready \<noteq> 0 then TruncateFrom (truncate_from ready) rs w
      else (OK, rs, w))"
    by (cases "truncate_from ready \<noteq> 0") (simp_all only: if_True if_False runs_ok_OK TruncateFrom_runs_ok simp_thms)
  have 3: "runs_ok (\<lambda>rs w. if hard_state_changed ready then SaveHardState (hard_state ready) rs w
      else (OK, rs, w))"
    by (cases "hard_state_changed ready") (simp_all only: if_True if_False runs_ok_OK SaveHardState_runs_ok)
  show ?thesis
    unfolding Persist_def [abs_def]
    by (intro runs_ok_and_then 1 2 3 storage_Append_runs_ok)
qed

subsection \<open>Reopening\<close>

definition log_entry_fits :: "LogEntry \<Rightarrow> bool" where
  "log_entry_fits e \<longleftrightarrow> length (e_command e) + 20 < 2 ^ 32"

definition disk_fits :: "disk \<Rightarrow> bool" where
  "disk_fits d \<longleftrightarrow> size32 (s_data (d_snap d)) \<and> list_all log_entry_fits (d_entries d)"

text \<open>What the reader keeps of one entry: it skips those the snapshot covers.\<close>

definition load_good :: "LogEntry list \<times> u64 \<Rightarrow> LogEntry \<Rightarrow> bool" where
  "load_good st e \<longleftrightarrow> log_entry_fits e \<and> e_index e \<le> snd st"

definition load_add :: "LogEntry list \<times> u64 \<Rightarrow> LogEntry \<Rightarrow> LogEntry list \<times> u64" where
  "load_add st e = (if e_index e < snd st then st else (fst st @ [e], snd st + 1))"

lemma length_put_entry [simp]: "length (put_entry e) = 20 + length (e_command e)"
  by (simp add: put_entry_def)

lemma get_entry_all:
  "log_entry_fits e \<Longrightarrow> get_entry (Decoder (put_entry e)) = (e, dec_at (put_entry e) [])"
  using get_entry_at [of e "[]" "[]"] by (simp add: log_entry_fits_def codec)

lemma load_step_enc:
  "load_good st e \<Longrightarrow> load_step st (put_entry e) = Continue (load_add st e)"
  by (cases st) (auto simp: load_good_def load_step_def load_add_def get_entry_all dec_ok_at remaining_at)

interpretation raft_log: framed_log put_entry load_step load_good load_add
  by unfold_locales (simp_all add: load_step_enc, simp add: load_good_def log_entry_fits_def)

lemma load_next:
  "load_good (acc, x) e \<longleftrightarrow> log_entry_fits e \<and> e_index e \<le> x"
  "e_index e = x \<Longrightarrow> load_add (acc, x) e = (acc @ [e], x + 1)"
  by (simp_all add: load_good_def load_add_def)

lemma good_contiguous:
  "contiguous b es \<Longrightarrow> list_all log_entry_fits es \<Longrightarrow> raft_log.good_list (acc, b + 1) es"
proof (induction b es arbitrary: acc rule: contiguous.induct)
  case (2 b e es)
  then have "raft_log.good_list (acc @ [e], (b + 1) + 1) es" by auto
  with 2 show ?case by (simp add: load_next)
qed simp

lemma foldl_contiguous:
  "contiguous b es \<Longrightarrow> foldl load_add (acc, b + 1) es = (acc @ es, b + 1 + of_nat (length es))"
proof (induction b es arbitrary: acc rule: contiguous.induct)
  case (2 b e es)
  then have "foldl load_add (acc @ [e], (b + 1) + 1) es =
      ((acc @ [e]) @ es, (b + 1) + 1 + of_nat (length es))" by auto
  with 2 show ?case by (simp add: load_next)
qed simp

lemma good_covered:
  "list_all (\<lambda>e. log_entry_fits e \<and> e_index e < snd st) es \<Longrightarrow>
   raft_log.good_list st es \<and> foldl load_add st es = st"
  by (induction es) (auto simp: load_good_def load_add_def)

lemma DecodeHardState_Encode [simp]: "DecodeHardState (EncodeHardState hs) = Some hs"
  by (simp add: DecodeHardState_def EncodeHardState_def codec)

lemma DecodeSnapshot_Encode [simp]: "size32 (s_data snap) \<Longrightarrow> DecodeSnapshot (EncodeSnapshot snap) = Some snap"
  by (simp add: DecodeSnapshot_def EncodeSnapshot_def codec)

text \<open>
  The log file as a crash may leave it: entries the snapshot already covers (the log was not yet
  rewritten), the entries of the log, and a torn part of a batch that was being appended.
\<close>

lemma contiguous_append:
  "contiguous b (xs @ ys) \<longleftrightarrow> contiguous b xs \<and> contiguous (b + of_nat (length xs)) ys"
  by (induction xs arbitrary: b) (auto simp: add.assoc)

lemma log_bytes_append [simp]: "log_bytes (xs @ ys) = log_bytes xs @ log_bytes ys"
  by (simp add: log_bytes_def)

lemma scan_log_prefix:
  assumes "raft_log.good_list st xs"
  obtains k where "k \<le> length xs"
    "scan_records load_step (take n (log_bytes xs)) st 0 =
       (foldl load_add st (take k xs), length (log_bytes (take k xs)))"
    "length (log_bytes (take k xs)) \<le> n" "k < length xs \<longrightarrow> n < length (log_bytes (take (Suc k) xs))"
  using raft_log.scan_prefix [OF assms, of n]
  unfolding log_bytes_def EncodeLogRecord_def by auto

lemma length_log_bytes_take: "length (log_bytes (take k xs)) \<le> length (log_bytes xs)"
  by (metis append_take_drop_id le_add1 length_append log_bytes_append)

lemma load_log_torn:
  assumes "list_all (\<lambda>e. log_entry_fits e \<and> e_index e < s_last_index (rs_snap rs) + 1) old"
    and "contiguous (s_last_index (rs_snap rs)) es" and "list_all log_entry_fits es"
    and "w_files w (log_path (rs_dir rs)) = Some (take n (log_bytes (old @ es)))"
    and "length (log_bytes old) \<le> n" and "w_io w = []" and "rs_entries rs = []"
  shows "\<exists>k w'. load_log rs w = (OK, rs\<lparr>rs_entries := take k es\<rparr>, w') \<and> w_io w' = [] \<and>
           length (log_bytes (old @ take k es)) \<le> n \<and>
           (k < length es \<longrightarrow> n < length (log_bytes (old @ take (Suc k) es))) \<and>
           w_files w' = (w_files w)(log_path (rs_dir rs) \<mapsto> log_bytes (old @ take k es))"
proof -
  let ?st = "([], s_last_index (rs_snap rs) + 1) :: LogEntry list \<times> u64"
  let ?data = "take n (log_bytes (old @ es))"
  have old: "raft_log.good_list ?st old" "foldl load_add ?st old = ?st"
    using good_covered [of ?st old] assms(1) by simp_all
  have "raft_log.good_list ?st (old @ es)"
    unfolding raft_log.good_list_append old(2) using old(1) good_contiguous [OF assms(2,3)] by blast
  then obtain j where j: "scan_records load_step ?data ?st 0 =
      (foldl load_add ?st (take j (old @ es)), length (log_bytes (take j (old @ es))))"
    "length (log_bytes (take j (old @ es))) \<le> n"
    "j < length (old @ es) \<longrightarrow> n < length (log_bytes (take (Suc j) (old @ es)))"
    by (rule scan_log_prefix)
  have "length old \<le> j"
    using j(3) assms(5) length_log_bytes_take [of "Suc j" old] by (cases "j < length old") auto
  then obtain k where k: "j = length old + k" using le_Suc_ex by blast
  have "contiguous (s_last_index (rs_snap rs)) (take k es)"
    using assms(2) contiguous_append [of _ "take k es" "drop k es"] by simp
  then obtain x where
    scan: "scan_records load_step ?data ?st 0 = ((take k es, x), length (log_bytes (old @ take k es)))"
    using j(1) k old(2) foldl_contiguous by simp
  have "log_bytes (old @ es) = log_bytes (old @ take k es) @ log_bytes (drop k es)"
    by (simp flip: log_bytes_append)
  moreover have "length (log_bytes (old @ take k es)) \<le> n" using j(2) k by simp
  ultimately have t: "take (length (log_bytes (old @ take k es))) ?data = log_bytes (old @ take k es)"
    by (simp only: take_take_append)
  have ends: "length (log_bytes (old @ take k es)) \<le> n"
    "k < length es \<longrightarrow> n < length (log_bytes (old @ take (Suc k) es))"
    using j(2,3) k by simp_all
  show ?thesis
  proof (cases "length (log_bytes (old @ take k es)) < length ?data")
    case True
    let ?w = "set_file (log_path (rs_dir rs)) (log_bytes (old @ take k es)) w"
    have "load_log rs w = (OK, rs\<lparr>rs_entries := take k es\<rparr>, ?w)"
      unfolding load_log_def Let_def ReadFileToString_no_fault [OF assms(6)] assms(4,7)
      using scan True t by (simp add: sys_call_no_fault [OF assms(6)] del: log_bytes_append take_append)
    moreover have "w_io ?w = []" "w_files ?w = (w_files w)(log_path (rs_dir rs) \<mapsto> log_bytes (old @ take k es))"
      using assms(6) by simp_all
    ultimately show ?thesis using ends by blast
  next
    case False
    then have "?data = log_bytes (old @ take k es)" using t by (metis not_less take_all)
    then have "w_files w = (w_files w)(log_path (rs_dir rs) \<mapsto> log_bytes (old @ take k es))"
      using assms(4) by (metis fun_upd_triv)
    moreover have "load_log rs w = (OK, rs\<lparr>rs_entries := take k es\<rparr>, w)"
      unfolding load_log_def Let_def ReadFileToString_no_fault [OF assms(6)] assms(4,7)
      using scan False by (simp del: log_bytes_append take_append length_take)
    ultimately show ?thesis using ends assms(6) by blast
  qed
qed

text \<open>Opening a directory whose state and snapshot files are intact and whose log a crash left as above.\<close>

definition disk_files :: "bytes \<Rightarrow> HardState \<Rightarrow> Snapshot \<Rightarrow> bytes \<Rightarrow> world \<Rightarrow> bool" where
  "disk_files dir hs snap log w \<longleftrightarrow>
     (w_files w (state_path dir) = Some (EncodeHardState hs) \<or>
      w_files w (state_path dir) = None \<and> hs = \<lparr>hs_term = 0, hs_voted_for = 0\<rparr>) \<and>
     (w_files w (snap_path dir) = Some (EncodeSnapshot snap) \<or>
      w_files w (snap_path dir) = None \<and> snap = \<lparr>s_last_index = 0, s_last_term = 0, s_data = []\<rparr>) \<and>
     w_files w (log_path dir) = Some log"

lemma Load_files:
  assumes "disk_files dir hs snap log w" and "size32 (s_data snap)" and "w_io w = []"
  shows "Load (new_storage dir) w =
           load_log \<lparr>rs_dir = dir, rs_hard = hs, rs_snap = snap, rs_entries = [], rs_fd = False\<rparr> w"
  using assms
  by (auto simp: disk_files_def Load_def load_snap_def ReadFileToString_no_fault new_storage_def)

lemma Storage_Open_torn:
  assumes "disk_files dir hs snap (take n (log_bytes (old @ es))) w"
    and "size32 (s_data snap)" and "contiguous (s_last_index snap) es" and "list_all log_entry_fits es"
    and "list_all (\<lambda>e. log_entry_fits e \<and> e_index e < s_last_index snap + 1) old"
    and "length (log_bytes old) \<le> n" and "w_io w = []"
  shows "\<exists>k rs w'. Storage_Open dir w = (OK, rs, w') \<and>
           storage_disk rs = \<lparr>d_hard = hs, d_snap = snap, d_entries = take k es\<rparr> \<and>
           length (log_bytes (old @ take k es)) \<le> n \<and>
           (k < length es \<longrightarrow> n < length (log_bytes (old @ take (Suc k) es)))"
proof -
  let ?rs = "\<lparr>rs_dir = dir, rs_hard = hs, rs_snap = snap, rs_entries = [], rs_fd = False\<rparr>"
  have "w_files w (log_path (rs_dir ?rs)) = Some (take n (log_bytes (old @ es)))"
    using assms(1) unfolding disk_files_def raft_storage.select_convs by blast
  from load_log_torn [OF _ _ assms(4) this assms(6,7)] assms(3,5)
  obtain k w' where "load_log ?rs w = (OK, ?rs\<lparr>rs_entries := take k es\<rparr>, w')" "w_io w' = []"
    "length (log_bytes (old @ take k es)) \<le> n"
    "k < length es \<longrightarrow> n < length (log_bytes (old @ take (Suc k) es))"
    unfolding raft_storage.select_convs by blast
  note l = this
  let ?rs' = "?rs\<lparr>rs_entries := take k es, rs_fd := True\<rparr>"
  have "Storage_Open dir w = OpenLogForAppend (?rs\<lparr>rs_entries := take k es\<rparr>) w'"
    unfolding Storage_Open_def sys_call_no_fault [OF assms(7)] id_apply
    by (simp only: prod.case option.case Load_files [OF assms(1,2,7)] l(1)) simp
  moreover have "\<exists>w2. OpenLogForAppend (?rs\<lparr>rs_entries := take k es\<rparr>) w' = (OK, ?rs', w2)"
    by (simp add: OpenLogForAppend_def Let_def sys_call_no_fault [OF l(2)])
  moreover have "storage_disk ?rs' = \<lparr>d_hard = hs, d_snap = snap, d_entries = take k es\<rparr>"
    by (simp add: storage_disk_def)
  ultimately show ?thesis using l(3,4) by metis
qed

lemma synced_disk_files:
  "synced rs w \<Longrightarrow> disk_files (rs_dir rs) (rs_hard rs) (rs_snap rs) (log_bytes (rs_entries rs)) w"
  by (simp add: synced_def disk_files_def)

text \<open>A state that is on disk is what the next \<open>Open\<close> returns.\<close>

lemma Storage_Open_synced:
  assumes "synced rs w" and "disk_fits (storage_disk rs)" and "w_io w' = []" and "w_files w' = w_files w"
    and "contiguous (s_last_index (rs_snap rs)) (rs_entries rs)"
  shows "\<exists>rs2 w2. Storage_Open (rs_dir rs) w' = (OK, rs2, w2) \<and> storage_disk rs2 = storage_disk rs"
proof -
  let ?n = "length (log_bytes (rs_entries rs))"
  have "disk_files (rs_dir rs) (rs_hard rs) (rs_snap rs) (take ?n (log_bytes ([] @ rs_entries rs))) w'"
    using synced_disk_files [OF assms(1)]
    unfolding disk_files_def assms(4) append_Nil take_all [OF order_refl] .
  from Storage_Open_torn [OF this _ assms(5) _ _ _ assms(3)] assms(2)
  have "\<exists>k rs2 w2. Storage_Open (rs_dir rs) w' = (OK, rs2, w2) \<and>
      storage_disk rs2 = \<lparr>d_hard = rs_hard rs, d_snap = rs_snap rs, d_entries = take k (rs_entries rs)\<rparr> \<and>
      length (log_bytes ([] @ take k (rs_entries rs))) \<le> ?n \<and>
      (k < length (rs_entries rs) \<longrightarrow> ?n < length (log_bytes ([] @ take (Suc k) (rs_entries rs))))"
    by (simp add: disk_fits_def log_bytes_def [of "[]"])
  then obtain k rs2 w2 where o: "Storage_Open (rs_dir rs) w' = (OK, rs2, w2)"
    "storage_disk rs2 = \<lparr>d_hard = rs_hard rs, d_snap = rs_snap rs, d_entries = take k (rs_entries rs)\<rparr>"
    "k < length (rs_entries rs) \<longrightarrow> ?n < length (log_bytes (take (Suc k) (rs_entries rs)))" by auto
  then have "take k (rs_entries rs) = rs_entries rs"
    using length_log_bytes_take [of "Suc k" "rs_entries rs"] by (cases "k < length (rs_entries rs)") auto
  with o show ?thesis by (auto simp: storage_disk_def)
qed

subsection \<open>Properties\<close>

text \<open>
  (C14) A successful \<open>Persist\<close> has the effect of the abstract contract (snapshot, truncation,
  append, hard state, in that order), and whatever process opens the directory next finds
  exactly that state.
\<close>
theorem persist_then_open:
  assumes "Persist ready rs w = (s, rs', w')" and "is_ok s" and "synced rs w"
    and "disk_fits (persist ready (storage_disk rs))"
    and "contiguous (s_last_index (d_snap (persist ready (storage_disk rs))))
           (d_entries (persist ready (storage_disk rs)))"
  shows "synced rs' w' \<and> storage_disk rs' = persist ready (storage_disk rs) \<and>
         (\<exists>rs2 w2. Storage_Open (rs_dir rs) (w'\<lparr>w_io := []\<rparr>) = (OK, rs2, w2) \<and>
            storage_disk rs2 = persist ready (storage_disk rs))"
proof -
  from Persist_synced [OF assms(1-3)] have p: "synced rs' w'" "rs_dir rs' = rs_dir rs"
    "storage_disk rs' = persist ready (storage_disk rs)" by auto
  have "disk_fits (storage_disk rs')" "contiguous (s_last_index (rs_snap rs')) (rs_entries rs')"
    using assms(4,5) unfolding p(3) [symmetric] by simp_all
  with Storage_Open_synced [OF p(1), of "w'\<lparr>w_io := []\<rparr>"]
  have "\<exists>rs2 w2. Storage_Open (rs_dir rs) (w'\<lparr>w_io := []\<rparr>) = (OK, rs2, w2) \<and>
      storage_disk rs2 = storage_disk rs'"
    unfolding p(2) by simp
  then show ?thesis using p(1) unfolding p(3) [symmetric] by blast
qed

definition demo_entry :: LogEntry where
  "demo_entry = \<lparr>e_term = 1, e_index = 1, e_command = [7]\<rparr>"

definition demo_ready :: Ready where
  "demo_ready = empty_ready\<lparr>entries_to_append := [demo_entry], hard_state_changed := True,
     hard_state := \<lparr>hs_term = 1, hs_voted_for = 2\<rparr>\<rparr>"

definition demo_world :: world where
  "demo_world = \<lparr>w_files = [log_path [100] \<mapsto> []], w_io = []\<rparr>"

theorem persist_then_open_witness:
  "\<exists>s rs' w'. Persist demo_ready (new_storage [100]\<lparr>rs_fd := True\<rparr>) demo_world = (s, rs', w') \<and> is_ok s \<and>
     synced rs' w' \<and> rs_entries rs' = [demo_entry] \<and>
     (\<exists>rs2 w2. Storage_Open [100] (w'\<lparr>w_io := []\<rparr>) = (OK, rs2, w2) \<and> rs_entries rs2 = [demo_entry])"
proof -
  let ?rs = "new_storage [100]\<lparr>rs_fd := True\<rparr>"
  obtain s rs' w' where p: "Persist demo_ready ?rs demo_world = (s, rs', w')" and ok: "is_ok s"
    using Persist_runs_ok [of demo_ready, unfolded runs_ok_def, rule_format, of demo_world ?rs]
    by (auto simp: demo_world_def)
  have d: "persist demo_ready (storage_disk ?rs) =
      \<lparr>d_hard = \<lparr>hs_term = 1, hs_voted_for = 2\<rparr>, d_snap = \<lparr>s_last_index = 0, s_last_term = 0, s_data = []\<rparr>,
       d_entries = [demo_entry]\<rparr>"
    by code_simp
  have sy: "synced ?rs demo_world"
    by (simp add: synced_def new_storage_def demo_world_def log_bytes_def)
  from persist_then_open [OF p ok sy, unfolded d] have
    q: "synced rs' w'" "d_entries (storage_disk rs') = [demo_entry]"
    "\<exists>rs2 w2. Storage_Open (rs_dir ?rs) (w'\<lparr>w_io := []\<rparr>) = (OK, rs2, w2) \<and>
       d_entries (storage_disk rs2) = [demo_entry]"
    by (auto simp: disk_fits_def demo_entry_def log_entry_fits_def simp del: storage_disk_sel)
  moreover have "rs_dir ?rs = [100]" by (simp add: new_storage_def)
  ultimately show ?thesis using p ok unfolding storage_disk_sel by metis
qed

text \<open>
  (C16) Reopening after a crash.  The log file may still hold entries the snapshot covers, in
  front of the log, and may end in the middle of a batch that was being appended: \<open>Open\<close>
  succeeds and returns the stored term, vote and snapshot, and of the entries behind the
  snapshot exactly those whose records are complete.
\<close>
theorem open_after_crash:
  assumes "disk_files dir hs snap (take n (log_bytes (old @ es))) w"
    and "size32 (s_data snap)" and "contiguous (s_last_index snap) es" and "list_all log_entry_fits es"
    and "list_all (\<lambda>e. log_entry_fits e \<and> e_index e < s_last_index snap + 1) old"
    and "length (log_bytes old) \<le> n" and "w_io w = []"
  shows "\<exists>k rs w'. Storage_Open dir w = (OK, rs, w') \<and>
           storage_disk rs = \<lparr>d_hard = hs, d_snap = snap, d_entries = take k es\<rparr> \<and>
           length (log_bytes (old @ take k es)) \<le> n \<and>
           (k < length es \<longrightarrow> n < length (log_bytes (old @ take (Suc k) es)))"
  using assms by (rule Storage_Open_torn)

theorem open_after_crash_witness:
  "let hs = \<lparr>hs_term = 0, hs_voted_for = 0\<rparr>; snap = \<lparr>s_last_index = 0, s_last_term = 0, s_data = []\<rparr>;
       w = \<lparr>w_files = [log_path [100] \<mapsto> take 11 (log_bytes ([] @ [demo_entry]))], w_io = []\<rparr>
   in \<exists>k rs w'. Storage_Open [100] w = (OK, rs, w') \<and>
        storage_disk rs = \<lparr>d_hard = hs, d_snap = snap, d_entries = take k [demo_entry]\<rparr> \<and>
        length (log_bytes ([] @ take k [demo_entry])) \<le> 11 \<and>
        (k < length [demo_entry] \<longrightarrow> 11 < length (log_bytes ([] @ take (Suc k) [demo_entry])))"
  unfolding Let_def
  by (rule open_after_crash)
    (simp_all add: disk_files_def demo_entry_def log_entry_fits_def log_bytes_def)

end
