(* ===== verification/RaftInv.thy ===== *)
theory RaftInv
  imports RaftFrame RaftStorage
begin

text \<open>
  Invariants of one Raft member (\<open>src/raft/raft.cc\<close>): the discipline of terms and votes, the
  shape of the log, the commit index, and that the pending \<open>Ready\<close> always describes how to get
  from the state on disk to the state in memory.
\<close>

subsection \<open>The entry points\<close>

text \<open>
  The calls by which the host drives the core (\<open>RaftGroup::Tick\<close>, \<open>StepMessage\<close>,
  \<open>ProposeAndWait\<close> and \<open>LinearizableReadBarrier\<close> in \<open>src/server/raft_group.cc\<close>).
\<close>

datatype raft_op = OpTick | OpStep Message | OpPropose bytes | OpRead u64

fun run_op :: "raft_op \<Rightarrow> raft \<Rightarrow> raft" where
  "run_op OpTick r = Tick r"
| "run_op (OpStep m) r = Step m r"
| "run_op (OpPropose c) r = snd (Propose c r)"
| "run_op (OpRead ctx) r = snd (StartReadIndex ctx r)"

subsection \<open>Terms and votes\<close>

text \<open>The term never goes back, and within a term a vote once given stays.\<close>

definition vote_step :: "HardState \<Rightarrow> HardState \<Rightarrow> bool" where
  "vote_step h h' \<longleftrightarrow> hs_term h < hs_term h' \<or>
     hs_term h' = hs_term h \<and> (hs_voted_for h = 0 \<or> hs_voted_for h' = hs_voted_for h)"

definition hard_step :: "raft \<Rightarrow> raft \<Rightarrow> bool" where
  "hard_step r r' \<longleftrightarrow> r_config r' = r_config r \<and>
     (r_hard r' = r_hard r \<and> hard_state_changed (r_ready r') = hard_state_changed (r_ready r) \<and>
        hard_state (r_ready r') = hard_state (r_ready r) \<or>
      hard_state_changed (r_ready r') \<and> hard_state (r_ready r') = r_hard r' \<and>
        vote_step (r_hard r) (r_hard r'))"

lemma vote_step_refl [simp]: "vote_step h h"
  by (simp add: vote_step_def)

lemma vote_step_trans: "vote_step a b \<Longrightarrow> vote_step b c \<Longrightarrow> vote_step a c"
  by (auto simp: vote_step_def)

lemma hard_step_same: "same_hard r r' \<Longrightarrow> hard_step r r'"
  by (simp add: hard_step_def same_hard_def)

lemma hard_step_trans: "hard_step a b \<Longrightarrow> hard_step b c \<Longrightarrow> hard_step a c"
  by (auto simp: hard_step_def intro: vote_step_trans)

lemma hard_step_vote: "hard_step r r' \<Longrightarrow> vote_step (r_hard r) (r_hard r')"
  by (auto simp: hard_step_def)

lemma hard_step_BecomeFollower: "hard_step r (BecomeFollower t l r)"
  by (auto simp: hard_step_def vote_step_def BecomeFollower_def Let_def PersistHardState_def
      ResetElectionTimer_def)

lemma hard_step_HandleRequestVote: "hard_step r (HandleRequestVote m r)"
  by (auto simp: hard_step_def vote_step_def HandleRequestVote_def Let_def PersistHardState_def
      ResetElectionTimer_def Send_push)

lemma hard_step_dispatch: "hard_step r (dispatch k m r)"
  by (cases k) (simp_all add: hard_step_HandleRequestVote hard_step_same same_hard_handlers
      same_hard_HandleInstallSnapshot)

lemma hard_step_Step: "hard_step r (Step m r)"
  unfolding Step_def
  using hard_step_trans [OF hard_step_BecomeFollower hard_step_dispatch]
    hard_step_dispatch hard_step_same [OF same_hard_stale_reply] by simp

lemma hard_step_StartElection:
  assumes "r_term r \<noteq> - 1"
  shows "hard_step r (StartElection r)"
proof -
  have "hard_step r (candidate r)"
    using less_plus_1 [OF assms] by (simp add: hard_step_def vote_step_def candidate_sel)
  moreover have "same_hard (candidate r) (StartElection r)"
    by (simp add: StartElection_candidate hard_frame)
  ultimately show ?thesis using hard_step_same hard_step_trans by blast
qed

lemma hard_step_Tick: "r_term r \<noteq> - 1 \<Longrightarrow> hard_step r (Tick r)"
proof -
  assume t: "r_term r \<noteq> - 1"
  let ?r1 = "r\<lparr>r_election_elapsed := r_election_elapsed r + 1\<rparr>"
  have "hard_step r ?r1" by (simp add: hard_step_def)
  moreover have "hard_step ?r1 (StartElection ?r1)" using t by (simp add: hard_step_StartElection)
  ultimately have "hard_step r (StartElection ?r1)" by (rule hard_step_trans)
  then show ?thesis
    by (auto simp: Tick_def Let_def BroadcastAppend_push hard_step_def)
qed

lemma hard_step_Propose: "hard_step r (snd (Propose c r))"
  by (auto simp: Propose_def BroadcastAppend_push intro!: hard_step_same hard_frame)

lemma hard_step_StartReadIndex: "hard_step r (snd (StartReadIndex ctx r))"
  by (auto simp: StartReadIndex_def Let_def BroadcastAppend_push hard_step_def)

lemma hard_step_run_op: "r_term r \<noteq> - 1 \<Longrightarrow> hard_step r (run_op op r)"
  by (cases op) (simp_all add: hard_step_Tick hard_step_Step hard_step_Propose hard_step_StartReadIndex)

subsection \<open>Contiguous logs\<close>

lemma contiguous_snoc: "contiguous b (es @ [e]) \<longleftrightarrow> contiguous b es \<and> e_index e = b + of_nat (length es) + 1"
  by (simp add: contiguous_append)

lemma contiguous_take: "contiguous b es \<Longrightarrow> contiguous b (take k es)"
  by (metis append_take_drop_id contiguous_append)

lemma contiguous_drop: "contiguous b es \<Longrightarrow> k \<le> length es \<Longrightarrow> contiguous (b + of_nat k) (drop k es)"
  using contiguous_append [of b "take k es" "drop k es"] by simp

lemma contiguous_index:
  "contiguous b es \<Longrightarrow> i < length es \<Longrightarrow> e_index (es ! i) = b + 1 + of_nat i"
proof (induction b es arbitrary: i rule: contiguous.induct)
  case (2 b e es)
  then show ?case by (cases i) (auto simp: add.assoc)
qed simp

text \<open>Below an index, a contiguous log that does not wrap around has exactly a prefix.\<close>

lemma contiguous_filter:
  assumes "contiguous b es" and "unat b + length es < 2 ^ 64"
  shows "filter (\<lambda>e. e_index e < x) es = take (unat x - unat b - 1) es"
  using assms
proof (induction b es rule: contiguous.induct)
  case (2 b e es)
  from 2(3) have "unat b < 2 ^ 64 - 1" by simp
  then have "b \<noteq> - 1" using unat_max_u64 by auto
  then have b: "unat (b + 1) = Suc (unat b)" by (rule unat_plus_1)
  with 2 have IH: "filter (\<lambda>e. e_index e < x) es = take (unat x - Suc (unat b) - 1) es" by simp
  show ?case
  proof (cases "unat x \<le> Suc (unat b)")
    case True
    with 2(2) b IH show ?thesis by (simp add: word_less_nat_alt)
  next
    case False
    then obtain k where "unat x = Suc (Suc (unat b)) + k" by (metis le_Suc_ex not_less_eq_eq)
    with False 2(2) b IH show ?thesis by (simp add: word_less_nat_alt)
  qed
qed simp

lemma pop_from_Cons_take:
  assumes "contiguous b es" and "unat b + length es < 2 ^ 64"
  shows "pop_from x es = take (unat x - unat b - 1) es"
  using assms
proof (induction es rule: rev_induct)
  case (snoc e es)
  then have IH: "pop_from x es = take (unat x - unat b - 1) es" by (simp add: contiguous_append)
  have e: "e_index e = b + of_nat (Suc (length es))"
    using snoc(2) by (simp add: contiguous_snoc add.assoc add.commute)
  have "unat (e_index e) = unat b + Suc (length es)"
    unfolding e using snoc(3) by (simp add: unat_word_ariths unat_of_nat_u64 del: of_nat_Suc)
  then show ?case
    using IH by (auto simp: pop_from_def word_le_nat_alt)
qed (simp add: pop_from_def)

lemma pop_from_filter:
  assumes "contiguous b es" and "unat b + length es < 2 ^ 64"
  shows "pop_from x es = filter (\<lambda>e. e_index e < x) es"
  using pop_from_Cons_take [OF assms] contiguous_filter [OF assms] by simp

subsection \<open>The shape of the log\<close>

definition log_ok :: "raft \<Rightarrow> bool" where
  "log_ok r \<longleftrightarrow> contiguous (base_index r) (r_log r) \<and> unat (base_index r) + length (r_log r) < 2 ^ 64 - 1"

lemma unat_last_index: "log_ok r \<Longrightarrow> unat (last_index r) = unat (base_index r) + length (r_log r)"
  by (simp add: log_ok_def last_index_def unat_word_ariths unat_of_nat_u64)

lemma unat_diff_le: "b \<le> x \<Longrightarrow> unat (x - b) = unat x - unat b" for x b :: "'a::len word"
  by (rule unat_sub)

lemma unat_pos: "b < i \<Longrightarrow> unat (i - b - 1) = unat i - unat b - 1" for i b :: "'a::len word"
proof -
  assume l: "b < i"
  then have "unat (i - b) = unat i - unat b" by (simp add: unat_sub order.strict_implies_order)
  moreover from l have "i - b \<noteq> 0" by auto
  ultimately show ?thesis by (simp add: unat_minus_one)
qed

text \<open>What one entry of a message does to the log.\<close>

lemma append_entry_log:
  assumes "log_ok r" and "base_index r < e_index e" and "unat (e_index e) \<le> Suc (unat (last_index r))"
  shows "r_base (append_entry e r) = r_base r"
    and "r_log (append_entry e r) =
           (if e_index e \<le> last_index r \<and> TermAt r (e_index e) = e_term e then r_log r
            else take (unat (e_index e) - unat (base_index r) - 1) (r_log r) @ [e])"
proof -
  show "r_base (append_entry e r) = r_base r" by (simp add: append_entry_def Let_def)
  have "take (unat (e_index e) - unat (base_index r) - 1) (r_log r) = r_log r" if "\<not> e_index e \<le> last_index r"
    using that assms(1) by (simp add: word_le_nat_alt unat_last_index)
  then show "r_log (append_entry e r) =
      (if e_index e \<le> last_index r \<and> TermAt r (e_index e) = e_term e then r_log r
       else take (unat (e_index e) - unat (base_index r) - 1) (r_log r) @ [e])"
    using unat_pos [OF assms(2)] by (simp add: append_entry_def Let_def)
qed

lemma append_entry_log_ok:
  assumes "log_ok r" and "base_index r < e_index e" and "unat (e_index e) \<le> Suc (unat (last_index r))"
    and "unat (e_index e) < 2 ^ 64 - 1"
  shows "log_ok (append_entry e r) \<and> e_index e \<le> last_index (append_entry e r)"
proof (cases "e_index e \<le> last_index r \<and> TermAt r (e_index e) = e_term e")
  case True
  then show ?thesis using assms by (simp add: append_entry_def)
next
  case False
  let ?k = "unat (e_index e) - unat (base_index r) - 1"
  have k: "?k \<le> length (r_log r)" "unat (base_index r) + ?k + 1 = unat (e_index e)"
    using assms(1-3) by (auto simp: unat_last_index word_less_nat_alt)
  have log: "r_log (append_entry e r) = take ?k (r_log r) @ [e]" "r_base (append_entry e r) = r_base r"
    using append_entry_log [OF assms(1-3)] False by simp_all
  have "e_index e = base_index r + of_nat ?k + 1"
    using k assms(4) by (simp add: word_unat_eq_iff unat_word_ariths unat_of_nat_u64)
  then have c: "contiguous (base_index r) (take ?k (r_log r) @ [e])"
    using assms(1) k by (simp add: contiguous_snoc contiguous_take log_ok_def min_absorb2)
  then have lo: "log_ok (append_entry e r)"
    using k assms(4) by (simp add: log_ok_def log min_absorb2)
  moreover have "unat (last_index (append_entry e r)) = unat (e_index e)"
    using unat_last_index [OF lo] k by (simp add: log min_absorb2)
  ultimately show ?thesis by (simp add: word_le_nat_alt)
qed

subsection \<open>The pending \<open>Ready\<close> describes the way from disk to memory\<close>

definition disk_ok :: "disk \<Rightarrow> bool" where
  "disk_ok d \<longleftrightarrow> contiguous (s_last_index (d_snap d)) (d_entries d) \<and>
     unat (s_last_index (d_snap d)) + length (d_entries d) < 2 ^ 64 - 1"

definition memory_disk :: "raft \<Rightarrow> disk" where
  "memory_disk r = \<lparr>d_hard = r_hard r, d_snap = r_base r, d_entries = r_log r\<rparr>"

text \<open>What is left of the disk state before the pending entries are appended.\<close>

definition kept_snap :: "Ready \<Rightarrow> disk \<Rightarrow> Snapshot" where
  "kept_snap rd d = (case snapshot_to_apply rd of None \<Rightarrow> d_snap d | Some snap \<Rightarrow> snap)"

definition kept_log :: "Ready \<Rightarrow> disk \<Rightarrow> LogEntry list" where
  "kept_log rd d = (case snapshot_to_apply rd of None \<Rightarrow> d_entries d | Some snap \<Rightarrow> [])"

definition kept_entries :: "Ready \<Rightarrow> disk \<Rightarrow> LogEntry list" where
  "kept_entries rd d =
     (if truncate_from rd \<noteq> 0 then pop_from (truncate_from rd) (kept_log rd d) else kept_log rd d)"

definition tracks_log :: "disk \<Rightarrow> raft \<Rightarrow> bool" where
  "tracks_log d r \<longleftrightarrow> kept_snap (r_ready r) d = r_base r \<and>
     kept_entries (r_ready r) d @ entries_to_append (r_ready r) = r_log r"

definition tracks_hard :: "disk \<Rightarrow> raft \<Rightarrow> bool" where
  "tracks_hard d r \<longleftrightarrow>
     (if hard_state_changed (r_ready r) then hard_state (r_ready r) = r_hard r else d_hard d = r_hard r)"

lemma persist_kept:
  "persist rd d = \<lparr>d_hard = (if hard_state_changed rd then hard_state rd else d_hard d),
     d_snap = kept_snap rd d, d_entries = kept_entries rd d @ entries_to_append rd\<rparr>"
  by (cases d) (simp add: persist_def persist_hard_def persist_append_def persist_truncate_def
      persist_snapshot_def kept_snap_def kept_entries_def kept_log_def split: option.split)

lemma tracks_persist: "tracks_log d r \<and> tracks_hard d r \<longleftrightarrow> persist (r_ready r) d = memory_disk r"
  by (auto simp: tracks_log_def tracks_hard_def memory_disk_def persist_kept)

lemma tracks_hard_step: "tracks_hard d r \<Longrightarrow> hard_step r r' \<Longrightarrow> tracks_hard d r'"
  by (auto simp: tracks_hard_def hard_step_def)

definition log_inv :: "disk \<Rightarrow> raft \<Rightarrow> bool" where
  "log_inv d r \<longleftrightarrow> log_ok r \<and> tracks_log d r"

lemma kept_cong:
  assumes "snapshot_to_apply rd' = snapshot_to_apply rd"
  shows "kept_snap rd' d = kept_snap rd d" and "kept_log rd' d = kept_log rd d"
    and "truncate_from rd' = truncate_from rd \<Longrightarrow> kept_entries rd' d = kept_entries rd d"
  using assms by (simp_all add: kept_snap_def kept_log_def kept_entries_def)

lemma log_inv_same: "same_log r r' \<Longrightarrow> log_inv d r \<Longrightarrow> log_inv d r'"
  using kept_cong [of "r_ready r'" "r_ready r" d]
  by (simp add: log_inv_def log_ok_def tracks_log_def same_log_def)

lemma tracks_log_append_entry:
  assumes "disk_ok d" and "log_inv d r" and "base_index r < e_index e"
    and "unat (e_index e) \<le> Suc (unat (last_index r))"
  shows "tracks_log d (append_entry e r)"
proof (cases "e_index e \<le> last_index r")
  case False
  with assms(2) kept_cong [of "r_ready (append_entry e r)" "r_ready r" d] show ?thesis
    by (simp add: append_entry_def log_inv_def tracks_log_def flip: append_assoc)
next
  case True
  define es where "es = kept_log (r_ready r) d"
  let ?tf = "truncate_from (r_ready r)" and ?eta = "entries_to_append (r_ready r)" and ?i = "e_index e"
  let ?tf' = "if ?tf = 0 \<or> ?i < ?tf then ?i else ?tf"
  let ?k = "unat ?i - unat (base_index r) - 1"
  have snap: "kept_snap (r_ready r) d = r_base r"
    and log: "(if ?tf \<noteq> 0 then pop_from ?tf es else es) @ ?eta = r_log r"
    using assms(2) unfolding log_inv_def tracks_log_def kept_entries_def es_def by blast+
  have es: "contiguous (base_index r) es" "unat (base_index r) + length es < 2 ^ 64"
    using assms(1,2) unat_u64 [of "s_last_index (kept_snap (r_ready r) d)"] unfolding snap [symmetric]
    by (auto simp: es_def kept_log_def kept_snap_def disk_ok_def log_inv_def log_ok_def snap split: option.splits)
  note pop = pop_from_filter [OF es]
  have nz: "?i \<noteq> 0" using assms(3) by auto
  have "take ?k (r_log r) = filter (\<lambda>e. e_index e < ?i) (r_log r)"
    using assms(2) by (intro contiguous_filter [symmetric]) (auto simp: log_inv_def log_ok_def)
  also have "\<dots> = pop_from ?tf' es @ filter (\<lambda>e. e_index e < ?i) ?eta"
    unfolding log [symmetric] filter_append pop
    by (auto simp: filter_filter intro!: filter_cong)
  finally have key: "pop_from ?tf' es @ filter (\<lambda>p. \<not> e_index p \<ge> ?i) ?eta = take ?k (r_log r)"
    by (simp add: not_le)
  have k: "unat (?i - base_index r - 1) = ?k" using assms(3) by (rule unat_pos)
  show ?thesis
  proof (cases "TermAt r ?i = e_term e")
    case True
    with \<open>?i \<le> last_index r\<close> assms(2) show ?thesis by (simp add: append_entry_def log_inv_def)
  next
    case ne: False
    let ?rd = "r_ready (append_entry e r)"
    have rd: "truncate_from ?rd = ?tf'" "entries_to_append ?rd = filter (\<lambda>p. \<not> e_index p \<ge> ?i) ?eta @ [e]"
      "snapshot_to_apply ?rd = snapshot_to_apply (r_ready r)" "r_base (append_entry e r) = r_base r"
      "r_log (append_entry e r) = take ?k (r_log r) @ [e]"
      using True ne k by (simp_all add: append_entry_def Let_def)
    have "kept_snap ?rd d = kept_snap (r_ready r) d" "kept_log ?rd d = es"
      by (simp_all add: kept_snap_def kept_log_def es_def rd)
    with rd nz snap key show ?thesis
      by (simp add: tracks_log_def kept_entries_def flip: append_assoc)
  qed
qed

lemma append_entries_inv:
  assumes "disk_ok d" and "log_inv d r" and "contiguous p es" and "base_index r \<le> p"
    and "p \<le> last_index r" and "unat p + length es < 2 ^ 64 - 1"
  shows "log_inv d (fold append_entry es r) \<and> r_base (fold append_entry es r) = r_base r"
  using assms(2-)
proof (induction es arbitrary: p r)
  case (Cons e es)
  have "unat p < 2 ^ 64 - 1" using Cons.prems(5) by simp
  then have "p \<noteq> - 1" using unat_max_u64 by auto
  then have p1: "unat (p + 1) = Suc (unat p)" by (rule unat_plus_1)
  have e: "e_index e = p + 1" and es: "contiguous (p + 1) es" using Cons.prems(2) by auto
  have b: "base_index r < e_index e" and l: "unat (e_index e) \<le> Suc (unat (last_index r))"
    and m: "unat (e_index e) < 2 ^ 64 - 1"
    using Cons.prems(3-5) e p1 by (auto simp: word_le_nat_alt word_less_nat_alt)
  have lo: "log_ok r" using Cons.prems(1) by (simp add: log_inv_def)
  let ?r = "append_entry e r"
  have "log_inv d ?r" "p + 1 \<le> last_index ?r" "r_base ?r = r_base r"
    using append_entry_log_ok [OF lo b l m] tracks_log_append_entry [OF assms(1) Cons.prems(1) b l]
      append_entry_log(1) [OF lo b l] e by (simp_all add: log_inv_def)
  with Cons.IH [of ?r "p + 1"] es b e p1 Cons.prems(5) show ?case
    by (simp add: order.strict_implies_order)
qed simp

text \<open>A message as \<open>SendAppend\<close> builds it.\<close>

definition msg_ok :: "Message \<Rightarrow> bool" where
  "msg_ok m \<longleftrightarrow> contiguous (m_prev_index m) (m_entries m) \<and>
     unat (m_prev_index m) + length (m_entries m) < 2 ^ 64 - 1 \<and> m_snap_index m \<noteq> - 1"

lemma log_inv_accept_entries:
  assumes "disk_ok d" and "log_inv d r" and "contiguous p es" and "base_index r \<le> p"
    and "unat p + length es < 2 ^ 64 - 1"
  shows "log_inv d (accept_entries m resp p t es r)"
proof (cases "p > last_index r \<or> TermAt r p \<noteq> t")
  case True
  then show ?thesis
    using log_inv_same [OF same_log_push [OF same_log_refl] assms(2)]
    by (simp add: accept_entries_def Send_push)
next
  case False
  let ?r = "fold append_entry es r"
  have "log_inv d ?r" using append_entries_inv [OF assms(1-4)] assms(5) False by (simp add: not_less)
  moreover have "same_log ?r (accept_entries m resp p t es r)"
    using False by (auto simp: accept_entries_def Let_def Send_push intro!: log_frame)
  ultimately show ?thesis using log_inv_same by blast
qed

lemma log_inv_HandleAppendEntries:
  assumes "disk_ok d" and "log_inv d r" and "msg_ok m"
  shows "log_inv d (HandleAppendEntries m r)"
proof -
  define r1 where "r1 = follow_leader m r"
  have r1: "log_inv d r1"
    unfolding r1_def using log_inv_same [OF same_log_follow_leader [OF same_log_refl] assms(2)] .
  have m: "contiguous (m_prev_index m) (m_entries m)"
    "unat (m_prev_index m) + length (m_entries m) < 2 ^ 64 - 1"
    using assms(3) by (auto simp: msg_ok_def)
  show ?thesis
  proof (cases "m_prev_index m < base_index r1")
    case False
    then show ?thesis
      using log_inv_accept_entries [OF assms(1) r1 m(1) _ m(2)]
      by (simp add: HandleAppendEntries_def Let_def flip: r1_def)
  next
    case True
    let ?c = "unat (base_index r1 - m_prev_index m)"
    have c: "unat (m_prev_index m) + ?c = unat (base_index r1)"
      using True by (simp add: unat_sub word_less_nat_alt order.strict_implies_order)
    have pc: "m_prev_index m + of_nat ?c = base_index r1" by simp
    have "log_inv d (accept_entries m resp (base_index r1) (base_term r1) (drop ?c (m_entries m)) r1)"
      if "\<not> length (m_entries m) \<le> ?c" for resp
      using that contiguous_drop [OF m(1), of ?c] m(2) c
      by (intro log_inv_accept_entries [OF assms(1) r1]) (auto simp: pc)
    moreover have "log_inv d (push_msgs ms r1)" for ms
      using log_inv_same [OF same_log_push [OF same_log_refl] r1] .
    ultimately show ?thesis
      using True by (simp add: HandleAppendEntries_def Let_def Send_push flip: r1_def)
  qed
qed

text \<open>A leader appends at the end; the log must have room for one more entry.\<close>

definition log_room :: "raft \<Rightarrow> bool" where
  "log_room r \<longleftrightarrow> unat (base_index r) + length (r_log r) + 1 < 2 ^ 64 - 1"

lemma log_room_same: "same_log r r' \<Longrightarrow> log_room r' = log_room r"
  by (simp add: log_room_def same_log_def)

lemma log_inv_leader_append:
  assumes "log_inv d r" and "log_room r"
  shows "log_inv d (leader_append c r)"
  using assms kept_cong [of "r_ready (leader_append c r)" "r_ready r" d]
  by (simp add: log_inv_def log_ok_def log_room_def tracks_log_def leader_append_def Let_def
      contiguous_snoc last_index_def flip: append_assoc)

lemma BecomeLeader_log:
  obtains r1 where "same_log r r1" "r_term r1 = r_term r" "same_log (leader_append [] r1) (BecomeLeader r)"
proof
  let ?r1 = "r\<lparr>r_role := kLeader, r_leader := r_id r, r_heartbeat_elapsed := 0,
                 r_next := fold (\<lambda>p m. AList.update p (last_index r + 1) m) (r_peers r) [],
                 r_match := fold (\<lambda>p m. AList.update p 0 m) (r_peers r) [],
                 r_hb_acked := []\<rparr>"
  show "same_log r ?r1" "r_term ?r1 = r_term r" by (simp_all add: same_log_def)
  show "same_log (leader_append [] ?r1) (BecomeLeader r)"
    unfolding BecomeLeader_def Let_def BroadcastAppend_push
    by (intro same_log_MaybeAdvanceCommit same_log_push same_log_upd(4) same_log_refl)
qed

lemma log_inv_BecomeLeader: "log_inv d r \<Longrightarrow> log_room r \<Longrightarrow> log_inv d (BecomeLeader r)"
  by (rule BecomeLeader_log [of r]) (metis log_inv_leader_append log_inv_same log_room_same)

lemma log_inv_StartElection:
  assumes "log_inv d r" and "log_room r"
  shows "log_inv d (StartElection r)"
proof -
  have c: "log_inv d (candidate r)" "log_room (candidate r)"
    using assms log_inv_same log_room_same same_log_candidate by blast+
  then show ?thesis
    using log_inv_BecomeLeader [OF c] log_inv_same [OF same_log_push [OF same_log_refl] c(1)]
    by (simp add: StartElection_candidate)
qed

lemma log_inv_Tick:
  assumes "log_inv d r" and "log_room r"
  shows "log_inv d (Tick r)"
proof -
  have "log_inv d (r\<lparr>r_election_elapsed := t\<rparr>)" "log_room (r\<lparr>r_election_elapsed := t\<rparr>)" for t
    using assms log_inv_same log_room_same same_log_upd(8) [OF same_log_refl] by blast+
  moreover have "log_inv d (push_msgs ms (r\<lparr>r_heartbeat_elapsed := t, r_hb_seq := q\<rparr>))"
    "log_inv d (r\<lparr>r_heartbeat_elapsed := t\<rparr>)" for ms t q
    by (rule log_inv_same [OF _ assms(1)]; simp add: same_log_def)+
  ultimately show ?thesis
    by (simp add: Tick_def Let_def BroadcastAppend_push log_inv_StartElection)
qed

lemma log_inv_Propose: "log_inv d r \<Longrightarrow> log_room r \<Longrightarrow> log_inv d (snd (Propose c r))"
  using log_inv_same [OF same_log_MaybeAdvanceCommit [OF same_log_push [OF same_log_refl]]
      log_inv_leader_append]
  by (simp add: Propose_def BroadcastAppend_push)

lemma log_inv_HandleRequestVoteResp:
  assumes "log_inv d r" and "log_room r"
  shows "log_inv d (HandleRequestVoteResp m r)"
proof -
  have "log_inv d (r\<lparr>r_votes := v\<rparr>)" "log_room (r\<lparr>r_votes := v\<rparr>)" for v
    using assms log_inv_same log_room_same same_log_upd(3) [OF same_log_refl] by blast+
  then show ?thesis
    using assms by (simp add: HandleRequestVoteResp_def Let_def log_inv_BecomeLeader)
qed

lemma log_inv_HandleInstallSnapshot:
  assumes "log_inv d r" and "msg_ok m"
  shows "log_inv d (HandleInstallSnapshot m r)"
proof -
  define r1 where "r1 = follow_leader m r"
  have r1: "log_inv d r1"
    unfolding r1_def using log_inv_same [OF same_log_follow_leader [OF same_log_refl] assms(1)] .
  have "unat (m_snap_index m) < 2 ^ 64 - 1"
    using assms(2) unat_max_u64 unat_u64 [of "m_snap_index m"]
    by (simp add: msg_ok_def word_unat_eq_iff)
  then show ?thesis
    using log_inv_same [OF same_log_push [OF same_log_refl] r1]
    by (simp add: HandleInstallSnapshot_def Let_def Send_push flip: r1_def)
      (simp add: log_inv_def log_ok_def tracks_log_def kept_snap_def kept_entries_def kept_log_def)
qed

lemma log_inv_dispatch:
  assumes "disk_ok d" and "log_inv d r" and "log_room r" and "msg_ok m"
  shows "log_inv d (dispatch k m r)"
  using assms log_inv_same [OF _ assms(2)] same_log_handlers
  by (cases k) (simp_all add: log_inv_HandleRequestVoteResp log_inv_HandleAppendEntries
      log_inv_HandleInstallSnapshot)

lemma log_inv_Step:
  assumes "disk_ok d" and "log_inv d r" and "log_room r" and "msg_ok m"
  shows "log_inv d (Step m r)"
proof -
  have "log_inv d (BecomeFollower t l r)" "log_room (BecomeFollower t l r)" for t l
    using assms(2,3) log_inv_same log_room_same same_log_BecomeFollower [OF same_log_refl] by blast+
  then show ?thesis
    using log_inv_dispatch assms log_inv_same [OF same_log_handlers(4) assms(2)] by (simp add: Step_def)
qed

fun op_ok :: "raft_op \<Rightarrow> bool" where
  "op_ok (OpStep m) = msg_ok m"
| "op_ok _ = True"

lemma log_inv_run_op:
  assumes "disk_ok d" and "log_inv d r" and "log_room r" and "op_ok op"
  shows "log_inv d (run_op op r)"
  using assms log_inv_same [OF same_log_StartReadIndex assms(2)]
  by (cases op) (simp_all add: log_inv_Tick log_inv_Step log_inv_Propose)

end
