(* ===== verification/RaftVotes.thy ===== *)
theory RaftVotes
  imports RaftInv
begin

text \<open>
  How one operation of a member changes its role, the votes it counts and the messages it
  sends: the facts on a single member that the election argument needs.
\<close>

subsection \<open>Roles and counted votes\<close>

definition same_role :: "raft \<Rightarrow> raft \<Rightarrow> bool" where
  "same_role r r' \<longleftrightarrow> r_role r' = r_role r \<and> r_votes r' = r_votes r"

named_theorems role_frame \<open>steps that keep the role and the votes\<close>

lemma same_role_refl [role_frame]: "same_role r r"
  by (simp add: same_role_def)

lemma same_role_upd [role_frame]:
  "same_role a r \<Longrightarrow> same_role a (push_msgs ms r)"
  "same_role a r \<Longrightarrow> same_role a (ResetElectionTimer r)"
  "same_role a r \<Longrightarrow> same_role a (EmitCommitted r)"
  "same_role a r \<Longrightarrow> same_role a (PersistHardState r)"
  "same_role a r \<Longrightarrow> same_role a (append_entry e r)"
  "same_role a r \<Longrightarrow> same_role a (leader_append c r)"
  "same_role a r \<Longrightarrow> same_role a (confirm_reads r)"
  "same_role a r \<Longrightarrow> same_role a (r\<lparr>r_commit := n\<rparr>)"
  "same_role a r \<Longrightarrow> same_role a (r\<lparr>r_hard := h\<rparr>)"
  "same_role a r \<Longrightarrow> same_role a (r\<lparr>r_hb_acked := ha\<rparr>)"
  "same_role a r \<Longrightarrow> same_role a (r\<lparr>r_hb_seq := hs\<rparr>)"
  "same_role a r \<Longrightarrow> same_role a (r\<lparr>r_next := nx\<rparr>)"
  "same_role a r \<Longrightarrow> same_role a (r\<lparr>r_match := mt, r_next := nx\<rparr>)"
  "same_role a r \<Longrightarrow> same_role a (r\<lparr>r_heartbeat_elapsed := t\<rparr>)"
  "same_role a r \<Longrightarrow> same_role a (r\<lparr>r_election_elapsed := t\<rparr>)"
  by (simp_all add: same_role_def ResetElectionTimer_def EmitCommitted_def PersistHardState_def
      append_entry_def leader_append_def confirm_reads_def Let_def)

lemma same_role_MaybeAdvanceCommit [role_frame]: "same_role a r \<Longrightarrow> same_role a (MaybeAdvanceCommit r)"
  by (auto simp: MaybeAdvanceCommit_def intro!: role_frame split: option.split)

lemma same_role_append_entries [role_frame]: "same_role a r \<Longrightarrow> same_role a (fold append_entry es r)"
  by (induction es arbitrary: r) (simp_all add: same_role_upd)

lemma same_role_accept_entries [role_frame]:
  "same_role a r \<Longrightarrow> same_role a (accept_entries m resp pi pt es r)"
  by (auto simp: accept_entries_def Let_def Send_push intro!: role_frame)

lemma same_role_note_match [role_frame]: "same_role a r \<Longrightarrow> same_role a (note_match m r)"
  unfolding note_match_def by (intro role_frame)

lemma follow_leader_role:
  "r_role (follow_leader m r) = kFollower \<or> same_role r (follow_leader m r)"
  by (auto simp: follow_leader_def BecomeFollower_def ResetElectionTimer_def same_role_def Let_def)

text \<open>What a step may do to role and votes within the term.\<close>

definition role_kept :: "raft \<Rightarrow> raft \<Rightarrow> bool" where
  "role_kept r r' \<longleftrightarrow> r_role r' = kFollower \<or> same_role r r'"

lemma role_kept_trans_same: "role_kept a b \<Longrightarrow> same_role b c \<Longrightarrow> role_kept a c"
  by (auto simp: role_kept_def same_role_def)

lemma role_kept_handlers:
  "role_kept r (HandleRequestVote m r)" "role_kept r (HandleAppendEntries m r)"
  "role_kept r (HandleAppendEntriesResp m r)" "role_kept r (HandleInstallSnapshot m r)"
  "role_kept r (HandleInstallSnapshotResp m r)" "role_kept r (stale_reply m r)"
proof -
  show "role_kept r (HandleRequestVote m r)"
    unfolding role_kept_def
    by (rule disjI2) (auto simp: HandleRequestVote_def Let_def Send_push intro!: role_frame)
  show "role_kept r (HandleAppendEntriesResp m r)"
    unfolding role_kept_def
    by (rule disjI2) (auto simp: HandleAppendEntriesResp_def Let_def SendAppend_push intro!: role_frame)
  show "role_kept r (HandleInstallSnapshotResp m r)"
    unfolding role_kept_def
    by (rule disjI2) (auto simp: HandleInstallSnapshotResp_def intro!: role_frame)
  show "role_kept r (stale_reply m r)"
    unfolding role_kept_def by (rule disjI2) (simp add: stale_reply_def Send_push role_frame)
  have f: "role_kept r (follow_leader m r)"
    using follow_leader_role by (simp add: role_kept_def)
  have "same_role (follow_leader m r) (HandleAppendEntries m r)"
    by (auto simp: HandleAppendEntries_def Let_def Send_push intro!: role_frame)
  with f show "role_kept r (HandleAppendEntries m r)" by (rule role_kept_trans_same)
  have "same_role (follow_leader m r) (HandleInstallSnapshot m r)"
    by (simp add: HandleInstallSnapshot_def Let_def Send_push same_role_def)
  with f show "role_kept r (HandleInstallSnapshot m r)" by (rule role_kept_trans_same)
qed

lemma BecomeLeader_role: "r_role (BecomeLeader r) = kLeader" "r_votes (BecomeLeader r) = r_votes r"
proof -
  have "same_role (r\<lparr>r_role := kLeader\<rparr>) (r\<lparr>r_role := kLeader, r_leader := l, r_heartbeat_elapsed := h,
      r_next := nx, r_match := mt, r_hb_acked := ha\<rparr>)" for l h nx mt ha
    by (simp add: same_role_def)
  then have "same_role (r\<lparr>r_role := kLeader\<rparr>) (BecomeLeader r)"
    unfolding BecomeLeader_def Let_def BroadcastAppend_push
    by (intro same_role_MaybeAdvanceCommit same_role_upd(1,6,11))
  then show "r_role (BecomeLeader r) = kLeader" "r_votes (BecomeLeader r) = r_votes r"
    by (simp_all add: same_role_def)
qed

text \<open>The four things an operation may do to a member's standing in the election.\<close>

definition standing :: "raft_op \<Rightarrow> raft \<Rightarrow> raft \<Rightarrow> bool" where
  "standing op r r' \<longleftrightarrow>
     r_role r' = kFollower \<or>
     same_role r r' \<and> r_term r' = r_term r \<or>
     (\<exists>m. op = OpStep m \<and> m_kind m = kRequestVoteResp \<and> m_term m = r_term r \<and> r_term r' = r_term r \<and>
        r_role r = kCandidate \<and> r_votes r' = AList.update (m_from m) (m_granted m) (r_votes r) \<and>
        (r_role r' = kLeader \<longrightarrow> quorum r \<le> length (filter snd (r_votes r')))) \<or>
     r_term r' = r_term r + 1 \<and> r_voted r' = r_id r \<and> r_votes r' = [(r_id r, True)] \<and>
       (r_role r' = kLeader \<longrightarrow> quorum r \<le> 1)"

lemma standing_Tick: "standing OpTick r (Tick r)"
proof (cases "r_role r = kLeader \<or> r_election_elapsed r + 1 < r_election_deadline r")
  case True
  then have "same_role r (Tick r) \<and> r_term (Tick r) = r_term r"
    by (auto simp: Tick_def Let_def BroadcastAppend_push same_role_def)
  then show ?thesis by (simp add: standing_def)
next
  case False
  let ?r = "r\<lparr>r_election_elapsed := r_election_elapsed r + 1\<rparr>"
  have t: "Tick r = StartElection ?r" using False by (simp add: Tick_def Let_def)
  have c: "r_id (candidate ?r) = r_id r" "quorum (candidate ?r) = quorum r"
    "r_votes (candidate ?r) = [(r_id r, True)]" "r_hard (candidate ?r) = \<lparr>hs_term = r_term r + 1, hs_voted_for = r_id r\<rparr>"
    "r_role (candidate ?r) = kCandidate"
    by (simp_all add: candidate_sel quorum_def)
  have "same_hard (candidate ?r) (StartElection ?r)"
    by (simp add: StartElection_candidate hard_frame)
  then have h: "r_hard (Tick r) = \<lparr>hs_term = r_term r + 1, hs_voted_for = r_id r\<rparr>"
    using c t by (simp add: same_hard_def)
  have "r_votes (Tick r) = [(r_id r, True)] \<and> (r_role (Tick r) = kLeader \<longrightarrow> quorum r \<le> 1)"
    using c by (auto simp: t StartElection_candidate BecomeLeader_role)
  with h show ?thesis by (simp add: standing_def)
qed

lemma dispatch_term: "r_term (dispatch k m r) = r_term r"
proof (cases "k = kRequestVote")
  case True
  then show ?thesis
    by (simp add: HandleRequestVote_def Let_def Send_push ResetElectionTimer_def PersistHardState_def)
next
  case False
  then have "same_hard r (dispatch k m r)"
    by (cases k) (simp_all add: same_hard_handlers same_hard_HandleInstallSnapshot)
  then show ?thesis by (simp add: same_hard_def)
qed

lemma standing_dispatch:
  assumes "m_term m = r_term r"
  shows "standing (OpStep m) r (dispatch (m_kind m) m r)"
proof (cases "m_kind m = kRequestVoteResp")
  case False
  then have "role_kept r (dispatch (m_kind m) m r)"
    by (cases "m_kind m") (simp_all add: role_kept_handlers)
  then show ?thesis using dispatch_term by (auto simp: standing_def role_kept_def)
next
  case True
  have h: "r_term (HandleRequestVoteResp m r) = r_term r"
    using same_hard_handlers(1) [of r m] by (simp add: same_hard_def)
  show ?thesis
  proof (cases "r_role r = kCandidate")
    case False
    then show ?thesis using True by (simp add: HandleRequestVoteResp_def standing_def same_role_def)
  next
    case c: True
    let ?v = "AList.update (m_from m) (m_granted m) (r_votes r)"
    have "r_votes (HandleRequestVoteResp m r) = ?v"
      using c by (simp add: HandleRequestVoteResp_def Let_def BecomeLeader_role)
    moreover have "r_role (HandleRequestVoteResp m r) = kLeader \<longrightarrow> quorum r \<le> length (filter snd ?v)"
      using c by (simp add: HandleRequestVoteResp_def Let_def BecomeLeader_role quorum_def)
    ultimately show ?thesis using True assms h c by (auto simp: standing_def)
  qed
qed

lemma follower_dispatch: "r_role r = kFollower \<Longrightarrow> r_role (dispatch k m r) = kFollower"
  using role_kept_handlers [of r m]
  by (cases k) (auto simp: role_kept_def same_role_def HandleRequestVoteResp_def)

lemma standing_Step: "standing (OpStep m) r (Step m r)"
proof -
  consider "m_term m > r_term r" | "m_term m < r_term r" | "m_term m = r_term r" by force
  then show ?thesis
  proof cases
    case 1
    have "r_role (BecomeFollower t l r) = kFollower" for t l
      by (simp add: BecomeFollower_def Let_def ResetElectionTimer_def)
    with 1 show ?thesis by (simp add: Step_def standing_def follower_dispatch)
  next
    case 2
    then show ?thesis
      using role_kept_handlers(6) [of r m] same_hard_stale_reply [of r m]
      by (auto simp: Step_def standing_def role_kept_def same_hard_def)
  next
    case 3
    then show ?thesis using standing_dispatch by (simp add: Step_def)
  qed
qed

lemma standing_run_op: "standing op r (run_op op r)"
proof (cases op)
  case (OpPropose c)
  have "same_role r (snd (Propose c r))"
    by (auto simp: Propose_def BroadcastAppend_push intro!: role_frame)
  moreover have "same_hard r (snd (Propose c r))"
    by (auto simp: Propose_def BroadcastAppend_push intro!: hard_frame)
  ultimately show ?thesis using OpPropose by (simp add: standing_def same_hard_def)
next
  case (OpRead ctx)
  then show ?thesis
    by (simp add: standing_def StartReadIndex_def Let_def BroadcastAppend_push same_role_def)
qed (simp_all add: standing_Tick standing_Step)

subsection \<open>Messages\<close>

text \<open>Steps that keep the hard state and send, under the member's id and term, no vote.\<close>

definition quiet :: "raft \<Rightarrow> raft \<Rightarrow> bool" where
  "quiet r r' \<longleftrightarrow> same_hard r r' \<and>
     (\<exists>ms. messages (r_ready r') = messages (r_ready r) @ ms \<and>
        (\<forall>x \<in> set ms. m_from x = r_id r \<and> m_term x = r_term r \<and> \<not> m_granted x))"

named_theorems quiet_frame \<open>steps that send no vote\<close>

lemma quiet_refl [quiet_frame]: "quiet r r"
  by (simp add: quiet_def same_hard_refl)

lemma quiet_push [quiet_frame]:
  assumes "quiet a r" and "\<And>x. x \<in> set ms \<Longrightarrow> m_from x = r_id r \<and> m_term x = r_term r \<and> \<not> m_granted x"
  shows "quiet a (push_msgs ms r)"
proof -
  from assms(1) have h: "same_hard a r" by (simp add: quiet_def)
  then have e: "r_id r = r_id a" "r_term r = r_term a" by (simp_all add: same_hard_def)
  from assms(1) obtain ns where ns: "messages (r_ready r) = messages (r_ready a) @ ns"
    "\<forall>x \<in> set ns. m_from x = r_id a \<and> m_term x = r_term a \<and> \<not> m_granted x"
    unfolding quiet_def by blast
  have "messages (r_ready (push_msgs ms r)) = messages (r_ready a) @ (ns @ ms)" using ns by simp
  moreover have "\<forall>x \<in> set (ns @ ms). m_from x = r_id a \<and> m_term x = r_term a \<and> \<not> m_granted x"
    using ns(2) assms(2) e by auto
  ultimately show ?thesis unfolding quiet_def using same_hard_push [OF h] by blast
qed

lemma quiet_same:
  assumes "quiet a r" and "same_hard r r'" and "messages (r_ready r') = messages (r_ready r)"
  shows "quiet a r'"
  using assms same_hard_trans by (auto simp: quiet_def)

lemma quiet_upd [quiet_frame]:
  "quiet a r \<Longrightarrow> quiet a (ResetElectionTimer r)"
  "quiet a r \<Longrightarrow> quiet a (EmitCommitted r)"
  "quiet a r \<Longrightarrow> quiet a (append_entry e r)"
  "quiet a r \<Longrightarrow> quiet a (leader_append c r)"
  "quiet a r \<Longrightarrow> quiet a (confirm_reads r)"
  "quiet a r \<Longrightarrow> quiet a (r\<lparr>r_commit := n\<rparr>)"
  "quiet a r \<Longrightarrow> quiet a (r\<lparr>r_hb_acked := ha\<rparr>)"
  "quiet a r \<Longrightarrow> quiet a (r\<lparr>r_hb_seq := hs\<rparr>)"
  "quiet a r \<Longrightarrow> quiet a (r\<lparr>r_next := nx\<rparr>)"
  "quiet a r \<Longrightarrow> quiet a (r\<lparr>r_votes := v\<rparr>)"
  "quiet a r \<Longrightarrow> quiet a (r\<lparr>r_match := mt, r_next := nx\<rparr>)"
  by (erule quiet_same, (simp_all add: hard_frame)[1],
      simp add: ResetElectionTimer_def EmitCommitted_def append_entry_def leader_append_def confirm_reads_def
        follow_leader_def BecomeFollower_def Let_def same_hard_def)+

lemma quiet_lead: "quiet a r \<Longrightarrow> quiet a (r\<lparr>r_role := ro, r_leader := l, r_heartbeat_elapsed := h,
      r_next := nx, r_match := mt, r_hb_acked := ha\<rparr>)"
  by (erule quiet_same) (simp_all add: same_hard_def)

lemma quiet_follow_leader [quiet_frame]: "quiet a r \<Longrightarrow> quiet a (follow_leader m r)"
  by (erule quiet_same) (simp_all add: hard_frame follow_leader_def BecomeFollower_def Let_def
      ResetElectionTimer_def same_hard_def)

lemma quiet_SendAppend [quiet_frame]: "quiet a r \<Longrightarrow> quiet a (SendAppend p r)"
  unfolding SendAppend_push by (rule quiet_push) auto

lemma quiet_BroadcastAppend [quiet_frame]: "quiet a r \<Longrightarrow> quiet a (BroadcastAppend r)"
  unfolding BroadcastAppend_push by (rule quiet_push) auto

lemma quiet_Send [quiet_frame]: "quiet a r \<Longrightarrow> \<not> m_granted m \<Longrightarrow> quiet a (Send m r)"
  unfolding Send_push by (rule quiet_push) (auto simp: stamp_def)

lemma quiet_MaybeAdvanceCommit [quiet_frame]: "quiet a r \<Longrightarrow> quiet a (MaybeAdvanceCommit r)"
  by (auto simp: MaybeAdvanceCommit_def intro!: quiet_frame split: option.split)

lemma quiet_append_entries [quiet_frame]: "quiet a r \<Longrightarrow> quiet a (fold append_entry es r)"
  by (induction es arbitrary: r) (simp_all add: quiet_upd)

lemma quiet_accept_entries [quiet_frame]:
  "quiet a r \<Longrightarrow> \<not> m_granted resp \<Longrightarrow> quiet a (accept_entries m resp pi pt es r)"
  by (auto simp: accept_entries_def Let_def intro!: quiet_frame)

lemma quiet_note_match [quiet_frame]: "quiet a r \<Longrightarrow> quiet a (note_match m r)"
  unfolding note_match_def by (intro quiet_frame)

lemma quiet_BecomeLeader [quiet_frame]: "quiet a r \<Longrightarrow> quiet a (BecomeLeader r)"
  unfolding BecomeLeader_def Let_def
  by (intro quiet_MaybeAdvanceCommit quiet_BroadcastAppend quiet_upd(8) quiet_upd(4) quiet_lead)

lemma empty_message_granted [simp]: "m_granted empty_message = False"
  by (simp add: empty_message_def)

lemma quiet_handlers:
  "quiet r (HandleRequestVoteResp m r)" "quiet r (HandleAppendEntries m r)"
  "quiet r (HandleAppendEntriesResp m r)" "quiet r (HandleInstallSnapshotResp m r)"
  "quiet r (stale_reply m r)" "quiet r (snd (Propose c r))"
  by (auto simp: HandleRequestVoteResp_def HandleAppendEntries_def HandleAppendEntriesResp_def
      HandleInstallSnapshotResp_def stale_reply_def Propose_def Let_def intro!: quiet_frame)

lemma quiet_HandleInstallSnapshot: "quiet r (HandleInstallSnapshot m r)"
proof -
  have "quiet r (follow_leader m r)" by (intro quiet_frame)
  then have "quiet r ((follow_leader m r)\<lparr>r_base := b, r_log := [], r_commit := n, r_last_emitted := n,
      r_ready := (r_ready (follow_leader m r))\<lparr>entries_to_append := [], committed := [], truncate_from := 0,
        snapshot_to_apply := s\<rparr>\<rparr>)" for b n s
    by (rule quiet_same) (simp_all add: same_hard_def)
  then show ?thesis by (auto simp: HandleInstallSnapshot_def Let_def intro!: quiet_frame)
qed

text \<open>
  All messages of one operation carry the member's id and its term after the operation; a
  granted vote goes to the sender of the request and is the vote in the hard state.
\<close>

definition votes_sent :: "raft_op \<Rightarrow> raft \<Rightarrow> raft \<Rightarrow> bool" where
  "votes_sent op r r' \<longleftrightarrow>
     (\<exists>ms. messages (r_ready r') = messages (r_ready r) @ ms \<and>
        (\<forall>x \<in> set ms. m_from x = r_id r \<and> m_term x = r_term r' \<and>
           (m_granted x \<longrightarrow> r_voted r' = m_to x \<and> (\<exists>m. op = OpStep m \<and> m_from m = m_to x))))"

lemma votes_sent_quiet: "quiet r r' \<Longrightarrow> votes_sent op r r'"
  unfolding quiet_def votes_sent_def same_hard_def by fastforce

lemma votes_sent_after:
  assumes "votes_sent op b c" and "messages (r_ready b) = messages (r_ready a)" and "r_id b = r_id a"
  shows "votes_sent op a c"
  using assms by (simp add: votes_sent_def)

lemma votes_sent_HandleRequestVote: "votes_sent (OpStep m) r (HandleRequestVote m r)"
  by (auto simp: votes_sent_def HandleRequestVote_def Let_def Send_push stamp_def
      ResetElectionTimer_def PersistHardState_def empty_message_def)

lemma votes_sent_dispatch: "votes_sent (OpStep m) r (dispatch k m r)"
  by (cases k) (simp_all add: votes_sent_HandleRequestVote votes_sent_quiet quiet_handlers
      quiet_HandleInstallSnapshot)

lemma votes_sent_run_op: "votes_sent op r (run_op op r)"
proof (cases op)
  case OpTick
  let ?r = "r\<lparr>r_election_elapsed := r_election_elapsed r + 1\<rparr>"
  have c: "messages (r_ready (candidate ?r)) = messages (r_ready r)" "r_id (candidate ?r) = r_id r"
    by (simp_all add: candidate_sel)
  have "quiet (candidate ?r) (StartElection ?r)"
    by (auto simp: StartElection_candidate vote_msg_def stamp_def intro!: quiet_frame)
  then have "votes_sent op r (StartElection ?r)"
    using votes_sent_after [OF votes_sent_quiet c] by blast
  moreover have "votes_sent op r (BroadcastAppend (r\<lparr>r_heartbeat_elapsed := t, r_hb_seq := q\<rparr>))" for t q
    by (auto simp: votes_sent_def BroadcastAppend_push)
  ultimately show ?thesis
    using OpTick by (auto simp: Tick_def Let_def votes_sent_def)
next
  case (OpStep m)
  have "messages (r_ready (BecomeFollower t l r)) = messages (r_ready r)" "r_id (BecomeFollower t l r) = r_id r" for t l
    by (simp_all add: BecomeFollower_def Let_def ResetElectionTimer_def PersistHardState_def)
  then have "votes_sent (OpStep m) r (dispatch k m (BecomeFollower t l r))" for k t l
    using votes_sent_after [OF votes_sent_dispatch] by blast
  with OpStep show ?thesis
    by (simp add: Step_def votes_sent_dispatch votes_sent_quiet quiet_handlers)
next
  case (OpRead ctx)
  then show ?thesis
    by (auto simp: votes_sent_def StartReadIndex_def Let_def BroadcastAppend_push)
qed (simp add: votes_sent_quiet quiet_handlers)

end
