(* ===== verification/RaftCommit.thy ===== *)
theory RaftCommit
  imports RaftInv
begin

text \<open>
  The commit index of one member: it only grows, the entries it covers stay in the log as they
  are, and each of them is handed to the state machine exactly once and in order.  A leader
  moves it only to an entry of its own term that a quorum of members holds.
\<close>

subsection \<open>Commit steps\<close>














lemma find_commit_Some:
  assumes "find_commit r ns = Some n"
  shows "\<exists>i \<in> set ns. n = of_nat i \<and> TermAt r n = r_term r \<and> match_count r n \<ge> quorum r"
  using assms by (induction ns) (auto split: if_splits)

text \<open>The counting rule: an entry of the current term, held by a quorum, beyond the commit index.\<close>

lemma MaybeAdvanceCommit_cases:
  obtains (keep) "MaybeAdvanceCommit r = r"
  | (move) n where "MaybeAdvanceCommit r = EmitCommitted (r\<lparr>r_commit := n\<rparr>)"
      "r_role r = kLeader" "r_commit r < n" "n \<le> last_index r" "TermAt r n = r_term r"
      "match_count r n \<ge> quorum r"
proof -
  let ?ns = "rev [Suc (unat (r_commit r))..<Suc (unat (last_index r))]"
  consider "r_role r \<noteq> kLeader" | "find_commit r ?ns = None"
    | n where "r_role r = kLeader" "find_commit r ?ns = Some n" by blast
  then show ?thesis
  proof cases
    case (3 n)
    from find_commit_Some [OF 3(2)] obtain i where
      i: "i \<in> set ?ns" "n = of_nat i" "TermAt r n = r_term r" "match_count r n \<ge> quorum r" by blast
    then have "i \<le> unat (last_index r)" "unat (r_commit r) < i" by auto
    moreover from this have "unat n = i"
      unfolding i(2) using unat_u64 [of "last_index r"] by (intro unat_of_nat_u64) simp
    ultimately have "r_commit r < n" "n \<le> last_index r"
      by (auto simp: word_less_nat_alt word_le_nat_alt)
    with 3 i move show ?thesis by (simp add: MaybeAdvanceCommit_def del: upt_Suc)
  qed (use keep in \<open>simp_all add: MaybeAdvanceCommit_def del: upt_Suc\<close>)
qed




subsection \<open>Entries from a leader's message\<close>





subsection \<open>Every operation\<close>




















subsection \<open>What a leader sends\<close>



text \<open>The back-off hint is the first index of the run of entries with the conflicting term.\<close>

lemma conflict_first_spec:
  assumes "base_index r < p"
  shows "base_index r < conflict_first r ct p \<and> conflict_first r ct p \<le> p \<and>
    (\<forall>i. conflict_first r ct p \<le> i \<and> i < p \<longrightarrow> TermAt r i = ct) \<and>
    (conflict_first r ct p \<le> base_index r + 1 \<or> TermAt r (conflict_first r ct p - 1) \<noteq> ct)"
  using assms
proof (induction r ct p rule: conflict_first.induct)
  case (1 r ct p)
  show ?case
  proof (cases "p > base_index r + 1 \<and> TermAt r (p - 1) = ct")
    case False
    then show ?thesis using 1(2) by (auto simp: conflict_first.simps [of r ct p])
  next
    case True
    have up: "Suc (unat (p - 1)) = unat p"
      using 1(2) by (intro Suc_unat_minus_1) auto
    have nm: "base_index r \<noteq> - 1" using 1(2) by (metis max_word_max not_less)
    have b: "base_index r < p - 1"
      using True up unat_plus_1 [OF nm] by (simp add: word_less_nat_alt)
    note IH = 1(1) [OF True b]
    have "TermAt r i = ct" if "conflict_first r ct (p - 1) \<le> i" "i < p" for i
    proof (cases "i = p - 1")
      case False
      then have "unat i \<noteq> unat (p - 1)" by (simp add: word_unat_eq_iff)
      then have "i < p - 1" using that(2) up by (simp add: word_less_nat_alt)
      then show ?thesis using IH that(1) by blast
    qed (use True in simp)
    moreover have "conflict_first r ct (p - 1) \<le> p" using IH up by (simp add: word_le_nat_alt)
    moreover have "conflict_first r ct p = conflict_first r ct (p - 1)"
      using True by (subst conflict_first.simps) simp
    ultimately show ?thesis using IH by (metis (no_types))
  qed
qed

subsection \<open>Properties\<close>

text \<open>A member of a cluster of three, freshly started, for the witnesses.\<close>

definition demo_config :: Config where
  "demo_config =
     \<lparr>c_id = 1, c_peers = [1, 2, 3], election_timeout_min = 10, election_timeout_max = 20,
      heartbeat_interval = 2, max_entries_per_msg = 128, max_bytes_per_msg = 1048576,
      uniform_draw = (\<lambda>_ lo _. lo)\<rparr>"

definition demo_raft :: raft where
  "demo_raft = Raft_new demo_config \<lparr>hs_term = 0, hs_voted_for = 0\<rparr> []
     \<lparr>s_last_index = 0, s_last_term = 0, s_data = []\<rparr>"

lemma demo_raft_sel:
  "r_log demo_raft = []" "r_base demo_raft = \<lparr>s_last_index = 0, s_last_term = 0, s_data = []\<rparr>"
  "r_commit demo_raft = 0" "r_last_emitted demo_raft = 0" "r_ready demo_raft = empty_ready"
  "r_hard demo_raft = \<lparr>hs_term = 0, hs_voted_for = 0\<rparr>"
  by (simp_all add: demo_raft_def Raft_new_def ResetElectionTimer_def)

text \<open>
  (C15) Votes are never taken back: in every operation of a member, the term does not decrease,
  and while the term stays the same a vote that was given is kept.
\<close>
theorem vote_discipline:
  assumes "r_term r \<noteq> - 1"
  shows "r_term r < r_term (run_op op r) \<or>
         r_term (run_op op r) = r_term r \<and> (r_voted r = 0 \<or> r_voted (run_op op r) = r_voted r)"
  using hard_step_vote [OF hard_step_run_op [OF assms, of op]] by (simp add: vote_step_def)

theorem vote_discipline_witness:
  "r_term demo_raft < r_term (run_op OpTick demo_raft) \<or>
   r_term (run_op OpTick demo_raft) = r_term demo_raft \<and>
     (r_voted demo_raft = 0 \<or> r_voted (run_op OpTick demo_raft) = r_voted demo_raft)"
  by (rule vote_discipline) (simp add: demo_raft_sel)

text \<open>
  (C12) Persist before send: the pending \<open>Ready\<close> always says how to get from what is on disk to
  what is in memory.  If persisting it would give the member's term, vote, snapshot and log
  before an operation, then it does so after the operation, whose messages are in the same
  \<open>Ready\<close>.
\<close>
theorem ready_tracks_memory:
  assumes "persist (r_ready r) d = memory_disk r" and "disk_ok d" and "log_ok r" and "log_room r"
    and "op_ok op" and "r_term r \<noteq> - 1"
  shows "persist (r_ready (run_op op r)) d = memory_disk (run_op op r)"
proof -
  have t: "tracks_log d r" "tracks_hard d r" using assms(1) tracks_persist by auto
  have "log_inv d (run_op op r)"
    by (rule log_inv_run_op [OF assms(2) _ assms(4,5)]) (simp add: log_inv_def t assms(3))
  moreover have "tracks_hard d (run_op op r)"
    by (rule tracks_hard_step [OF t(2) hard_step_run_op [OF assms(6)]])
  ultimately show ?thesis using tracks_persist [of d "run_op op r"] by (simp add: log_inv_def)
qed

theorem ready_tracks_memory_witness:
  "let m = empty_message\<lparr>m_kind := kAppendEntries, m_from := 2, m_to := 1, m_term := 3,
             m_entries := [\<lparr>e_term = 3, e_index = 1, e_command = [9]\<rparr>]\<rparr>
   in persist (r_ready (run_op (OpStep m) demo_raft)) (memory_disk demo_raft) =
      memory_disk (run_op (OpStep m) demo_raft)"
  unfolding Let_def
  by (rule ready_tracks_memory)
    (simp_all add: persist_kept kept_snap_def kept_entries_def kept_log_def memory_disk_def
      demo_raft_sel empty_ready_def disk_ok_def log_ok_def log_room_def msg_ok_def empty_message_def)



text \<open>
  (C17) The counting rule of a leader: if the commit index moves in \<open>MaybeAdvanceCommit\<close>, the
  member is the leader, the new index is an entry of its log from its current term, and a
  quorum of the peers is known to hold it.
\<close>
theorem leader_commit_rule:
  assumes "r_commit (MaybeAdvanceCommit r) \<noteq> r_commit r"
  shows "r_role r = kLeader \<and> r_commit r < r_commit (MaybeAdvanceCommit r) \<and>
         r_commit (MaybeAdvanceCommit r) \<le> last_index r \<and>
         TermAt r (r_commit (MaybeAdvanceCommit r)) = r_term r \<and>
         length (filter (\<lambda>p. map_get (r_match r) p \<ge> r_commit (MaybeAdvanceCommit r)) (r_peers r)) \<ge>
           length (r_peers r) div 2 + 1"
  using assms
  by (cases rule: MaybeAdvanceCommit_cases [of r])
    (auto simp: EmitCommitted_def match_count_def quorum_def)

theorem leader_commit_rule_witness:
  "let r = demo_raft\<lparr>r_role := kLeader, r_hard := \<lparr>hs_term = 1, hs_voted_for = 1\<rparr>,
             r_log := [\<lparr>e_term = 1, e_index = 1, e_command = []\<rparr>], r_match := [(1, 1), (2, 1)]\<rparr>
   in r_commit (MaybeAdvanceCommit r) \<noteq> r_commit r \<and>
      TermAt r (r_commit (MaybeAdvanceCommit r)) = r_term r"
proof -
  let ?r = "demo_raft\<lparr>r_role := kLeader, r_hard := \<lparr>hs_term = 1, hs_voted_for = 1\<rparr>,
             r_log := [\<lparr>e_term = 1, e_index = 1, e_command = []\<rparr>], r_match := [(1, 1), (2, 1)]\<rparr>"
  have "r_commit (MaybeAdvanceCommit ?r) \<noteq> r_commit ?r"
    by (simp add: MaybeAdvanceCommit_def EmitCommitted_def last_index_def TermAt_def match_count_def
        quorum_def map_get_def demo_raft_def Raft_new_def ResetElectionTimer_def demo_config_def)
  with leader_commit_rule [of ?r] show ?thesis unfolding Let_def by blast
qed



text \<open>
  (C21) The conflict hint of a follower: for a mismatch at \<open>p\<close> it is the first index of the run
  of entries below \<open>p\<close> that have the conflicting term, and never reaches into the snapshot.
\<close>
theorem conflict_hint:
  assumes "base_index r < p"
  shows "base_index r < conflict_first r ct p \<and> conflict_first r ct p \<le> p \<and>
    (\<forall>i. conflict_first r ct p \<le> i \<and> i < p \<longrightarrow> TermAt r i = ct) \<and>
    (conflict_first r ct p \<le> base_index r + 1 \<or> TermAt r (conflict_first r ct p - 1) \<noteq> ct)"
  using assms by (rule conflict_first_spec)

theorem conflict_hint_witness:
  "base_index demo_raft < conflict_first demo_raft 4 7 \<and> conflict_first demo_raft 4 7 \<le> 7"
proof -
  have "base_index demo_raft < 7" by (simp add: demo_raft_sel)
  from conflict_hint [OF this] show ?thesis by blast
qed

end
