(* ===== verification/Cluster.thy ===== *)
theory Cluster
  imports RaftVotes RaftCommit
begin

text \<open>
  A cluster of members that run the core of \<open>src/raft/raft.cc\<close> the way \<open>RaftGroup\<close> drives it
  (\<open>src/server/raft_group.cc\<close>): every operation is followed by \<open>DrainReady\<close>, which persists the
  pending \<open>Ready\<close> and then sends its messages.  The network keeps every message ever sent, so
  messages may be lost, delayed, reordered and duplicated; a member may crash at any time, also
  between the steps of \<open>Persist\<close>, and restarts from what is on its disk.

  Election safety is shown for every reachable state of every such cluster.
\<close>

subsection \<open>The cluster\<close>

record cluster =
  cl_nodes :: "NodeId \<Rightarrow> raft"
  cl_disks :: "NodeId \<Rightarrow> disk"
  cl_net :: "Message list"

text \<open>\<open>RaftGroup::DrainReady\<close> behind an operation: persist, then send.\<close>

definition host_op :: "raft_op \<Rightarrow> NodeId \<Rightarrow> cluster \<Rightarrow> cluster" where
  "host_op op i c =
     (case TakeReady (run_op op (cl_nodes c i)) of (ready, r) \<Rightarrow>
        (if ready_Empty ready then c\<lparr>cl_nodes := (cl_nodes c)(i := r)\<rparr>
         else c\<lparr>cl_nodes := (cl_nodes c)(i := r),
                cl_disks := (cl_disks c)(i := persist ready (cl_disks c i)),
                cl_net := cl_net c @ messages ready\<rparr>))"

text \<open>
  What \<open>Persist\<close> has written when the process dies in it: nothing; the snapshot file but not
  yet the rewritten log; the snapshot; the truncation; the first \<open>k\<close> entries of the batch;
  everything.
\<close>

definition crash_disk :: "nat \<Rightarrow> nat \<Rightarrow> Ready \<Rightarrow> disk \<Rightarrow> disk" where
  "crash_disk stage k ready d =
     (if stage = 0 then d
      else if stage = 1 then
        (case snapshot_to_apply ready of
           None \<Rightarrow> d
         | Some snap \<Rightarrow> d\<lparr>d_snap := snap,
             d_entries := dropWhile (\<lambda>e. e_index e \<le> s_last_index snap) (d_entries d)\<rparr>)
      else if stage = 2 then persist_snapshot ready d
      else if stage = 3 then persist_truncate ready (persist_snapshot ready d)
      else if stage = 4 then
        persist_append (ready\<lparr>entries_to_append := take k (entries_to_append ready)\<rparr>)
          (persist_truncate ready (persist_snapshot ready d))
      else persist ready d)"

definition crash_op :: "raft_op \<Rightarrow> nat \<Rightarrow> nat \<Rightarrow> Config \<Rightarrow> NodeId \<Rightarrow> cluster \<Rightarrow> cluster" where
  "crash_op op stage k cfg i c =
     (let d = crash_disk stage k (r_ready (run_op op (cl_nodes c i))) (cl_disks c i)
      in c\<lparr>cl_nodes := (cl_nodes c)(i := Raft_new cfg (d_hard d) (d_entries d) (d_snap d)),
           cl_disks := (cl_disks c)(i := d)\<rparr>)"

text \<open>\<open>RaftGroup::MaybeSnapshot\<close>: compaction of the log and \<open>SaveSnapshot\<close> of the new base.\<close>

definition host_compact :: "u64 \<Rightarrow> bytes \<Rightarrow> NodeId \<Rightarrow> cluster \<Rightarrow> cluster" where
  "host_compact applied data i c =
     (if applied > r_commit (cl_nodes c i) then c
      else (let r = CompactTo applied data (cl_nodes c i); snap = r_base r
            in c\<lparr>cl_nodes := (cl_nodes c)(i := r),
                 cl_disks := (cl_disks c)(i := (cl_disks c i)
                   \<lparr>d_snap := snap,
                    d_entries := dropWhile (\<lambda>e. e_index e \<le> s_last_index snap) (d_entries (cl_disks c i))\<rparr>)\<rparr>))"

definition member_config :: "NodeId list \<Rightarrow> NodeId \<Rightarrow> Config \<Rightarrow> bool" where
  "member_config ps i cfg \<longleftrightarrow> c_id cfg = i \<and> c_peers cfg = ps"

fun deliverable :: "raft_op \<Rightarrow> NodeId \<Rightarrow> cluster \<Rightarrow> bool" where
  "deliverable (OpStep m) i c = (m \<in> set (cl_net c) \<and> m_to m = i)"
| "deliverable _ i c = True"

definition empty_disk :: disk where
  "empty_disk = \<lparr>d_hard = \<lparr>hs_term = 0, hs_voted_for = 0\<rparr>,
     d_snap = \<lparr>s_last_index = 0, s_last_term = 0, s_data = []\<rparr>, d_entries = []\<rparr>"

definition new_node :: "Config \<Rightarrow> raft" where
  "new_node cfg = Raft_new cfg (d_hard empty_disk) (d_entries empty_disk) (d_snap empty_disk)"

inductive reachable :: "NodeId list \<Rightarrow> cluster \<Rightarrow> bool" for ps where
  start: "(\<And>i. i \<in> set ps \<Longrightarrow> member_config ps i (cfg i)) \<Longrightarrow>
    reachable ps \<lparr>cl_nodes = (\<lambda>i. new_node (cfg i)), cl_disks = (\<lambda>_. empty_disk), cl_net = []\<rparr>"
| operate: "reachable ps c \<Longrightarrow> i \<in> set ps \<Longrightarrow> deliverable op i c \<Longrightarrow> r_term (cl_nodes c i) \<noteq> - 1 \<Longrightarrow>
    reachable ps (host_op op i c)"
| crash: "reachable ps c \<Longrightarrow> i \<in> set ps \<Longrightarrow> deliverable op i c \<Longrightarrow> r_term (cl_nodes c i) \<noteq> - 1 \<Longrightarrow>
    member_config ps i cfg \<Longrightarrow> reachable ps (crash_op op stage k cfg i c)"
| compact: "reachable ps c \<Longrightarrow> i \<in> set ps \<Longrightarrow> reachable ps (host_compact applied data i c)"

subsection \<open>The election invariant\<close>

definition granted :: "cluster \<Rightarrow> NodeId \<Rightarrow> NodeId \<Rightarrow> u64 \<Rightarrow> bool" where
  "granted c p q t \<longleftrightarrow> (\<exists>m \<in> set (cl_net c). m_granted m \<and> m_from m = p \<and> m_to m = q \<and> m_term m = t)"

definition stored_ok :: "NodeId list \<Rightarrow> cluster \<Rightarrow> NodeId \<Rightarrow> bool" where
  "stored_ok ps c i \<longleftrightarrow> member_config ps i (r_config (cl_nodes c i)) \<and>
     r_ready (cl_nodes c i) = empty_ready \<and> d_hard (cl_disks c i) = r_hard (cl_nodes c i)"

text \<open>A vote on the network is the sender's vote in that term, as long as the term lasts.\<close>

definition vote_held :: "HardState \<Rightarrow> NodeId \<Rightarrow> u64 \<Rightarrow> bool" where
  "vote_held h q t \<longleftrightarrow> t < hs_term h \<or> t = hs_term h \<and> hs_voted_for h = q"

definition net_ok :: "NodeId list \<Rightarrow> cluster \<Rightarrow> bool" where
  "net_ok ps c \<longleftrightarrow> (\<forall>m \<in> set (cl_net c). m_from m \<in> set ps) \<and>
     (\<forall>p q t. granted c p q t \<longrightarrow> q \<in> set ps \<and> vote_held (d_hard (cl_disks c p)) q t) \<and>
     (\<forall>p q q' t. granted c p q t \<and> granted c p q' t \<longrightarrow> q = q')"

definition votes_ok :: "NodeId list \<Rightarrow> cluster \<Rightarrow> NodeId \<Rightarrow> bool" where
  "votes_ok ps c i \<longleftrightarrow>
     (let r = cl_nodes c i
      in r_role r \<noteq> kFollower \<longrightarrow>
           r_voted r = i \<and> distinct (map fst (r_votes r)) \<and>
           (\<forall>p. (p, True) \<in> set (r_votes r) \<longrightarrow> p \<in> set ps \<and> (p = i \<or> granted c p i (r_term r))) \<and>
           (r_role r = kLeader \<longrightarrow> length ps div 2 + 1 \<le> length (filter snd (r_votes r))))"

definition election_inv :: "NodeId list \<Rightarrow> cluster \<Rightarrow> bool" where
  "election_inv ps c \<longleftrightarrow> net_ok ps c \<and> (\<forall>i \<in> set ps. stored_ok ps c i \<and> votes_ok ps c i)"

lemma Raft_new_sel:
  "r_config (Raft_new cfg hs log base) = cfg" "r_hard (Raft_new cfg hs log base) = hs"
  "r_ready (Raft_new cfg hs log base) = empty_ready" "r_role (Raft_new cfg hs log base) = kFollower"
  "r_log (Raft_new cfg hs log base) = log" "r_base (Raft_new cfg hs log base) = base"
  "r_commit (Raft_new cfg hs log base) = s_last_index base"
  by (simp_all add: Raft_new_def ResetElectionTimer_def)

lemma election_inv_start:
  assumes "\<And>i. i \<in> set ps \<Longrightarrow> member_config ps i (cfg i)"
  shows "election_inv ps \<lparr>cl_nodes = (\<lambda>i. new_node (cfg i)), cl_disks = (\<lambda>_. empty_disk), cl_net = []\<rparr>"
  using assms
  by (simp add: election_inv_def net_ok_def stored_ok_def votes_ok_def granted_def new_node_def Raft_new_sel
      Let_def)

text \<open>The part of a step that the invariant sees: one member's state, its disk and new messages.\<close>

definition node_step :: "NodeId \<Rightarrow> raft \<Rightarrow> disk \<Rightarrow> Message list \<Rightarrow> cluster \<Rightarrow> cluster \<Rightarrow> bool" where
  "node_step i r d ms c c' \<longleftrightarrow> cl_nodes c' = (cl_nodes c)(i := r) \<and> cl_disks c' = (cl_disks c)(i := d) \<and>
     cl_net c' = cl_net c @ ms"

lemma granted_step:
  assumes "node_step i r d ms c c'"
  shows "granted c' p q t \<longleftrightarrow> granted c p q t \<or>
     (\<exists>m \<in> set ms. m_granted m \<and> m_from m = p \<and> m_to m = q \<and> m_term m = t)"
  using assms by (auto simp: granted_def node_step_def)

lemma vote_held_step: "vote_held h q t \<Longrightarrow> vote_step h h' \<Longrightarrow> q \<noteq> 0 \<Longrightarrow> vote_held h' q t"
  by (auto simp: vote_held_def vote_step_def)

lemma net_ok_step:
  assumes inv: "net_ok ps c" and st: "node_step i r d ms c c'" and i: "i \<in> set ps" and z: "0 \<notin> set ps"
    and v: "vote_step (d_hard (cl_disks c i)) (d_hard d)"
    and ms: "\<And>m. m \<in> set ms \<Longrightarrow> m_from m = i \<and> m_term m = hs_term (d_hard d) \<and>
               (m_granted m \<longrightarrow> hs_voted_for (d_hard d) = m_to m \<and> m_to m \<in> set ps)"
  shows "net_ok ps c'"
proof -
  have new: "p = i \<and> t = hs_term (d_hard d) \<and> hs_voted_for (d_hard d) = q \<and> q \<in> set ps"
    if "\<exists>m \<in> set ms. m_granted m \<and> m_from m = p \<and> m_to m = q \<and> m_term m = t" for p q t
    using that ms by auto
  have held: "q \<in> set ps \<and> vote_held (d_hard (cl_disks c' p)) q t" if "granted c' p q t" for p q t
  proof (cases "granted c p q t")
    case True
    then have o: "q \<in> set ps" "vote_held (d_hard (cl_disks c p)) q t" using inv by (auto simp: net_ok_def)
    then have "q \<noteq> 0" using z by auto
    with o st v show ?thesis by (cases "p = i") (auto simp: node_step_def intro: vote_held_step)
  next
    case False
    with that granted_step [OF st] new have "p = i" "t = hs_term (d_hard d)" "hs_voted_for (d_hard d) = q" "q \<in> set ps"
      by blast+
    then show ?thesis using st by (simp add: node_step_def vote_held_def)
  qed
  have "q = q'" if "granted c' p q t" "granted c' p q' t" for p q q' t
  proof -
    have *: "a = b" if "granted c p a t" "p = i \<and> t = hs_term (d_hard d) \<and> hs_voted_for (d_hard d) = b" for a b
    proof -
      have "vote_held (d_hard d) a t"
        using held [of p a t] that granted_step [OF st] st by (simp add: node_step_def)
      with that show ?thesis by (simp add: vote_held_def)
    qed
    show ?thesis
      using that inv * new unfolding granted_step [OF st] net_ok_def by metis
  qed
  with held inv st ms i show ?thesis by (auto simp: net_ok_def node_step_def)
qed

lemma votes_ok_other:
  assumes "votes_ok ps c j" and "node_step i r d ms c c'" and "j \<noteq> i"
  shows "votes_ok ps c' j"
  using assms granted_step [OF assms(2)] by (auto simp: votes_ok_def Let_def node_step_def)

lemma stored_ok_other:
  assumes "stored_ok ps c j" and "node_step i r d ms c c'" and "j \<noteq> i"
  shows "stored_ok ps c' j"
  using assms by (simp add: stored_ok_def node_step_def)

subsection \<open>Every step keeps the invariant\<close>

lemma persist_empty: "ready_Empty rd \<Longrightarrow> persist rd d = d"
  by (cases d) (simp add: ready_Empty_def persist_kept kept_snap_def kept_entries_def kept_log_def)

lemma host_op_node_step:
  "node_step i ((run_op op (cl_nodes c i))\<lparr>r_ready := empty_ready\<rparr>)
     (persist (r_ready (run_op op (cl_nodes c i))) (cl_disks c i))
     (messages (r_ready (run_op op (cl_nodes c i)))) c (host_op op i c)"
proof (cases "ready_Empty (r_ready (run_op op (cl_nodes c i)))")
  case True
  then show ?thesis
    using persist_empty [OF True, of "cl_disks c i"]
    by (simp add: node_step_def host_op_def TakeReady_def ready_Empty_def)
next
  case False
  then show ?thesis by (simp add: node_step_def host_op_def TakeReady_def)
qed

text \<open>The facts on the member that runs an operation.\<close>

lemma op_facts:
  assumes "stored_ok ps c i" and "r_term (cl_nodes c i) \<noteq> - 1"
  shows "d_hard (persist (r_ready (run_op op (cl_nodes c i))) (cl_disks c i)) = r_hard (run_op op (cl_nodes c i))"
    and "r_config (run_op op (cl_nodes c i)) = r_config (cl_nodes c i)"
    and "vote_step (r_hard (cl_nodes c i)) (r_hard (run_op op (cl_nodes c i)))"
    and "\<And>m. m \<in> set (messages (r_ready (run_op op (cl_nodes c i)))) \<Longrightarrow>
      m_from m = i \<and> m_term m = r_term (run_op op (cl_nodes c i)) \<and>
      (m_granted m \<longrightarrow> r_voted (run_op op (cl_nodes c i)) = m_to m \<and>
         (\<exists>req. op = OpStep req \<and> m_from req = m_to m))"
proof -
  let ?r = "cl_nodes c i" and ?r' = "run_op op (cl_nodes c i)"
  have h: "hard_step ?r ?r'" by (rule hard_step_run_op [OF assms(2)])
  have e: "r_ready ?r = empty_ready" "r_id ?r = i" "d_hard (cl_disks c i) = r_hard ?r"
    using assms(1) by (auto simp: stored_ok_def member_config_def)
  then have "tracks_hard (cl_disks c i) ?r" by (simp add: tracks_hard_def empty_ready_def)
  from tracks_hard_step [OF this h]
  show "d_hard (persist (r_ready ?r') (cl_disks c i)) = r_hard ?r'"
    by (simp add: persist_kept tracks_hard_def)
  show "r_config ?r' = r_config ?r" using h by (simp add: hard_step_def)
  show "vote_step (r_hard ?r) (r_hard ?r')" using h by (rule hard_step_vote)
  fix m
  assume "m \<in> set (messages (r_ready ?r'))"
  then show "m_from m = i \<and> m_term m = r_term ?r' \<and>
      (m_granted m \<longrightarrow> r_voted ?r' = m_to m \<and> (\<exists>req. op = OpStep req \<and> m_from req = m_to m))"
    using votes_sent_run_op [of op ?r] e by (auto simp: votes_sent_def empty_ready_def)
qed

lemma in_set_update:
  assumes "distinct (map fst al)"
  shows "(p, b) \<in> set (AList.update k v al) \<longleftrightarrow> (if p = k then b = v else (p, b) \<in> set al)"
proof -
  have "distinct (map fst (AList.update k v al))" using assms by (simp add: distinct_update)
  then have "(p, b) \<in> set (AList.update k v al) \<longleftrightarrow> map_of (AList.update k v al) p = Some b"
    by (metis map_of_SomeD map_of_is_SomeI)
  also have "\<dots> \<longleftrightarrow> (if p = k then b = v else map_of al p = Some b)"
    by (auto simp: update_conv)
  also have "\<dots> \<longleftrightarrow> (if p = k then b = v else (p, b) \<in> set al)"
    using assms by (metis map_of_SomeD map_of_is_SomeI)
  finally show ?thesis .
qed

lemma votes_ok_operate:
  assumes inv: "election_inv ps c" and i: "i \<in> set ps" and z: "0 \<notin> set ps"
    and del: "deliverable op i c" and t: "r_term (cl_nodes c i) \<noteq> - 1"
  shows "votes_ok ps (host_op op i c) i"
proof -
  let ?r = "cl_nodes c i" and ?r' = "run_op op (cl_nodes c i)" and ?c' = "host_op op i c"
  have st: "stored_ok ps c i" and vo: "votes_ok ps c i" using inv i by (auto simp: election_inv_def)
  have id: "r_id ?r = i" "quorum ?r = length ps div 2 + 1"
    using st by (auto simp: stored_ok_def member_config_def quorum_def)
  have mono: "granted c p q u \<Longrightarrow> granted ?c' p q u" for p q u
    using granted_step [OF host_op_node_step] by blast
  have node: "cl_nodes ?c' i = ?r'\<lparr>r_ready := empty_ready\<rparr>"
    using host_op_node_step by (simp add: node_step_def)
  have keep: "r_voted ?r' = i" if "r_role ?r \<noteq> kFollower" "r_term ?r' = r_term ?r"
  proof -
    have "r_voted ?r = i" using vo that(1) by (simp add: votes_ok_def Let_def)
    moreover have "i \<noteq> 0" using i z by auto
    ultimately show ?thesis using op_facts(3) [OF st t, where op = op] that(2) by (simp add: vote_step_def)
  qed
  from standing_run_op [of op ?r] consider
    "r_role ?r' = kFollower"
    | "same_role ?r ?r'" "r_term ?r' = r_term ?r"
    | m where "op = OpStep m" "m_kind m = kRequestVoteResp" "m_term m = r_term ?r" "r_term ?r' = r_term ?r"
        "r_role ?r = kCandidate" "r_votes ?r' = AList.update (m_from m) (m_granted m) (r_votes ?r)"
        "r_role ?r' = kLeader \<longrightarrow> quorum ?r \<le> length (filter snd (r_votes ?r'))"
    | "r_term ?r' = r_term ?r + 1" "r_voted ?r' = r_id ?r" "r_votes ?r' = [(r_id ?r, True)]"
        "r_role ?r' = kLeader \<longrightarrow> quorum ?r \<le> 1"
    unfolding standing_def by blast
  then show ?thesis
  proof cases
    case 1
    then show ?thesis by (simp add: votes_ok_def node)
  next
    case 2
    then show ?thesis using vo keep mono by (auto simp: votes_ok_def node Let_def same_role_def)
  next
    case (3 m)
    then have m: "m \<in> set (cl_net c)" "m_to m = i" using del by auto
    have d: "distinct (map fst (r_votes ?r))" and old:
      "\<forall>p. (p, True) \<in> set (r_votes ?r) \<longrightarrow> p \<in> set ps \<and> (p = i \<or> granted c p i (r_term ?r))"
      using vo 3(5) by (auto simp: votes_ok_def Let_def)
    have "p \<in> set ps \<and> (p = i \<or> granted c p i (r_term ?r))" if "(p, True) \<in> set (r_votes ?r')" for p
    proof (cases "p = m_from m")
      case True
      with that have "m_granted m" by (simp add: 3(6) in_set_update [OF d])
      then have "granted c p i (r_term ?r)" using m 3(3) True by (auto simp: granted_def)
      moreover have "p \<in> set ps" using inv m(1) True by (auto simp: election_inv_def net_ok_def)
      ultimately show ?thesis by blast
    next
      case False
      with that old show ?thesis by (simp add: 3(6) in_set_update [OF d])
    qed
    then show ?thesis
      unfolding votes_ok_def Let_def node using 3 keep mono id d by (auto simp: distinct_update)
  next
    case 4
    then show ?thesis using id i by (auto simp: votes_ok_def node Let_def)
  qed
qed

lemma election_inv_operate:
  assumes inv: "election_inv ps c" and i: "i \<in> set ps" and z: "0 \<notin> set ps"
    and del: "deliverable op i c" and t: "r_term (cl_nodes c i) \<noteq> - 1"
  shows "election_inv ps (host_op op i c)"
proof -
  have st: "stored_ok ps c i" and net: "net_ok ps c" using inv i by (auto simp: election_inv_def)
  note f = op_facts [OF st t, where op = op]
  have stored: "d_hard (cl_disks c i) = r_hard (cl_nodes c i)" using st by (simp add: stored_ok_def)
  have req: "m_from req \<in> set ps" if "op = OpStep req" for req
    using net del that by (simp add: net_ok_def)
  have "net_ok ps (host_op op i c)"
  proof (rule net_ok_step [OF net host_op_node_step i z])
    show "vote_step (d_hard (cl_disks c i)) (d_hard (persist (r_ready (run_op op (cl_nodes c i))) (cl_disks c i)))"
      using f(1,3) stored by simp
    fix m
    assume "m \<in> set (messages (r_ready (run_op op (cl_nodes c i))))"
    from f(4) [OF this] show "m_from m = i \<and>
        m_term m = hs_term (d_hard (persist (r_ready (run_op op (cl_nodes c i))) (cl_disks c i))) \<and>
        (m_granted m \<longrightarrow> hs_voted_for (d_hard (persist (r_ready (run_op op (cl_nodes c i))) (cl_disks c i))) = m_to m \<and>
           m_to m \<in> set ps)"
      using f(1) req by metis
  qed
  moreover have "stored_ok ps (host_op op i c) i"
    using st f(1,2) host_op_node_step by (simp add: stored_ok_def node_step_def)
  moreover note votes_ok_operate [OF assms]
  ultimately show ?thesis
    using inv stored_ok_other [OF _ host_op_node_step] votes_ok_other [OF _ host_op_node_step]
    unfolding election_inv_def by metis
qed

text \<open>A crash restarts the member as a follower, with its old or its new term and vote.\<close>

lemma crash_disk_hard: "d_hard (crash_disk stage k rd d) = d_hard d \<or> d_hard (crash_disk stage k rd d) = d_hard (persist rd d)"
  by (simp add: crash_disk_def persist_snapshot_def persist_truncate_def persist_append_def split: option.split)

lemma election_inv_crash:
  assumes inv: "election_inv ps c" and i: "i \<in> set ps" and z: "0 \<notin> set ps"
    and t: "r_term (cl_nodes c i) \<noteq> - 1" and cfg: "member_config ps i cfg"
  shows "election_inv ps (crash_op op stage k cfg i c)"
proof -
  let ?d = "crash_disk stage k (r_ready (run_op op (cl_nodes c i))) (cl_disks c i)"
  let ?r = "Raft_new cfg (d_hard ?d) (d_entries ?d) (d_snap ?d)"
  have st: "stored_ok ps c i" and net: "net_ok ps c" using inv i by (auto simp: election_inv_def)
  have ns: "node_step i ?r ?d [] c (crash_op op stage k cfg i c)"
    by (simp add: node_step_def crash_op_def Let_def)
  have "vote_step (d_hard (cl_disks c i)) (d_hard ?d)"
    using crash_disk_hard [of stage k "r_ready (run_op op (cl_nodes c i))" "cl_disks c i"] op_facts(1,3) [OF st t, where op = op] st
    by (auto simp: stored_ok_def)
  with net_ok_step [OF net ns i z] have "net_ok ps (crash_op op stage k cfg i c)" by simp
  moreover have "stored_ok ps (crash_op op stage k cfg i c) i" "votes_ok ps (crash_op op stage k cfg i c) i"
    using ns cfg by (simp_all add: stored_ok_def votes_ok_def node_step_def Raft_new_sel)
  ultimately show ?thesis
    using inv stored_ok_other [OF _ ns] votes_ok_other [OF _ ns] unfolding election_inv_def by metis
qed

lemma election_inv_compact:
  assumes "election_inv ps c"
  shows "election_inv ps (host_compact applied data i c)"
proof -
  let ?c = "host_compact applied data i c"
  have same: "cl_net ?c = cl_net c" "d_hard (cl_disks ?c j) = d_hard (cl_disks c j)"
    "r_hard (cl_nodes ?c j) = r_hard (cl_nodes c j)" "r_ready (cl_nodes ?c j) = r_ready (cl_nodes c j)"
    "r_config (cl_nodes ?c j) = r_config (cl_nodes c j)" "r_role (cl_nodes ?c j) = r_role (cl_nodes c j)"
    "r_votes (cl_nodes ?c j) = r_votes (cl_nodes c j)" for j
    by (simp_all add: host_compact_def CompactTo_def Let_def)
  then have "granted ?c = granted c" by (simp add: granted_def fun_eq_iff)
  with same assms show ?thesis
    by (simp add: election_inv_def net_ok_def stored_ok_def votes_ok_def Let_def)
qed

lemma reachable_election_inv:
  assumes "reachable ps c" and "0 \<notin> set ps"
  shows "election_inv ps c"
  using assms
  by (induction rule: reachable.induct)
    (simp_all add: election_inv_start election_inv_operate election_inv_crash election_inv_compact)

subsection \<open>Election safety\<close>

lemma quorums_meet:
  assumes "A \<subseteq> set ps" and "B \<subseteq> set ps" and "length ps div 2 + 1 \<le> card A" and "length ps div 2 + 1 \<le> card B"
  shows "A \<inter> B \<noteq> {}"
proof
  assume "A \<inter> B = {}"
  then have "card A + card B = card (A \<union> B)"
    using assms(1,2) by (simp add: card_Un_disjoint finite_subset)
  also have "\<dots> \<le> length ps"
    using assms(1,2) by (meson card_length card_mono finite_set le_sup_iff order_trans)
  finally show False using assms(3,4) by linarith
qed

definition voters :: "raft \<Rightarrow> NodeId set" where
  "voters r = {p. (p, True) \<in> set (r_votes r)}"

lemma card_voters: "distinct (map fst (r_votes r)) \<Longrightarrow> card (voters r) = length (filter snd (r_votes r))"
proof -
  assume d: "distinct (map fst (r_votes r))"
  have "voters r = set (map fst (filter snd (r_votes r)))" by (force simp: voters_def)
  moreover have "distinct (map fst (filter snd (r_votes r)))" using d by (rule distinct_map_filter)
  ultimately show ?thesis by (simp only: distinct_card length_map)
qed

lemma leader_facts:
  assumes "election_inv ps c" and "k \<in> set ps" and "r_role (cl_nodes c k) = kLeader"
  shows "hs_voted_for (d_hard (cl_disks c k)) = k" and "voters (cl_nodes c k) \<subseteq> set ps"
    and "hs_term (d_hard (cl_disks c k)) = r_term (cl_nodes c k)"
    and "\<And>p. p \<in> voters (cl_nodes c k) \<Longrightarrow> p = k \<or> granted c p k (r_term (cl_nodes c k))"
    and "length ps div 2 + 1 \<le> card (voters (cl_nodes c k))"
  using assms card_voters [of "cl_nodes c k"]
  by (auto simp: election_inv_def stored_ok_def votes_ok_def Let_def voters_def)

lemma one_leader:
  assumes inv: "election_inv ps c" and i: "i \<in> set ps" and j: "j \<in> set ps"
    and l: "r_role (cl_nodes c i) = kLeader" "r_role (cl_nodes c j) = kLeader"
    and t: "r_term (cl_nodes c i) = r_term (cl_nodes c j)"
  shows "i = j"
proof -
  note fi = leader_facts [OF inv i l(1)] and fj = leader_facts [OF inv j l(2)]
  obtain p where "p \<in> voters (cl_nodes c i)" "p \<in> voters (cl_nodes c j)"
    using quorums_meet [OF fi(2) fj(2) fi(5) fj(5)] by blast
  then have p: "p = i \<or> granted c p i (r_term (cl_nodes c i))"
    "p = j \<or> granted c p j (r_term (cl_nodes c i))"
    using fi(4) fj(4) t by auto
  have held: "q = k" if "granted c k q (r_term (cl_nodes c k))" "k = i \<or> k = j" for k q
    using that inv fi(1,3) fj(1,3) unfolding election_inv_def net_ok_def vote_held_def by fastforce
  have "i = j" if "granted c p i (r_term (cl_nodes c i))" "granted c p j (r_term (cl_nodes c i))"
    using that inv unfolding election_inv_def net_ok_def by blast
  with p held t show ?thesis by metis
qed

subsection \<open>Properties\<close>

text \<open>
  (C1) Election safety: in every reachable state of a cluster, whatever messages were lost,
  delayed, reordered or repeated and wherever members crashed, two members that are leader in
  the same term are the same member.
\<close>
theorem election_safety:
  assumes "reachable ps c" and "0 \<notin> set ps" and "i \<in> set ps" and "j \<in> set ps"
    and "r_role (cl_nodes c i) = kLeader" and "r_role (cl_nodes c j) = kLeader"
    and "r_term (cl_nodes c i) = r_term (cl_nodes c j)"
  shows "i = j"
  using one_leader [OF reachable_election_inv [OF assms(1,2)] assms(3-7)] .

text \<open>A cluster of one member, whose first election timeout makes it the leader.\<close>

definition solo_config :: Config where
  "solo_config = demo_config\<lparr>c_peers := [1], election_timeout_min := 1\<rparr>"

definition solo_start :: cluster where
  "solo_start = \<lparr>cl_nodes = (\<lambda>_. new_node solo_config), cl_disks = (\<lambda>_. empty_disk), cl_net = []\<rparr>"

lemma solo_reachable: "reachable [1] (host_op OpTick 1 solo_start)"
proof -
  have "reachable [1] solo_start"
    unfolding solo_start_def by (rule reachable.start) (simp add: member_config_def solo_config_def demo_config_def)
  moreover have "r_term (cl_nodes solo_start 1) \<noteq> - 1"
    by (simp add: solo_start_def new_node_def Raft_new_sel empty_disk_def)
  ultimately show ?thesis by (intro reachable.operate) simp_all
qed

lemma solo_leader: "r_role (cl_nodes (host_op OpTick 1 solo_start) 1) = kLeader"
proof -
  have "r_role (Tick (new_node solo_config)) = kLeader"
    by (simp add: Tick_def Let_def StartElection_candidate BecomeLeader_role candidate_sel quorum_def
        new_node_def Raft_new_def ResetElectionTimer_def solo_config_def demo_config_def)
  then show ?thesis
    using host_op_node_step [of 1 OpTick solo_start] by (simp add: node_step_def solo_start_def)
qed

theorem election_safety_witness:
  "reachable [1] (host_op OpTick 1 solo_start) \<and>
   r_role (cl_nodes (host_op OpTick 1 solo_start) 1) = kLeader \<and> (1 :: NodeId) = 1"
  using solo_reachable solo_leader
    election_safety [OF solo_reachable, of 1 1] by simp

end
