(* ===== verification/RaftTrace.thy ===== *)
theory RaftTrace
  imports Cluster "HOL-Library.Code_Target_Nat"
begin

text \<open>
  Runs of a cluster as lists of events that can be evaluated, and a run that shows what is wrong
  with the follower's commit rule in \<open>HandleAppendEntries\<close>: it takes the minimum of the leader's
  commit index and its own last index, although only the entries up to the end of the message
  are known to agree with the leader.
\<close>

subsection \<open>Events\<close>

datatype event = EvTick NodeId | EvPropose NodeId bytes | EvDeliver nat

fun event_op :: "event \<Rightarrow> cluster \<Rightarrow> raft_op \<times> NodeId" where
  "event_op (EvTick i) c = (OpTick, i)"
| "event_op (EvPropose i x) c = (OpPropose x, i)"
| "event_op (EvDeliver n) c = (OpStep (cl_net c ! n), m_to (cl_net c ! n))"

fun enabled :: "event \<Rightarrow> cluster \<Rightarrow> bool" where
  "enabled (EvDeliver n) c = (n < length (cl_net c))"
| "enabled _ c = True"

definition play :: "NodeId list \<Rightarrow> event \<Rightarrow> cluster \<Rightarrow> cluster option" where
  "play ps ev c =
     (case event_op ev c of (op, i) \<Rightarrow>
        if i \<in> set ps \<and> enabled ev c \<and> r_term (cl_nodes c i) \<noteq> - 1
        then Some (host_op op i c) else None)"

fun plays :: "NodeId list \<Rightarrow> event list \<Rightarrow> cluster \<Rightarrow> cluster option" where
  "plays ps [] c = Some c"
| "plays ps (ev # evs) c = (case play ps ev c of None \<Rightarrow> None | Some c' \<Rightarrow> plays ps evs c')"

lemma enabled_deliverable: "event_op ev c = (op, i) \<Longrightarrow> enabled ev c \<Longrightarrow> deliverable op i c"
  by (cases ev) auto

lemma plays_reachable: "reachable ps c \<Longrightarrow> plays ps evs c = Some c' \<Longrightarrow> reachable ps c'"
proof (induction evs arbitrary: c)
  case (Cons ev evs)
  then obtain c1 where c1: "play ps ev c = Some c1" "plays ps evs c1 = Some c'"
    by (auto split: option.splits)
  then have "reachable ps c1"
    using Cons.prems(1) by (auto simp: play_def split: prod.splits if_splits
        intro: reachable.operate enabled_deliverable)
  with Cons.IH c1 show ?case by blast
qed simp

subsection \<open>Two members commit different entries at one index\<close>

definition trace_config :: "NodeId \<Rightarrow> Config" where
  "trace_config i =
     \<lparr>c_id = i, c_peers = [1, 2, 3], election_timeout_min = 1, election_timeout_max = 1,
      heartbeat_interval = 1, max_entries_per_msg = 1, max_bytes_per_msg = 1048576,
      uniform_draw = (\<lambda>_ lo _. lo)\<rparr>"

definition trace_start :: cluster where
  "trace_start = \<lparr>cl_nodes = (\<lambda>i. new_node (trace_config i)), cl_disks = (\<lambda>_. empty_disk), cl_net = []\<rparr>"

text \<open>
  Member 1 leads in term 1, replicates its first entry and keeps a proposal to itself; member 2
  leads in term 2 and commits its own entry at index 2 with member 3; member 3 leads in term 3,
  finds the conflict at member 1 and, after the hint, sends it the first entry again together
  with its commit index.
\<close>

definition trace_events :: "event list" where
  "trace_events =
     [EvTick 1, EvDeliver 0, EvDeliver 2, EvDeliver 3, EvDeliver 4, EvPropose 1 [88],
      EvTick 2, EvDeliver 10, EvDeliver 11, EvDeliver 13, EvDeliver 14,
      EvTick 3, EvDeliver 16, EvDeliver 17, EvDeliver 19, EvDeliver 20,
      EvDeliver 18, EvDeliver 21, EvDeliver 22]"

definition commit_view :: "cluster \<Rightarrow> NodeId \<Rightarrow> u64 \<times> u64 \<times> (u64 \<times> bytes) list" where
  "commit_view c i = (base_index (cl_nodes c i), r_commit (cl_nodes c i),
     map (\<lambda>e. (e_term e, e_command e)) (r_log (cl_nodes c i)))"

lemma trace_result:
  "map_option (\<lambda>c. (commit_view c 1, commit_view c 3)) (plays [1, 2, 3] trace_events trace_start) =
     Some ((0, 2, [(1, []), (1, [88])]), (0, 3, [(1, []), (2, []), (3, [])]))"
  by code_simp

lemma trace_start_reachable: "reachable [1, 2, 3] trace_start"
  unfolding trace_start_def
  by (rule reachable.start) (simp add: member_config_def trace_config_def)

subsection \<open>Properties\<close>

text \<open>
  (C11) State-machine safety does not hold: there is a reachable cluster of three members,
  without any crash, in which member 1 has committed at index 2 an entry of term 1 with a
  client's command and member 3 has committed at index 2 an entry of term 2.
\<close>
theorem follower_commits_stale_entry:
  "\<exists>c. reachable [1, 2, 3] c \<and>
     base_index (cl_nodes c 1) = 0 \<and> base_index (cl_nodes c 3) = 0 \<and>
     2 \<le> r_commit (cl_nodes c 1) \<and> 2 \<le> r_commit (cl_nodes c 3) \<and>
     e_term (r_log (cl_nodes c 1) ! 1) = 1 \<and> e_command (r_log (cl_nodes c 1) ! 1) = [88] \<and>
     e_term (r_log (cl_nodes c 3) ! 1) = 2"
proof -
  obtain c where c: "plays [1, 2, 3] trace_events trace_start = Some c"
    and v: "commit_view c 1 = (0, 2, [(1, []), (1, [88])])" "commit_view c 3 = (0, 3, [(1, []), (2, []), (3, [])])"
    using trace_result by (cases "plays [1, 2, 3] trace_events trace_start") auto
  have "reachable [1, 2, 3] c" by (rule plays_reachable [OF trace_start_reachable c])
  with v show ?thesis by (intro exI [of _ c]) (auto simp: commit_view_def map_eq_Cons_conv)
qed

end
