(* ===== verification/Messages.thy ===== *)
theory Messages
  imports Wire Status
begin

text \<open>
  The client protocol of \<open>src/net/messages.h\<close> and \<open>messages.cc\<close>: requests, responses, the
  codes that carry a \<open>Status\<close> over the wire, and the envelope of Raft messages.  Requests and
  responses that fit their length fields decode to themselves, a decoder that accepts has read
  the whole payload, and the three kinds of payload exclude each other.
\<close>

subsection \<open>Message types\<close>

datatype MsgType =
  kGet_msg | kPut_msg | kDelete_msg | kScan_msg | kStatus_msg | kSplit_msg | kRanges_msg
| kTxnTs_msg | kTxnGet_msg | kTxnPrewrite_msg | kTxnCommit_msg | kTxnRollback_msg
| kTxnScan_msg | kTxnResolve_msg | kResponse_msg | kRaft_msg

fun type_value :: "MsgType \<Rightarrow> u8" where
  "type_value kGet_msg = 1"
| "type_value kPut_msg = 2"
| "type_value kDelete_msg = 3"
| "type_value kScan_msg = 4"
| "type_value kStatus_msg = 5"
| "type_value kSplit_msg = 6"
| "type_value kRanges_msg = 7"
| "type_value kTxnTs_msg = 8"
| "type_value kTxnGet_msg = 9"
| "type_value kTxnPrewrite_msg = 10"
| "type_value kTxnCommit_msg = 11"
| "type_value kTxnRollback_msg = 12"
| "type_value kTxnScan_msg = 13"
| "type_value kTxnResolve_msg = 14"
| "type_value kResponse_msg = 16"
| "type_value kRaft_msg = 32"

definition request_types :: "MsgType list" where
  "request_types =
     [kGet_msg, kPut_msg, kDelete_msg, kScan_msg, kStatus_msg, kSplit_msg, kRanges_msg,
      kTxnTs_msg, kTxnGet_msg, kTxnPrewrite_msg, kTxnCommit_msg, kTxnRollback_msg,
      kTxnScan_msg, kTxnResolve_msg]"

text \<open>The \<open>switch\<close> of \<open>DecodeRequest\<close>: the request type of a type byte, or none.\<close>

definition request_type :: "u8 \<Rightarrow> MsgType option" where
  "request_type v = find (\<lambda>t. type_value t = v) request_types"

subsection \<open>Requests\<close>

record Request =
  rq_type :: MsgType
  rq_key :: bytes
  rq_value :: bytes
  rq_end_key :: bytes
  rq_limit :: u32
  rq_flags :: u8
  rq_ts :: u64
  rq_ts2 :: u64
  rq_primary :: bytes
  rq_wop :: u8

definition empty_request :: Request where
  "empty_request =
     \<lparr>rq_type = kGet_msg, rq_key = [], rq_value = [], rq_end_key = [], rq_limit = 0,
      rq_flags = 0, rq_ts = 0, rq_ts2 = 0, rq_primary = [], rq_wop = 0\<rparr>"

definition kRequestNoForward :: u8 where
  "kRequestNoForward = 1"

definition EncodeRequest :: "Request \<Rightarrow> bytes" where
  "EncodeRequest req =
     PutFixed8 (type_value (rq_type req)) @ PutLengthPrefixed (rq_key req) @
     PutLengthPrefixed (rq_value req) @ PutLengthPrefixed (rq_end_key req) @
     PutFixed32 (rq_limit req) @ PutFixed8 (rq_flags req) @ PutFixed64 (rq_ts req) @
     PutFixed64 (rq_ts2 req) @ PutLengthPrefixed (rq_primary req) @ PutFixed8 (rq_wop req)"

definition DecodeRequest :: "bytes \<Rightarrow> Request option" where
  "DecodeRequest payload =
     (let (type, d) = U8 (Decoder payload)
      in case request_type type of
           None \<Rightarrow> None
         | Some t \<Rightarrow>
             (let (key, d) = Str d; (val, d) = Str d; (end_key, d) = Str d; (limit, d) = U32 d;
                  (flags, d) = U8 d; (ts, d) = U64 d; (ts2, d) = U64 d; (primary, d) = Str d;
                  (wop, d) = U8 d
              in if dec_ok d \<and> remaining d = 0
                 then Some \<lparr>rq_type = t, rq_key = key, rq_value = val, rq_end_key = end_key,
                        rq_limit = limit, rq_flags = flags, rq_ts = ts, rq_ts2 = ts2,
                        rq_primary = primary, rq_wop = wop\<rparr>
                 else None))"

definition request_fits :: "Request \<Rightarrow> bool" where
  "request_fits req \<longleftrightarrow> rq_type req \<in> set request_types \<and> size32 (rq_key req) \<and>
     size32 (rq_value req) \<and> size32 (rq_end_key req) \<and> size32 (rq_primary req)"

subsection \<open>Responses\<close>

record Response =
  rs_code :: u8
  rs_leader_addr :: bytes
  rs_message :: bytes
  rs_found :: bool
  rs_value :: bytes
  rs_kvs :: "(bytes \<times> bytes) list"
  rs_ts :: u64
  rs_lock_ts :: u64
  rs_lock_primary :: bytes
  rs_lock_key :: bytes

definition empty_response :: Response where
  "empty_response =
     \<lparr>rs_code = 0, rs_leader_addr = [], rs_message = [], rs_found = False, rs_value = [],
      rs_kvs = [], rs_ts = 0, rs_lock_ts = 0, rs_lock_primary = [], rs_lock_key = []\<rparr>"

definition response_ok :: "Response \<Rightarrow> bool" where
  "response_ok r = (rs_code r = 0)"

definition ToStatus :: "Response \<Rightarrow> status" where
  "ToStatus r =
     (let c = rs_code r; m = rs_message r
      in if c = 0 then OK else if c = 1 then NotFound m else if c = 2 then Corruption m
         else if c = 3 then IOError m else if c = 4 then InvalidArgument m
         else if c = 5 then NotLeader m else if c = 6 then Timeout m
         else if c = 7 then Aborted m else if c = 8 then Conflict m
         else IOError (str ''unknown response code '' @ to_string (unat c)))"

definition FromStatus :: "status \<Rightarrow> Response" where
  "FromStatus s = empty_response\<lparr>rs_code := code_value (st_code s), rs_message := st_msg s\<rparr>"

definition put_pair :: "bytes \<times> bytes \<Rightarrow> bytes" where
  "put_pair kv = PutLengthPrefixed (fst kv) @ PutLengthPrefixed (snd kv)"

definition get_pair :: "decoder \<Rightarrow> (bytes \<times> bytes) \<times> decoder" where
  "get_pair d = (let (k, d1) = Str d; (v, d2) = Str d1 in ((k, v), d2))"

definition EncodeResponse :: "Response \<Rightarrow> bytes" where
  "EncodeResponse resp =
     PutFixed8 (type_value kResponse_msg) @ PutFixed8 (rs_code resp) @
     PutLengthPrefixed (rs_leader_addr resp) @ PutLengthPrefixed (rs_message resp) @
     put_bool (rs_found resp) @ PutLengthPrefixed (rs_value resp) @
     PutFixed32 (of_nat (length (rs_kvs resp))) @ concat (map put_pair (rs_kvs resp)) @
     PutFixed64 (rs_ts resp) @ PutFixed64 (rs_lock_ts resp) @
     PutLengthPrefixed (rs_lock_primary resp) @ PutLengthPrefixed (rs_lock_key resp)"

definition DecodeResponse :: "bytes \<Rightarrow> Response option" where
  "DecodeResponse payload =
     (let (type, d) = U8 (Decoder payload)
      in if type \<noteq> type_value kResponse_msg then None
         else
           (let (code, d) = U8 d; (leader_addr, d) = Str d; (message, d) = Str d;
                (found, d) = get_bool d; (val, d) = Str d; (count, d) = U32 d;
                (kvs, d) = decode_n get_pair (unat count) d; (ts, d) = U64 d;
                (lock_ts, d) = U64 d; (lock_primary, d) = Str d; (lock_key, d) = Str d
            in if dec_ok d \<and> remaining d = 0
               then Some \<lparr>rs_code = code, rs_leader_addr = leader_addr, rs_message = message,
                      rs_found = found, rs_value = val, rs_kvs = kvs, rs_ts = ts,
                      rs_lock_ts = lock_ts, rs_lock_primary = lock_primary,
                      rs_lock_key = lock_key\<rparr>
               else None))"

definition pair_fits :: "bytes \<times> bytes \<Rightarrow> bool" where
  "pair_fits kv \<longleftrightarrow> size32 (fst kv) \<and> size32 (snd kv)"

definition response_fits :: "Response \<Rightarrow> bool" where
  "response_fits resp \<longleftrightarrow> size32 (rs_leader_addr resp) \<and> size32 (rs_message resp) \<and>
     size32 (rs_value resp) \<and> length (rs_kvs resp) < 2 ^ 32 \<and> list_all pair_fits (rs_kvs resp) \<and>
     size32 (rs_lock_primary resp) \<and> size32 (rs_lock_key resp)"

subsection \<open>The envelope of Raft messages\<close>

definition EncodeRaftFrame :: "bytes \<Rightarrow> bytes" where
  "EncodeRaftFrame body = PutFixed8 (type_value kRaft_msg) @ body"

definition DecodeIsRaftFrame :: "bytes \<Rightarrow> bytes option" where
  "DecodeIsRaftFrame payload =
     (if payload = [] \<or> hd payload \<noteq> type_value kRaft_msg then None else Some (tl payload))"

subsection \<open>Round trips\<close>

lemma type_value_inject: "type_value a = type_value b \<longleftrightarrow> a = b"
  by (cases a; cases b) simp_all

lemma request_type_value:
  "t \<in> set request_types \<Longrightarrow> request_type (type_value t) = Some t"
  by (auto simp: request_types_def request_type_def)

lemma request_type_SomeD:
  "request_type v = Some t \<Longrightarrow> t \<in> set request_types \<and> type_value t = v"
  by (auto simp: request_type_def find_Some_iff)

lemma get_pair_at:
  "pair_fits kv \<Longrightarrow>
   get_pair (dec_at pre (put_pair kv @ rest)) = (kv, dec_at (pre @ put_pair kv) rest)"
  by (simp add: get_pair_def put_pair_def pair_fits_def codec)

interpretation pair_item: wire_item put_pair get_pair pair_fits
  by unfold_locales (rule get_pair_at)

lemma DecodeRequest_Encode: "request_fits req \<Longrightarrow> DecodeRequest (EncodeRequest req) = Some req"
  by (simp add: request_fits_def DecodeRequest_def EncodeRequest_def codec request_type_value)

lemma DecodeResponse_Encode: "response_fits r \<Longrightarrow> DecodeResponse (EncodeResponse r) = Some r"
  by (simp add: response_fits_def DecodeResponse_def EncodeResponse_def codec
      pair_item.decode_items unat_of_nat_u32)

lemma DecodeIsRaftFrame_Encode: "DecodeIsRaftFrame (EncodeRaftFrame body) = Some body"
  by (simp add: DecodeIsRaftFrame_def EncodeRaftFrame_def PutFixed8_def)

lemma ToStatus_FromStatus:
  "ToStatus (FromStatus s) = (if is_ok s then OK else s)"
  by (cases "st_code s") (simp_all add: ToStatus_def FromStatus_def empty_response_def Let_def)

subsection \<open>The kinds of payload exclude each other\<close>

lemma U8_Decoder: "p \<noteq> [] \<Longrightarrow> fst (U8 (Decoder p)) = hd p"
  by (cases p) (simp_all add: U8_def read_with_def Have_def Advance_def Decoder_def DecodeFixed8_def)

lemma U8_Decoder_Nil: "fst (U8 (Decoder [])) = 0"
  by (simp add: U8_def read_with_def Have_def Decoder_def)

lemma DecodeRequest_first:
  assumes "DecodeRequest p = Some req"
  shows "p \<noteq> []" "hd p = type_value (rq_type req)" "rq_type req \<in> set request_types"
proof -
  obtain t where t: "request_type (fst (U8 (Decoder p))) = Some t" and q: "rq_type req = t"
    using assms by (auto simp: DecodeRequest_def Let_def split: prod.splits option.splits if_splits)
  then have "t \<in> set request_types" "type_value t = fst (U8 (Decoder p))"
    using request_type_SomeD by blast+
  with q show "p \<noteq> []" "hd p = type_value (rq_type req)" "rq_type req \<in> set request_types"
    using U8_Decoder [of p] U8_Decoder_Nil by (cases "p = []"; auto simp: request_types_def)+
qed

lemma DecodeResponse_first:
  assumes "DecodeResponse p = Some r"
  shows "p \<noteq> []" "hd p = type_value kResponse_msg"
proof -
  have "fst (U8 (Decoder p)) = type_value kResponse_msg"
    using assms by (auto simp: DecodeResponse_def Let_def split: prod.splits if_splits)
  then show "p \<noteq> []" "hd p = type_value kResponse_msg"
    using U8_Decoder [of p] U8_Decoder_Nil by (cases "p = []"; auto)+
qed

lemma payload_kinds_exclusive:
  "DecodeRequest p = Some req \<Longrightarrow> DecodeResponse p = None \<and> DecodeIsRaftFrame p = None"
  "DecodeResponse p = Some r \<Longrightarrow> DecodeRequest p = None \<and> DecodeIsRaftFrame p = None"
  "DecodeIsRaftFrame p = Some b \<Longrightarrow> DecodeRequest p = None \<and> DecodeResponse p = None"
proof -
  have rq: False if "DecodeRequest p = Some req" "hd p = type_value kResponse_msg \<or> hd p = type_value kRaft_msg"
    for req
    using DecodeRequest_first [OF that(1)] that(2) by (auto simp: request_types_def)
  have rf: "hd p = type_value kRaft_msg" if "DecodeIsRaftFrame p = Some b" for b
    using that by (auto simp: DecodeIsRaftFrame_def split: if_splits)
  have rs: "hd p = type_value kResponse_msg" if "DecodeResponse p = Some r" for r
    using DecodeResponse_first [OF that] by simp
  have ne: "type_value kResponse_msg \<noteq> type_value kRaft_msg" by simp
  show "DecodeRequest p = Some req \<Longrightarrow> DecodeResponse p = None \<and> DecodeIsRaftFrame p = None"
    using rq rs rf by (metis not_Some_eq)
  show "DecodeResponse p = Some r \<Longrightarrow> DecodeRequest p = None \<and> DecodeIsRaftFrame p = None"
    using rq rs rf ne by (metis not_Some_eq)
  show "DecodeIsRaftFrame p = Some b \<Longrightarrow> DecodeRequest p = None \<and> DecodeResponse p = None"
    using rq rs rf ne by (metis not_Some_eq)
qed

end
