(* ===== verification/Frame.thy ===== *)
theory Frame
  imports Messages
begin

text \<open>
  Reading and writing on sockets (\<open>ReadFull\<close>, \<open>WriteFull\<close> of \<open>src/net/socket.cc\<close>) and the
  framing of \<open>src/net/frame.cc\<close>.  A connection is the bytes that will still arrive before the
  peer closes it, the bytes sent, and the outcomes of the coming system calls: done, partial,
  interrupted, or failed.  Frames are complete-or-fail whatever the partial transfers are.
\<close>

subsection \<open>Connections\<close>

datatype net_io = NetOk | NetShort nat | NetIntr | NetFail bytes

record sock =
  so_in :: bytes
  so_out :: bytes
  so_io :: "net_io list"

definition net_Errno :: "bytes \<Rightarrow> bytes \<Rightarrow> status" where
  "net_Errno what e = IOError (what @ str '': '' @ e)"

definition next_net :: "sock \<Rightarrow> net_io \<times> sock" where
  "next_net s = (case so_io s of [] \<Rightarrow> (NetOk, s) | x # xs \<Rightarrow> (x, s\<lparr>so_io := xs\<rparr>))"

text \<open>How much one call transfers out of \<open>n\<close> bytes; a call that transfers moves at least one.\<close>

definition net_amount :: "net_io \<Rightarrow> nat \<Rightarrow> nat" where
  "net_amount x n = (case x of NetShort k \<Rightarrow> max 1 (min k n) | _ \<Rightarrow> n)"

function ReadFull :: "nat \<Rightarrow> sock \<Rightarrow> (status, bytes) sum \<times> sock" where
  "ReadFull n s =
     (if n = 0 then (Inr [], s)
      else case next_net s of
        (NetIntr, s1) \<Rightarrow> ReadFull n s1
      | (NetFail e, s1) \<Rightarrow> (Inl (net_Errno (str ''read'') e), s1)
      | (x, s1) \<Rightarrow>
          if so_in s1 = [] then (Inl (IOError (str ''connection closed'')), s1)
          else (let r = min (net_amount x n) (length (so_in s1));
                    s2 = s1\<lparr>so_in := drop r (so_in s1)\<rparr>
                in case ReadFull (n - r) s2 of
                     (Inr rest, s3) \<Rightarrow> (Inr (take r (so_in s1) @ rest), s3)
                   | (Inl e, s3) \<Rightarrow> (Inl e, s3)))"
  by pat_completeness auto
termination
  by (relation "measure (\<lambda>(n, s). length (so_io s) + length (so_in s))")
    (auto simp: next_net_def net_amount_def min_def split: list.splits net_io.splits)

function WriteFull :: "bytes \<Rightarrow> sock \<Rightarrow> status \<times> sock" where
  "WriteFull buf s =
     (if buf = [] then (OK, s)
      else case next_net s of
        (NetIntr, s1) \<Rightarrow> WriteFull buf s1
      | (NetFail e, s1) \<Rightarrow> (net_Errno (str ''write'') e, s1)
      | (x, s1) \<Rightarrow>
          (let r = net_amount x (length buf)
           in WriteFull (drop r buf) (s1\<lparr>so_out := so_out s1 @ take r buf\<rparr>)))"
  by pat_completeness auto
termination
  by (relation "measure (\<lambda>(buf, s). length (so_io s) + length buf)")
    (auto simp: next_net_def net_amount_def split: list.splits net_io.splits)

declare ReadFull.simps [simp del] WriteFull.simps [simp del]

subsection \<open>Frames\<close>

definition kMaxFrameBytes :: nat where
  "kMaxFrameBytes = 32 * 2 ^ 20"

definition ReadFrame :: "sock \<Rightarrow> (status, bytes) sum \<times> sock" where
  "ReadFrame s =
     (case ReadFull 4 s of
        (Inl e, s1) \<Rightarrow> (Inl e, s1)
      | (Inr header, s1) \<Rightarrow>
          (let len = DecodeFixed32 header
           in if unat len > kMaxFrameBytes
              then (Inl (Corruption (str ''frame too large: '' @ to_string (unat len))), s1)
              else ReadFull (unat len) s1))"

definition WriteFrame :: "bytes \<Rightarrow> sock \<Rightarrow> status \<times> sock" where
  "WriteFrame payload s =
     (if length payload > kMaxFrameBytes then (InvalidArgument (str ''frame too large''), s)
      else WriteFull (PutFixed32 (of_nat (length payload)) @ payload) s)"

definition frame_bytes :: "bytes \<Rightarrow> bytes" where
  "frame_bytes payload = PutFixed32 (of_nat (length payload)) @ payload"

definition no_net_fail :: "net_io list \<Rightarrow> bool" where
  "no_net_fail xs = list_all (\<lambda>x. case x of NetFail e \<Rightarrow> False | _ \<Rightarrow> True) xs"

subsection \<open>Transfers are complete or fail\<close>

lemma next_net_cases:
  assumes "next_net s = (x, s1)"
  shows "so_in s1 = so_in s" "so_out s1 = so_out s"
    "no_net_fail (so_io s) \<Longrightarrow> no_net_fail (so_io s1)"
    "no_net_fail (so_io s) \<Longrightarrow> x \<noteq> NetFail e" "so_io s = [] \<Longrightarrow> x = NetOk"
  using assms by (auto simp: next_net_def no_net_fail_def split: list.splits)

lemma ReadFull_step:
  assumes "n \<noteq> 0" and "next_net s = (x, s1)" and "x = NetOk \<or> x = NetShort k"
    and "so_in s1 \<noteq> []"
  shows "\<exists>r. 0 < r \<and> r \<le> n \<and> r \<le> length (so_in s1) \<and>
           ReadFull n s =
             (case ReadFull (n - r) (s1\<lparr>so_in := drop r (so_in s1)\<rparr>) of
                (Inr rest, s3) \<Rightarrow> (Inr (take r (so_in s1) @ rest), s3)
              | (Inl e, s3) \<Rightarrow> (Inl e, s3))"
proof -
  define r where "r = min (net_amount x n) (length (so_in s1))"
  have "0 < r" "r \<le> n" "r \<le> length (so_in s1)"
    using assms(1,3,4) by (auto simp: r_def net_amount_def)
  moreover have "ReadFull n s =
             (case ReadFull (n - r) (s1\<lparr>so_in := drop r (so_in s1)\<rparr>) of
                (Inr rest, s3) \<Rightarrow> (Inr (take r (so_in s1) @ rest), s3)
              | (Inl e, s3) \<Rightarrow> (Inl e, s3))"
    using assms by (subst ReadFull.simps) (auto simp: r_def Let_def split del: if_split cong: prod.case_cong sum.case_cong)
  ultimately show ?thesis by blast
qed

lemma ReadFull_enough:
  assumes "n \<le> length (so_in s)" and "no_net_fail (so_io s)"
  shows "\<exists>s'. ReadFull n s = (Inr (take n (so_in s)), s') \<and> so_in s' = drop n (so_in s) \<and>
           no_net_fail (so_io s') \<and> so_out s' = so_out s"
  using assms
proof (induction "length (so_io s) + length (so_in s)" arbitrary: n s rule: less_induct)
  case less
  show ?case
  proof (cases "n = 0")
    case True
    then show ?thesis using less.prems by (simp add: ReadFull.simps [of 0])
  next
    case False
    obtain x s1 where x: "next_net s = (x, s1)" by fastforce
    note nx = next_net_cases [OF x]
    show ?thesis
    proof (cases "x = NetIntr")
      case True
      with x have io: "so_io s = NetIntr # so_io s1" "so_io s \<noteq> []"
        by (auto simp: next_net_def split: list.splits)
      with True False x have "ReadFull n s = ReadFull n s1" by (subst ReadFull.simps) simp
      then show ?thesis using less.hyps [of s1 n] less.prems nx io by simp
    next
      case False2: False
      then obtain k where k: "x = NetOk \<or> x = NetShort k"
        using nx(4) less.prems(2) by (cases x) auto
      have ne: "so_in s1 \<noteq> []" using False less.prems(1) nx(1) by auto
      obtain r where r: "0 < r" "r \<le> n" "r \<le> length (so_in s1)" and
        eq: "ReadFull n s =
             (case ReadFull (n - r) (s1\<lparr>so_in := drop r (so_in s1)\<rparr>) of
                (Inr rest, s3) \<Rightarrow> (Inr (take r (so_in s1) @ rest), s3)
              | (Inl e, s3) \<Rightarrow> (Inl e, s3))"
        using ReadFull_step [OF False x k ne] by blast
      have len: "length (so_io s1) \<le> length (so_io s)"
        using x by (auto simp: next_net_def split: list.splits)
      let ?t = "s1\<lparr>so_in := drop r (so_in s1)\<rparr>"
      have "\<exists>s'. ReadFull (n - r) ?t = (Inr (take (n - r) (so_in ?t)), s') \<and>
          so_in s' = drop (n - r) (so_in ?t) \<and> no_net_fail (so_io s') \<and> so_out s' = so_out ?t"
      proof (rule less.hyps)
        show "length (so_io ?t) + length (so_in ?t) < length (so_io s) + length (so_in s)"
          using len r nx(1) by simp
        show "n - r \<le> length (so_in ?t)" using less.prems(1) r nx(1) by simp
        show "no_net_fail (so_io ?t)" using nx(3) less.prems(2) by simp
      qed
      moreover have "take r (so_in s) @ take (n - r) (drop r (so_in s)) = take n (so_in s)"
        using r take_add [of r "n - r" "so_in s"] by simp
      ultimately show ?thesis using eq r nx by auto
    qed
  qed
qed

lemma ReadFull_short:
  assumes "length (so_in s) < n"
  shows "\<exists>e s'. ReadFull n s = (Inl e, s') \<and> st_code e = kIOError"
  using assms
proof (induction "length (so_io s) + length (so_in s)" arbitrary: n s rule: less_induct)
  case less
  then have n0: "n \<noteq> 0" by simp
  obtain x s1 where x: "next_net s = (x, s1)" by fastforce
  note nx = next_net_cases [OF x]
  have len: "length (so_io s1) \<le> length (so_io s)"
    using x by (auto simp: next_net_def split: list.splits)
  consider (intr) "x = NetIntr" | (err) e where "x = NetFail e" |
    (closed) k where "x = NetOk \<or> x = NetShort k" "so_in s1 = []" |
    (some) k where "x = NetOk \<or> x = NetShort k" "so_in s1 \<noteq> []"
    by (cases x) auto
  then show ?case
  proof cases
    case intr
    with x have io: "so_io s = NetIntr # so_io s1" "so_io s \<noteq> []"
      by (auto simp: next_net_def split: list.splits)
    with intr n0 x have "ReadFull n s = ReadFull n s1" by (subst ReadFull.simps) simp
    then show ?thesis using less.hyps [of s1 n] less.prems nx io by simp
  next
    case err
    then show ?thesis using x n0 by (subst ReadFull.simps) (simp add: net_Errno_def)
  next
    case closed
    then show ?thesis using x n0 by (subst ReadFull.simps) auto
  next
    case some
    obtain r where r: "0 < r" "r \<le> n" "r \<le> length (so_in s1)" and
      eq: "ReadFull n s =
             (case ReadFull (n - r) (s1\<lparr>so_in := drop r (so_in s1)\<rparr>) of
                (Inr rest, s3) \<Rightarrow> (Inr (take r (so_in s1) @ rest), s3)
              | (Inl e, s3) \<Rightarrow> (Inl e, s3))"
      using ReadFull_step [OF n0 x some] by blast
    let ?t = "s1\<lparr>so_in := drop r (so_in s1)\<rparr>"
    have "\<exists>e s'. ReadFull (n - r) ?t = (Inl e, s') \<and> st_code e = kIOError"
      by (rule less.hyps) (use len r nx(1) less.prems in auto)
    then show ?thesis using eq by auto
  qed
qed

lemma WriteFull_no_fail:
  assumes "no_net_fail (so_io s)"
  shows "\<exists>s'. WriteFull buf s = (OK, s') \<and> so_out s' = so_out s @ buf \<and> so_in s' = so_in s"
  using assms
proof (induction "length (so_io s) + length buf" arbitrary: buf s rule: less_induct)
  case less
  show ?case
  proof (cases "buf = []")
    case True
    then show ?thesis by (simp add: WriteFull.simps)
  next
    case False
    obtain x s1 where x: "next_net s = (x, s1)" by fastforce
    note nx = next_net_cases [OF x]
    have len: "length (so_io s1) \<le> length (so_io s)"
      using x by (auto simp: next_net_def split: list.splits)
    show ?thesis
    proof (cases "x = NetIntr")
      case True
      with x have io: "so_io s = NetIntr # so_io s1" "so_io s \<noteq> []"
        by (auto simp: next_net_def split: list.splits)
      with True False x have "WriteFull buf s = WriteFull buf s1" by (subst WriteFull.simps) simp
      then show ?thesis using less.hyps [of s1 buf] less.prems nx io by simp
    next
      case False2: False
      let ?r = "net_amount x (length buf)"
      let ?t = "s1\<lparr>so_out := so_out s1 @ take ?r buf\<rparr>"
      have ok: "x = NetOk \<or> (\<exists>k. x = NetShort k)" using False2 nx(4) less.prems by (cases x) auto
      then have r: "0 < ?r" using False by (auto simp: net_amount_def)
      have "WriteFull buf s = WriteFull (drop ?r buf) ?t"
        using ok x False by (subst WriteFull.simps) (auto simp: Let_def)
      moreover have "\<exists>s'. WriteFull (drop ?r buf) ?t = (OK, s') \<and>
          so_out s' = so_out ?t @ drop ?r buf \<and> so_in s' = so_in ?t"
      proof (rule less.hyps)
        have "length (drop ?r buf) < length buf" using r False by simp
        then show "length (so_io ?t) + length (drop ?r buf) < length (so_io s) + length buf"
          using len by simp
        show "no_net_fail (so_io ?t)" using nx(3) less.prems by simp
      qed
      ultimately show ?thesis using nx by auto
    qed
  qed
qed

subsection \<open>Frames on a stream\<close>

lemma frame_len: "length p \<le> kMaxFrameBytes \<Longrightarrow> unat (of_nat (length p) :: u32) = length p"
  by (rule unat_of_nat_u32) (simp add: kMaxFrameBytes_def)

lemma header_frame:
  "take 4 (frame_bytes p @ rest) = PutFixed32 (of_nat (length p))"
  "drop 4 (frame_bytes p @ rest) = p @ rest"
  by (simp_all add: frame_bytes_def)

lemma DecodeFixed32_header: "DecodeFixed32 (PutFixed32 v) = v"
  using DecodeFixed32_Put [of v "[]"] by simp

lemma ReadFrame_next:
  assumes "length p \<le> kMaxFrameBytes" and "so_in s = frame_bytes p @ rest"
    and "no_net_fail (so_io s)"
  shows "\<exists>s'. ReadFrame s = (Inr p, s') \<and> so_in s' = rest \<and> no_net_fail (so_io s') \<and> so_out s' = so_out s"
proof -
  have "4 \<le> length (so_in s)" using assms(2) by (simp add: frame_bytes_def)
  then obtain s1 where s1: "ReadFull 4 s = (Inr (PutFixed32 (of_nat (length p))), s1)"
      "so_in s1 = p @ rest" "no_net_fail (so_io s1)" "so_out s1 = so_out s"
    using ReadFull_enough [of 4 s] assms(2,3) header_frame by metis
  moreover obtain s2 where "ReadFull (length p) s1 = (Inr p, s2)" "so_in s2 = rest"
      "no_net_fail (so_io s2)" "so_out s2 = so_out s1"
    using ReadFull_enough [of "length p" s1] s1 by auto
  ultimately show ?thesis
    using assms(1) by (simp add: ReadFrame_def DecodeFixed32_header frame_len Let_def)
qed

lemma ReadFrame_cut:
  assumes "length p \<le> kMaxFrameBytes" and "k < length (frame_bytes p)"
    and "so_in s = take k (frame_bytes p)" and "no_net_fail (so_io s)"
  shows "\<exists>e s'. ReadFrame s = (Inl e, s') \<and> st_code e = kIOError"
proof (cases "k < 4")
  case True
  then have "length (so_in s) < 4" using assms by simp
  then show ?thesis using ReadFull_short [of s 4] by (auto simp: ReadFrame_def)
next
  case False
  have len: "length (so_in s) = k" using assms(2,3) by simp
  have "take 4 (so_in s) = take 4 (frame_bytes p @ [])" using False assms(3) by (simp add: min_def)
  then have "take 4 (so_in s) = PutFixed32 (of_nat (length p))" by (simp only: header_frame)
  then obtain s1 where s1: "ReadFull 4 s = (Inr (PutFixed32 (of_nat (length p))), s1)"
      "so_in s1 = drop 4 (so_in s)"
    using ReadFull_enough [of 4 s] assms(4) len False by auto
  have "length (so_in s1) < length p"
    using s1(2) len False assms(2) by (simp add: frame_bytes_def)
  then show ?thesis
    using ReadFull_short [of s1 "length p"] s1(1) assms(1)
    by (auto simp: ReadFrame_def DecodeFixed32_header frame_len Let_def)
qed

lemma WriteFrame_no_fail:
  assumes "length p \<le> kMaxFrameBytes" and "no_net_fail (so_io s)"
  shows "\<exists>s'. WriteFrame p s = (OK, s') \<and> so_out s' = so_out s @ frame_bytes p \<and> so_in s' = so_in s"
  using WriteFull_no_fail [OF assms(2), of "frame_bytes p"] assms(1)
  by (auto simp: WriteFrame_def frame_bytes_def)

subsection \<open>Properties\<close>

text \<open>
  (C29) A request crosses a connection whole or not at all.  Whatever partial transfers and
  interruptions the calls report, the peer of a successful \<open>WriteFrame\<close> reads exactly that
  payload, leaves what follows it on the stream, and decodes the request that was sent, which
  it cannot mistake for a response or a Raft message; and a stream that ends inside the frame
  gives an I/O error, never a payload.
\<close>
theorem request_over_connection:
  assumes "request_fits req" and "length (EncodeRequest req) \<le> kMaxFrameBytes"
    and "no_net_fail (so_io cl)" and "no_net_fail (so_io srv)"
    and "k < length (frame_bytes (EncodeRequest req))"
  shows "(\<exists>cl'. WriteFrame (EncodeRequest req) cl = (OK, cl') \<and>
            so_out cl' = so_out cl @ frame_bytes (EncodeRequest req)) \<and>
         (\<exists>p srv'. ReadFrame (srv\<lparr>so_in := frame_bytes (EncodeRequest req) @ rest\<rparr>) = (Inr p, srv') \<and>
            so_in srv' = rest \<and> DecodeRequest p = Some req \<and> DecodeResponse p = None \<and>
            DecodeIsRaftFrame p = None) \<and>
         (\<exists>e srv'. ReadFrame (srv\<lparr>so_in := take k (frame_bytes (EncodeRequest req))\<rparr>) = (Inl e, srv') \<and>
            st_code e = kIOError)"
proof (intro conjI)
  note rt = DecodeRequest_Encode [OF assms(1)]
  show "\<exists>cl'. WriteFrame (EncodeRequest req) cl = (OK, cl') \<and>
           so_out cl' = so_out cl @ frame_bytes (EncodeRequest req)"
    using WriteFrame_no_fail [OF assms(2,3)] by blast
  show "\<exists>p srv'. ReadFrame (srv\<lparr>so_in := frame_bytes (EncodeRequest req) @ rest\<rparr>) = (Inr p, srv') \<and>
          so_in srv' = rest \<and> DecodeRequest p = Some req \<and> DecodeResponse p = None \<and>
          DecodeIsRaftFrame p = None"
    using ReadFrame_next [OF assms(2), of "srv\<lparr>so_in := frame_bytes (EncodeRequest req) @ rest\<rparr>" rest]
      assms(4) rt payload_kinds_exclusive(1) [OF rt] by auto
  show "\<exists>e srv'. ReadFrame (srv\<lparr>so_in := take k (frame_bytes (EncodeRequest req))\<rparr>) = (Inl e, srv') \<and>
          st_code e = kIOError"
    using ReadFrame_cut [OF assms(2,5), of "srv\<lparr>so_in := take k (frame_bytes (EncodeRequest req))\<rparr>"]
      assms(4) by simp
qed

theorem request_over_connection_witness:
  "let req = empty_request\<lparr>rq_type := kPut_msg, rq_key := [107], rq_value := [118]\<rparr>;
       f = frame_bytes (EncodeRequest req);
       s = \<lparr>so_in = [], so_out = [], so_io = [NetShort 3, NetIntr, NetOk]\<rparr>
   in (\<exists>cl'. WriteFrame (EncodeRequest req) s = (OK, cl') \<and> so_out cl' = so_out s @ f) \<and>
      (\<exists>p srv'. ReadFrame (s\<lparr>so_in := f @ [9]\<rparr>) = (Inr p, srv') \<and> so_in srv' = [9] \<and>
         DecodeRequest p = Some req \<and> DecodeResponse p = None \<and> DecodeIsRaftFrame p = None) \<and>
      (\<exists>e srv'. ReadFrame (s\<lparr>so_in := take 7 f\<rparr>) = (Inl e, srv') \<and> st_code e = kIOError)"
proof -
  define req where "req = empty_request\<lparr>rq_type := kPut_msg, rq_key := [107], rq_value := [118]\<rparr>"
  define s where "s = \<lparr>so_in = [], so_out = [], so_io = [NetShort 3, NetIntr, NetOk]\<rparr>"
  have fits: "request_fits req"
    by (simp add: req_def empty_request_def request_fits_def request_types_def)
  have len: "length (EncodeRequest req) = 41"
    by (simp add: req_def empty_request_def EncodeRequest_def)
  have io: "no_net_fail (so_io s)" by (simp add: s_def no_net_fail_def)
  show ?thesis
    unfolding Let_def req_def [symmetric] s_def [symmetric]
    by (rule request_over_connection [OF fits _ io io])
      (use len in \<open>simp_all add: kMaxFrameBytes_def frame_bytes_def\<close>)
qed

end
