(* ===== verification/TxnCodec.thy ===== *)
theory TxnCodec
  imports Coding
begin

text \<open>
  The transactional key layout of \<open>src/txn/codec.h\<close> and \<open>codec.cc\<close>: user keys are escaped so
  that a suffix can follow them without disturbing their order, timestamps are stored
  complemented and big-endian so that newer versions come first, and three prefixes separate
  locks, write records and data.  The lemmas show that escaping is invertible and preserves
  the order of keys, that write keys of one user key are ordered newest first, that keys of
  different kinds never meet, and that lock and write records decode to themselves.
\<close>

subsection \<open>Escaped keys\<close>

definition kLockPrefix :: bytes where
  "kLockPrefix = str ''!l''"

definition kWritePrefix :: bytes where
  "kWritePrefix = str ''!w''"

definition kDataPrefix :: bytes where
  "kDataPrefix = str ''!d''"

definition escape_byte :: "byte \<Rightarrow> bytes" where
  "escape_byte c = (if c = 0 then [0, 255] else [c])"

definition escape_body :: "bytes \<Rightarrow> bytes" where
  "escape_body user_key = concat (map escape_byte user_key)"

definition EscapeKey :: "bytes \<Rightarrow> bytes" where
  "EscapeKey user_key = escape_body user_key @ [0, 1]"

text \<open>The key and the number of bytes consumed, or nothing.\<close>

fun UnescapeKey :: "bytes \<Rightarrow> (bytes \<times> nat) option" where
  "UnescapeKey [] = None"
| "UnescapeKey (c # cs) =
     (if c \<noteq> 0 then map_option (\<lambda>(k, n). (c # k, Suc n)) (UnescapeKey cs)
      else case cs of
        [] \<Rightarrow> None
      | d # ds \<Rightarrow>
          if d = 1 then Some ([], 2)
          else if d = 255 then map_option (\<lambda>(k, n). (0 # k, Suc (Suc n))) (UnescapeKey ds)
          else None)"

subsection \<open>Inverted timestamps\<close>

definition AppendInvertedTs :: "u64 \<Rightarrow> bytes" where
  "AppendInvertedTs ts = map (\<lambda>i. ucast (drop_bit (8 * i) (NOT ts))) (rev [0..<8])"

definition ReadInvertedTs :: "bytes \<Rightarrow> u64" where
  "ReadInvertedTs b = NOT (foldl (\<lambda>inv c. push_bit 8 inv OR ucast c) 0 (take 8 b))"

subsection \<open>Keys and records\<close>

definition LockKey :: "bytes \<Rightarrow> bytes" where
  "LockKey user_key = kLockPrefix @ EscapeKey user_key"

definition WriteKey :: "bytes \<Rightarrow> u64 \<Rightarrow> bytes" where
  "WriteKey user_key commit_ts = kWritePrefix @ EscapeKey user_key @ AppendInvertedTs commit_ts"

definition DataKey :: "bytes \<Rightarrow> u64 \<Rightarrow> bytes" where
  "DataKey user_key start_ts = kDataPrefix @ EscapeKey user_key @ AppendInvertedTs start_ts"

definition ParseWriteKey :: "bytes \<Rightarrow> (bytes \<times> u64) option" where
  "ParseWriteKey key =
     (if length key < 2 \<or> take 2 key \<noteq> kWritePrefix then None
      else case UnescapeKey (drop 2 key) of
        None \<Rightarrow> None
      | Some (user_key, consumed) \<Rightarrow>
          (let rest = drop (2 + consumed) key
           in if length rest \<noteq> 8 then None else Some (user_key, ReadInvertedTs rest)))"

record LockRecord =
  lk_start_ts :: u64
  lk_op :: u8
  lk_wall_ms :: u64
  lk_primary :: bytes

definition empty_lock :: LockRecord where
  "empty_lock = \<lparr>lk_start_ts = 0, lk_op = 0, lk_wall_ms = 0, lk_primary = []\<rparr>"

datatype WriteKind = kWritePut | kWriteDelete | kWriteRollback

fun write_kind_value :: "WriteKind \<Rightarrow> u8" where
  "write_kind_value kWritePut = 1"
| "write_kind_value kWriteDelete = 2"
| "write_kind_value kWriteRollback = 3"

definition write_kind_of :: "u8 \<Rightarrow> WriteKind option" where
  "write_kind_of v =
     (if v = 1 then Some kWritePut else if v = 2 then Some kWriteDelete
      else if v = 3 then Some kWriteRollback else None)"

record WriteRecord =
  wr_kind :: WriteKind
  wr_start_ts :: u64

definition EncodeLock :: "LockRecord \<Rightarrow> bytes" where
  "EncodeLock lock =
     PutFixed64 (lk_start_ts lock) @ PutFixed8 (lk_op lock) @ PutFixed64 (lk_wall_ms lock) @
     PutLengthPrefixed (lk_primary lock)"

definition DecodeLock :: "bytes \<Rightarrow> LockRecord option" where
  "DecodeLock data =
     (let (start_ts, d) = U64 (Decoder data); (op, d) = U8 d; (wall_ms, d) = U64 d;
          (primary, d) = Str d
      in if dec_ok d \<and> remaining d = 0
         then Some \<lparr>lk_start_ts = start_ts, lk_op = op, lk_wall_ms = wall_ms, lk_primary = primary\<rparr>
         else None)"

definition EncodeWrite :: "WriteRecord \<Rightarrow> bytes" where
  "EncodeWrite rec = PutFixed8 (write_kind_value (wr_kind rec)) @ PutFixed64 (wr_start_ts rec)"

definition DecodeWrite :: "bytes \<Rightarrow> WriteRecord option" where
  "DecodeWrite data =
     (let (kind, d) = U8 (Decoder data); (start_ts, d) = U64 d
      in if dec_ok d \<and> remaining d = 0
         then (case write_kind_of kind of
                 None \<Rightarrow> None
               | Some k \<Rightarrow> Some \<lparr>wr_kind = k, wr_start_ts = start_ts\<rparr>)
         else None)"

subsection \<open>Escaping is invertible\<close>

lemma escape_body_simps [simp]:
  "escape_body [] = []" "escape_body (c # k) = escape_byte c @ escape_body k"
  by (simp_all add: escape_body_def)

lemma UnescapeKey_Escape:
  "UnescapeKey (EscapeKey k @ rest) = Some (k, length (EscapeKey k))"
  by (induction k) (auto simp: EscapeKey_def escape_byte_def)

lemma UnescapeKey_SomeD:
  "UnescapeKey data = Some (k, n) \<Longrightarrow> n \<le> length data \<and> take n data = EscapeKey k"
proof (induction data arbitrary: k n rule: UnescapeKey.induct)
  case 1
  then show ?case by simp
next
  case (2 c cs)
  show ?case
  proof (cases "c = 0")
    case False
    then obtain k' n' where "UnescapeKey cs = Some (k', n')" "k = c # k'" "n = Suc n'"
      using "2.prems" by auto
    then show ?thesis using "2.IH"(1) [OF False] False by (auto simp: EscapeKey_def escape_byte_def)
  next
    case True
    then obtain d ds where cs: "cs = d # ds" using "2.prems" by (cases cs) auto
    show ?thesis
    proof (cases "d = 1")
      case True
      then show ?thesis using \<open>c = 0\<close> cs "2.prems" by (auto simp: EscapeKey_def numeral_2_eq_2)
    next
      case d1: False
      then have d: "d = 255" using \<open>c = 0\<close> cs "2.prems" by (auto split: if_splits)
      then obtain k' n' where k': "UnescapeKey ds = Some (k', n')" "k = 0 # k'" "n = Suc (Suc n')"
        using \<open>c = 0\<close> cs "2.prems" by auto
      then have "n' \<le> length ds \<and> take n' ds = EscapeKey k'"
        using "2.IH"(2) [of d ds k' n'] \<open>c = 0\<close> cs d by simp
      then show ?thesis using k' \<open>c = 0\<close> cs d by (auto simp: EscapeKey_def escape_byte_def)
    qed
  qed
qed

lemma escape_less:
  "EscapeKey a @ s < EscapeKey b @ t \<longleftrightarrow> a < b \<or> a = b \<and> s < t"
proof (induction a arbitrary: b)
  case Nil
  show ?case
  proof (cases b)
    case (Cons d ds)
    then show ?thesis by (auto simp: EscapeKey_def escape_byte_def word_gt_0)
  qed (simp add: EscapeKey_def)
next
  case (Cons c cs)
  show ?case
  proof (cases b)
    case Nil
    then show ?thesis by (auto simp: EscapeKey_def escape_byte_def word_gt_0)
  next
    case (Cons d ds)
    then show ?thesis
      using Cons.IH [of ds] by (auto simp: EscapeKey_def escape_byte_def word_gt_0)
  qed
qed

lemma escape_inject: "EscapeKey a @ s = EscapeKey b @ t \<longleftrightarrow> a = b \<and> s = t"
  using UnescapeKey_Escape [of a s] UnescapeKey_Escape [of b t] by auto

text \<open>The seek position of a scan: the escaped start key without its terminator.\<close>

lemma escape_seek: "escape_body a \<le> EscapeKey b @ t \<longleftrightarrow> a \<le> b"
proof (induction a arbitrary: b)
  case Nil
  then show ?case by simp
next
  case (Cons c cs)
  show ?case
  proof (cases b)
    case Nil
    then show ?thesis by (auto simp: EscapeKey_def escape_byte_def word_gt_0 linorder_not_le)
  next
    case b: (Cons d ds)
    show ?thesis
      using Cons.IH [of ds] b
      by (auto simp: EscapeKey_def escape_byte_def word_gt_0 linorder_not_le [symmetric])
  qed
qed

subsection \<open>Newer timestamps come first\<close>

definition be_bytes :: "nat \<Rightarrow> u64 \<Rightarrow> bytes" where
  "be_bytes n v = rev (le_bytes n v)"

lemma be_bytes_Suc: "be_bytes (Suc n) v = ucast (drop_bit (8 * n) v) # be_bytes n v"
  by (simp add: be_bytes_def le_bytes_def)

lemma length_be_bytes [simp]: "length (be_bytes n v) = n"
  by (simp add: be_bytes_def)

lemma AppendInvertedTs_be: "AppendInvertedTs ts = be_bytes 8 (NOT ts)"
  by (simp add: AppendInvertedTs_def be_bytes_def le_bytes_def rev_map)

lemma unat_byte_at: "unat (ucast (drop_bit m v) :: byte) = unat v div 2 ^ m mod 256" for v :: u64
proof -
  have "unat (drop_bit m v) = unat v div 2 ^ m"
    using mod_less [OF unat_u64 [of v]]
    by (simp add: unsigned_drop_bit_eq take_bit_eq_mod drop_bit_eq_div [where 'a = nat])
  then show ?thesis by (simp only: unsigned_ucast_eq take_bit_eq_mod) simp
qed

lemma mod_mult_parts: "x mod (k * 256) = (x div k mod 256) * k + x mod k" for x k :: nat
  using mod_mult2_eq [of x k 256] by (simp add: mult.commute)

lemma digits_less:
  fixes a b r s k :: nat
  assumes "r < k" and "s < k"
  shows "a * k + r < b * k + s \<longleftrightarrow> a < b \<or> a = b \<and> r < s"
proof -
  have lt: "a * k + r < b * k + s" if "a < b" "r < k" for a b r s
  proof -
    have "Suc a * k \<le> b * k" using that by (simp del: mult_Suc)
    then show ?thesis using that by simp
  qed
  show ?thesis using lt [of a b r s] lt [of b a s r] assms by (metis less_asym linorder_less_linear nat_add_left_cancel_less)
qed

lemma be_bytes_less:
  "be_bytes n v < be_bytes n w \<longleftrightarrow> unat v mod 2 ^ (8 * n) < unat w mod 2 ^ (8 * n)"
proof (induction n)
  case 0
  then show ?case by (simp add: be_bytes_def le_bytes_def)
next
  case (Suc n)
  let ?k = "2 ^ (8 * n) :: nat"
  have pw: "2 ^ (8 * Suc n) = ?k * 256" by (simp add: power_add)
  have "be_bytes (Suc n) v < be_bytes (Suc n) w \<longleftrightarrow>
      unat v div ?k mod 256 < unat w div ?k mod 256 \<or>
      unat v div ?k mod 256 = unat w div ?k mod 256 \<and> unat v mod ?k < unat w mod ?k"
    by (simp add: be_bytes_Suc Suc word_less_nat_alt word_unat_eq_iff unat_byte_at)
  also have "\<dots> \<longleftrightarrow> unat v mod (?k * 256) < unat w mod (?k * 256)"
    unfolding mod_mult_parts by (rule digits_less [symmetric]) simp_all
  finally show ?case unfolding pw .
qed

lemma unat_not: "unat (NOT v) = 2 ^ 64 - 1 - unat v" for v :: u64
proof -
  have "NOT v = - 1 - v" unfolding not_eq_complement by (rule minus_diff_commute)
  moreover have "unat (- 1 - v) = unat (- 1 :: u64) - unat v"
    by (rule unat_sub) (rule word_order.extremum)
  ultimately show ?thesis by (simp only: unat_max_u64)
qed

lemma AppendInvertedTs_less [simp]: "AppendInvertedTs a < AppendInvertedTs b \<longleftrightarrow> b < a"
proof -
  have m: "unat v mod 2 ^ (8 * 8) = unat v" for v :: u64
    by (rule mod_less) (use unat_u64 [of v] in simp)
  have "AppendInvertedTs a < AppendInvertedTs b \<longleftrightarrow> unat (NOT a) < unat (NOT b)"
    unfolding AppendInvertedTs_be be_bytes_less m ..
  also have "\<dots> \<longleftrightarrow> unat b < unat a"
    unfolding unat_not using unat_u64 [of a] unat_u64 [of b] by linarith
  finally show ?thesis unfolding word_less_nat_alt .
qed

lemma length_AppendInvertedTs [simp]: "length (AppendInvertedTs ts) = 8"
  by (simp add: AppendInvertedTs_be)

lemma foldl_be_bytes:
  "foldl (\<lambda>inv c. push_bit 8 inv OR ucast c) u (be_bytes n v) =
     push_bit (8 * n) u OR take_bit (8 * n) v" for u v :: u64
proof (induction n arbitrary: u)
  case 0
  then show ?case by (simp add: be_bytes_def le_bytes_def)
next
  case (Suc n)
  show ?case
    unfolding be_bytes_Suc foldl_Cons Suc
  proof (rule bit_word_eqI)
    have c: "8 + 8 * n = 8 * n + 8" by simp
    fix m assume "m < LENGTH(64)"
    then show "bit (push_bit (8 * n) (push_bit 8 u OR ucast (ucast (drop_bit (8 * n) v) :: byte)) OR
                 take_bit (8 * n) v) m =
               bit (push_bit (8 * Suc n) u OR take_bit (8 * Suc n) v) m"
      by (cases "m < 8 * n"; cases "m < 8 * n + 8") (auto simp: bit_simps diff_diff_eq c)
  qed
qed

lemma ReadInvertedTs_Append [simp]: "ReadInvertedTs (AppendInvertedTs ts) = ts"
proof -
  have "foldl (\<lambda>inv c. push_bit 8 inv OR ucast c) 0 (AppendInvertedTs ts) = NOT ts"
    by (simp add: AppendInvertedTs_be foldl_be_bytes take_bit_word_eq_self)
  then show ?thesis by (simp add: ReadInvertedTs_def)
qed

lemma AppendInvertedTs_inject [simp]: "AppendInvertedTs a = AppendInvertedTs b \<longleftrightarrow> a = b"
  by (metis ReadInvertedTs_Append)

lemma AppendInvertedTs_le [simp]: "AppendInvertedTs a \<le> AppendInvertedTs b \<longleftrightarrow> b \<le> a"
  by (simp add: linorder_not_less [symmetric])

subsection \<open>Keys of the three columns\<close>

lemma prefixes [simp]:
  "length kLockPrefix = 2" "length kWritePrefix = 2" "length kDataPrefix = 2"
  "kLockPrefix = kWritePrefix \<longleftrightarrow> False" "kLockPrefix = kDataPrefix \<longleftrightarrow> False"
  "kWritePrefix = kDataPrefix \<longleftrightarrow> False" "kWritePrefix = kLockPrefix \<longleftrightarrow> False"
  "kDataPrefix = kLockPrefix \<longleftrightarrow> False" "kDataPrefix = kWritePrefix \<longleftrightarrow> False"
  by (simp_all add: kLockPrefix_def kWritePrefix_def kDataPrefix_def)

lemma prefix_order: "kDataPrefix < kLockPrefix" "kLockPrefix < kWritePrefix" "kDataPrefix < kWritePrefix"
  by (simp_all add: kLockPrefix_def kWritePrefix_def kDataPrefix_def str_def)

lemma take2_keys [simp]:
  "take 2 (LockKey k) = kLockPrefix" "take 2 (WriteKey k ts) = kWritePrefix" "take 2 (DataKey k ts) = kDataPrefix"
  by (simp_all add: LockKey_def WriteKey_def DataKey_def)

lemma columns_distinct [simp]:
  "LockKey a \<noteq> WriteKey b t" "LockKey a \<noteq> DataKey b t" "WriteKey a s \<noteq> DataKey b t"
  "WriteKey b t \<noteq> LockKey a" "DataKey b t \<noteq> LockKey a" "DataKey b t \<noteq> WriteKey a s"
  by (metis prefixes(4-9) take2_keys)+

lemma LockKey_inject [simp]: "LockKey a = LockKey b \<longleftrightarrow> a = b"
  using escape_inject [of a "[]" b "[]"] by (simp add: LockKey_def)

lemma WriteKey_inject [simp]: "WriteKey a s = WriteKey b t \<longleftrightarrow> a = b \<and> s = t"
  by (simp add: WriteKey_def escape_inject)

lemma DataKey_inject [simp]: "DataKey a s = DataKey b t \<longleftrightarrow> a = b \<and> s = t"
  by (simp add: DataKey_def escape_inject)

lemma WriteKey_less: "WriteKey a s < WriteKey b t \<longleftrightarrow> a < b \<or> a = b \<and> t < s"
  by (simp add: WriteKey_def escape_less)

lemma WriteKey_le: "WriteKey a s \<le> WriteKey b t \<longleftrightarrow> a < b \<or> a = b \<and> t \<le> s"
  by (auto simp: linorder_not_less [symmetric] WriteKey_less)

lemma LockKey_less: "LockKey a < LockKey b \<longleftrightarrow> a < b"
  using escape_less [of a "[]" b "[]"] by (simp add: LockKey_def)

lemma ParseWriteKey_WriteKey [simp]: "ParseWriteKey (WriteKey k ts) = Some (k, ts)"
proof -
  have d: "drop 2 (WriteKey k ts) = EscapeKey k @ AppendInvertedTs ts"
    "drop (2 + length (EscapeKey k)) (WriteKey k ts) = AppendInvertedTs ts"
    by (simp_all add: WriteKey_def)
  show ?thesis
    unfolding ParseWriteKey_def d UnescapeKey_Escape by (simp add: d Let_def WriteKey_def)
qed

lemma le_bytes_cong:
  assumes "\<And>m. m < 8 * n \<Longrightarrow> bit v m = bit w m"
  shows "le_bytes n v = le_bytes n (w :: u64)"
  unfolding le_bytes_def
proof (rule map_cong [OF refl])
  fix i assume "i \<in> set [0..<n]"
  then have "8 * i + m < 8 * n" if "m < 8" for m using that by auto
  then show "(ucast (drop_bit (8 * i) v) :: byte) = ucast (drop_bit (8 * i) w)"
    using assms by (intro bit_word_eqI) (auto simp: bit_simps)
qed

lemma be_bytes_foldl:
  "length b \<le> 8 \<Longrightarrow> be_bytes (length b) (foldl (\<lambda>inv c. push_bit 8 inv OR ucast c) (0 :: u64) b) = b"
proof (induction b rule: rev_induct)
  case Nil
  then show ?case by (simp add: be_bytes_def le_bytes_def)
next
  case (snoc c b)
  let ?F = "foldl (\<lambda>inv c. push_bit 8 inv OR ucast c) (0 :: u64) b"
  have low: "ucast (push_bit 8 ?F OR ucast c) = c"
    by (rule bit_word_eqI) (auto simp: bit_simps)
  have "le_bytes (length b) (drop_bit 8 (push_bit 8 ?F OR ucast c)) = le_bytes (length b) ?F"
    by (rule le_bytes_cong) (use snoc.prems in \<open>auto simp: bit_simps dest: bit_imp_le_length\<close>)
  then have "be_bytes (length (b @ [c])) (push_bit 8 ?F OR ucast c) = be_bytes (length b) ?F @ [c]"
    by (simp add: be_bytes_def le_bytes_Suc low)
  then show ?case using snoc by simp
qed

lemma ReadInvertedTs_inverse: "length b = 8 \<Longrightarrow> AppendInvertedTs (ReadInvertedTs b) = b"
  using be_bytes_foldl [of b] by (simp add: AppendInvertedTs_be ReadInvertedTs_def)

lemma ParseWriteKey_SomeD:
  assumes "ParseWriteKey key = Some (k, ts)"
  shows "key = WriteKey k ts"
proof -
  have pre: "take 2 key = kWritePrefix"
    using assms by (simp add: ParseWriteKey_def split: if_splits)
  obtain n where n: "UnescapeKey (drop 2 key) = Some (k, n)" "length (drop (2 + n) key) = 8"
      "ts = ReadInvertedTs (drop (2 + n) key)"
    using assms unfolding ParseWriteKey_def Let_def
    by (simp split: if_splits option.splits prod.splits del: length_drop)
  have e: "take n (drop 2 key) = EscapeKey k" using UnescapeKey_SomeD [OF n(1)] by (rule conjunct2)
  have "drop n (drop 2 key) = drop (2 + n) key" by (simp add: add.commute)
  also have "\<dots> = AppendInvertedTs ts" unfolding n(3) by (rule ReadInvertedTs_inverse [OF n(2), symmetric])
  finally have t: "drop n (drop 2 key) = AppendInvertedTs ts" .
  have "key = take 2 key @ take n (drop 2 key) @ drop n (drop 2 key)"
    by (simp only: append_take_drop_id)
  then show ?thesis unfolding pre e t WriteKey_def .
qed

lemma ParseWriteKey_iff: "ParseWriteKey key = Some (k, ts) \<longleftrightarrow> key = WriteKey k ts"
  using ParseWriteKey_SomeD ParseWriteKey_WriteKey by blast

subsection \<open>Records decode to themselves\<close>

lemma DecodeLock_Encode: "size32 (lk_primary lock) \<Longrightarrow> DecodeLock (EncodeLock lock) = Some lock"
  by (simp add: DecodeLock_def EncodeLock_def codec)

lemma write_kind_of_value [simp]: "write_kind_of (write_kind_value k) = Some k"
  by (cases k) (simp_all add: write_kind_of_def)

lemma DecodeWrite_Encode [simp]: "DecodeWrite (EncodeWrite rec) = Some rec"
  by (simp add: DecodeWrite_def EncodeWrite_def codec)

lemma WriteKey_seek: "kWritePrefix @ escape_body a \<le> WriteKey b t \<longleftrightarrow> a \<le> b"
  by (simp add: WriteKey_def escape_seek)

text \<open>
  (C31) The keys of the three columns order and parse as the transaction layer needs.  Parsing
  accepts exactly the write keys; write keys sort by user key and, for one user key, newest
  commit first; lock keys sort by user key; a seek to the escaped start of a key finds the
  write keys of that key and all later ones; and keys of different columns are never equal.
\<close>
theorem txn_key_order:
  "(ParseWriteKey key = Some (k, ts) \<longleftrightarrow> key = WriteKey k ts) \<and>
   (WriteKey a s < WriteKey b t \<longleftrightarrow> a < b \<or> a = b \<and> t < s) \<and>
   (LockKey a < LockKey b \<longleftrightarrow> a < b) \<and>
   (kWritePrefix @ escape_body a \<le> WriteKey b t \<longleftrightarrow> a \<le> b) \<and>
   (DataKey a s = DataKey b t \<longleftrightarrow> a = b \<and> s = t) \<and>
   LockKey a \<noteq> WriteKey b t \<and> LockKey a \<noteq> DataKey b t \<and> WriteKey a s \<noteq> DataKey b t"
  by (simp add: ParseWriteKey_iff WriteKey_less LockKey_less WriteKey_seek)

end
