(* ===== verification/KvStore.thy ===== *)
theory KvStore
  imports Status
begin

text \<open>
  The interface of a key-value store as the transaction layer and the replicated state machine use
  it: the operations of \<open>storage::DB\<close>, and the laws of a store without faults that holds a map.
  An iterator that was placed by \<open>SeekToFirst\<close> or \<open>Seek\<close> reads an unchanging view, and is the list of the pairs
  ahead of it.  Operations return nothing where they would not return.
\<close>

record 'd kv_ops =
  kv_Get :: "bytes \<Rightarrow> 'd \<Rightarrow> (status, bytes) sum"
  kv_SeekToFirst :: "'d \<Rightarrow> (bytes \<times> bytes) list option"
  kv_Seek :: "bytes \<Rightarrow> 'd \<Rightarrow> (bytes \<times> bytes) list option"
  kv_Put :: "bytes \<Rightarrow> bytes \<Rightarrow> 'd \<Rightarrow> (status \<times> 'd) option"
  kv_Delete :: "bytes \<Rightarrow> 'd \<Rightarrow> (status \<times> 'd) option"

text \<open>A key and a value within the size of a request.\<close>

definition kv_small :: "bytes \<Rightarrow> bytes \<Rightarrow> bool" where
  "kv_small k v \<longleftrightarrow> length k + length v \<le> 2 ^ 25"

lemma kv_small_Nil: "kv_small k v \<Longrightarrow> kv_small k []"
  by (simp add: kv_small_def)

text \<open>\<open>holds n d h\<close>: the store \<open>d\<close> shows the map \<open>h\<close> and accepts \<open>n\<close> more writes.\<close>

locale kv_store =
  fixes ops :: "'d kv_ops" and holds :: "nat \<Rightarrow> 'd \<Rightarrow> (bytes \<rightharpoonup> bytes) \<Rightarrow> bool"
  assumes get: "holds n d h \<Longrightarrow> kv_Get ops k d = (case h k of None \<Rightarrow> Inl (NotFound []) | Some v \<Rightarrow> Inr v)"
    and first: "holds n d h \<Longrightarrow> \<exists>ps. kv_SeekToFirst ops d = Some ps \<and> sorted_wrt (<) (map fst ps) \<and> (\<forall>k. map_of ps k = h k)"
    and seek: "holds n d h \<Longrightarrow> \<exists>ps. kv_Seek ops k d = Some ps \<and> sorted_wrt (<) (map fst ps) \<and>
      (\<forall>k'. map_of ps k' = (if k \<le> k' then h k' else None))"
    and put: "holds (Suc n) d h \<Longrightarrow> kv_small k v \<Longrightarrow>
      \<exists>s d'. kv_Put ops k v d = Some (s, d') \<and> is_ok s \<and> holds n d' (h(k \<mapsto> v))"
    and del: "holds (Suc n) d h \<Longrightarrow> kv_small k [] \<Longrightarrow>
      \<exists>s d'. kv_Delete ops k d = Some (s, d') \<and> is_ok s \<and> holds n d' (h(k := None))"
    and less: "holds n d h \<Longrightarrow> m \<le> n \<Longrightarrow> holds m d h"
begin

lemma get_NotFound: "holds n d h \<Longrightarrow> h k = None \<Longrightarrow> kv_Get ops k d = Inl (NotFound [])"
  by (simp add: get)

lemma get_found: "holds n d h \<Longrightarrow> h k = Some v \<Longrightarrow> kv_Get ops k d = Inr v"
  by (simp add: get)

end

end
