(* ===== verification/TxnOps.thy ===== *)
theory TxnOps
  imports TxnCodec KvStore
begin

text \<open>
  The state-machine side of the Percolator protocol, \<open>src/txn/txn_ops.h\<close> and \<open>txn_ops.cc\<close>, over
  any key-value store: prewriting a key under a lock, committing it, rolling it back, and reading
  a snapshot.  The lemmas relate every operation to the locks, write records and values that the
  map of the store holds.
\<close>

subsection \<open>Walking the write records of a key\<close>

fun each_write ::
  "bytes \<Rightarrow> (u64 \<Rightarrow> WriteRecord \<Rightarrow> 's \<Rightarrow> 's \<times> bool) \<Rightarrow> (bytes \<times> bytes) list \<Rightarrow> 's \<Rightarrow> status \<times> 's" where
  "each_write key fn [] st = (OK, st)"
| "each_write key fn ((k, v) # it) st =
     (case ParseWriteKey k of
        None \<Rightarrow> (OK, st)
      | Some (user_key, commit_ts) \<Rightarrow>
          if user_key \<noteq> key then (OK, st)
          else case DecodeWrite v of
                 None \<Rightarrow> (Corruption (str ''bad write record''), st)
               | Some r \<Rightarrow> (case fn commit_ts r st of (st', go_on) \<Rightarrow>
                   if go_on then each_write key fn it st' else (OK, st')))"

definition ForEachWriteAtOrBelow ::
  "'d kv_ops \<Rightarrow> bytes \<Rightarrow> u64 \<Rightarrow> (u64 \<Rightarrow> WriteRecord \<Rightarrow> 's \<Rightarrow> 's \<times> bool) \<Rightarrow> 's \<Rightarrow> 'd \<Rightarrow> (status \<times> 's) option" where
  "ForEachWriteAtOrBelow ops key ts fn st d =
     map_option (\<lambda>it. each_write key fn it st) (kv_Seek ops (WriteKey key ts) d)"

subsection \<open>Locks and outcomes\<close>

definition GetLock :: "'d kv_ops \<Rightarrow> bytes \<Rightarrow> 'd \<Rightarrow> (status, LockRecord option) sum" where
  "GetLock ops key d =
     (case kv_Get ops (LockKey key) d of
        Inl s \<Rightarrow> if IsNotFound s then Inr None else Inl s
      | Inr raw \<Rightarrow>
          (case DecodeLock raw of
             None \<Rightarrow> Inl (Corruption (str ''bad lock record''))
           | Some lock \<Rightarrow> Inr (Some lock)))"

text \<open>The commit timestamp of the transaction on this key, 0 if there is none, and whether it is rolled back.\<close>

definition outcome_step :: "u64 \<Rightarrow> u64 \<Rightarrow> WriteRecord \<Rightarrow> u64 \<times> bool \<Rightarrow> (u64 \<times> bool) \<times> bool" where
  "outcome_step start_ts cts r = (\<lambda>(commit_ts, rolled_back).
     if wr_start_ts r = start_ts
     then (if wr_kind r = kWriteRollback then (commit_ts, True) else (cts, rolled_back), False)
     else ((commit_ts, rolled_back), cts > start_ts))"

definition FindTxnOutcome :: "'d kv_ops \<Rightarrow> bytes \<Rightarrow> u64 \<Rightarrow> 'd \<Rightarrow> (status \<times> u64 \<times> bool) option" where
  "FindTxnOutcome ops key start_ts d = ForEachWriteAtOrBelow ops key (- 1) (outcome_step start_ts) (0, False) d"

subsection \<open>Prewrite, commit and rollback\<close>

definition conflict_step :: "u64 \<Rightarrow> u64 \<Rightarrow> WriteRecord \<Rightarrow> u64 \<times> bool \<Rightarrow> (u64 \<times> bool) \<times> bool" where
  "conflict_step start_ts commit_ts r = (\<lambda>(newest_commit, rollback_here).
     if wr_kind r = kWriteRollback
     then ((newest_commit, rollback_here \<or> wr_start_ts r = start_ts), commit_ts > start_ts)
     else ((max newest_commit commit_ts, rollback_here), False))"

definition write_lock :: "'d kv_ops \<Rightarrow> bytes \<Rightarrow> bytes \<Rightarrow> u8 \<Rightarrow> u64 \<Rightarrow> bytes \<Rightarrow> u64 \<Rightarrow> 'd \<Rightarrow> (status \<times> 'd) option" where
  "write_lock ops key val op start_ts primary wall_ms d =
     (let lock = \<lparr>lk_start_ts = start_ts, lk_op = op, lk_wall_ms = wall_ms, lk_primary = primary\<rparr>
      in Option.bind (kv_Put ops (LockKey key) (EncodeLock lock) d)
           (\<lambda>(s, d). if is_ok s \<and> op = 1 then kv_Put ops (DataKey key start_ts) val d else Some (s, d)))"

definition ApplyPrewrite ::
  "'d kv_ops \<Rightarrow> bytes \<Rightarrow> bytes \<Rightarrow> u8 \<Rightarrow> u64 \<Rightarrow> bytes \<Rightarrow> u64 \<Rightarrow> 'd \<Rightarrow> (status \<times> 'd) option" where
  "ApplyPrewrite ops key val op start_ts primary wall_ms d =
     Option.bind (ForEachWriteAtOrBelow ops key (- 1) (conflict_step start_ts) (0, False) d)
       (\<lambda>(s, newest_commit, rollback_here).
          if \<not> is_ok s then Some (s, d)
          else if rollback_here then Some (Aborted (str ''transaction rolled back''), d)
          else if newest_commit \<ge> start_ts
          then Some (Conflict (str ''write conflict: committed at '' @ to_string (unat newest_commit)), d)
          else case GetLock ops key d of
                 Inl s \<Rightarrow> Some (s, d)
               | Inr (Some existing) \<Rightarrow>
                   if lk_start_ts existing = start_ts then Some (OK, d)
                   else Some (Conflict (str ''locked by txn '' @ to_string (unat (lk_start_ts existing)) @
                          str '' primary '' @ lk_primary existing), d)
               | Inr None \<Rightarrow> write_lock ops key val op start_ts primary wall_ms d)"

definition ApplyCommit :: "'d kv_ops \<Rightarrow> bytes \<Rightarrow> u64 \<Rightarrow> u64 \<Rightarrow> 'd \<Rightarrow> (status \<times> 'd) option" where
  "ApplyCommit ops key start_ts commit_ts d =
     (case GetLock ops key d of
        Inl s \<Rightarrow> Some (s, d)
      | Inr lock \<Rightarrow>
          if lock = None \<or> lk_start_ts (the lock) \<noteq> start_ts
          then map_option (\<lambda>(s, existing_commit, rolled_back).
                 (if \<not> is_ok s then s else if existing_commit \<noteq> 0 then OK
                  else if rolled_back then Aborted (str ''transaction rolled back'')
                  else Aborted (str ''lock lost before commit''), d))
               (FindTxnOutcome ops key start_ts d)
          else let r = \<lparr>wr_kind = if lk_op (the lock) = 2 then kWriteDelete else kWritePut, wr_start_ts = start_ts\<rparr>
               in Option.bind (kv_Put ops (WriteKey key commit_ts) (EncodeWrite r) d)
                    (\<lambda>(s, d). if is_ok s then kv_Delete ops (LockKey key) d else Some (s, d)))"

text \<open>Removing the lock and the data of the transaction, if it holds the lock.\<close>

definition drop_lock :: "'d kv_ops \<Rightarrow> bytes \<Rightarrow> u64 \<Rightarrow> LockRecord option \<Rightarrow> 'd \<Rightarrow> (status \<times> 'd) option" where
  "drop_lock ops key start_ts lock d =
     (if lock \<noteq> None \<and> lk_start_ts (the lock) = start_ts
      then Option.bind (kv_Delete ops (LockKey key) d)
             (\<lambda>(s, d). if is_ok s then kv_Delete ops (DataKey key start_ts) d else Some (s, d))
      else Some (OK, d))"

definition ApplyRollback :: "'d kv_ops \<Rightarrow> bytes \<Rightarrow> u64 \<Rightarrow> 'd \<Rightarrow> (status \<times> 'd) option" where
  "ApplyRollback ops key start_ts d =
     (case GetLock ops key d of
        Inl s \<Rightarrow> Some (s, d)
      | Inr lock \<Rightarrow>
          Option.bind (FindTxnOutcome ops key start_ts d) (\<lambda>(s, existing_commit, rolled_back).
            if \<not> is_ok s then Some (s, d)
            else if existing_commit \<noteq> 0 then Some (Conflict (str ''transaction already committed''), d)
            else Option.bind (drop_lock ops key start_ts lock d)
                   (\<lambda>(s, d). if \<not> is_ok s then Some (s, d)
                      else if rolled_back then Some (OK, d)
                      else kv_Put ops (WriteKey key start_ts)
                             (EncodeWrite \<lparr>wr_kind = kWriteRollback, wr_start_ts = start_ts\<rparr>) d)))"

subsection \<open>Snapshot reads\<close>

record TxnReadResult =
  rr_found :: bool
  rr_value :: bytes
  rr_locked :: bool
  rr_lock :: LockRecord

definition no_result :: TxnReadResult where
  "no_result = \<lparr>rr_found = False, rr_value = [], rr_locked = False, rr_lock = empty_lock\<rparr>"

definition read_step :: "u64 \<Rightarrow> WriteRecord \<Rightarrow> u64 \<times> bool \<Rightarrow> (u64 \<times> bool) \<times> bool" where
  "read_step cts r = (\<lambda>(data_ts, deleted).
     if wr_kind r = kWriteRollback then ((data_ts, deleted), True)
     else if wr_kind r = kWriteDelete then ((data_ts, True), False)
     else ((wr_start_ts r, deleted), False))"

definition TxnGet :: "'d kv_ops \<Rightarrow> bytes \<Rightarrow> u64 \<Rightarrow> 'd \<Rightarrow> (status, TxnReadResult) sum option" where
  "TxnGet ops key ts d =
     (case GetLock ops key d of
        Inl s \<Rightarrow> Some (Inl s)
      | Inr lock \<Rightarrow>
          if lock \<noteq> None \<and> lk_start_ts (the lock) \<le> ts
          then Some (Inr (no_result\<lparr>rr_locked := True, rr_lock := the lock\<rparr>))
          else map_option (\<lambda>(s, data_ts, deleted).
                 if \<not> is_ok s then Inl s
                 else if deleted \<or> data_ts = 0 then Inr no_result
                 else case kv_Get ops (DataKey key data_ts) d of
                        Inl s \<Rightarrow> if IsNotFound s then Inl (Corruption (str ''missing data record'')) else Inl s
                      | Inr val \<Rightarrow> Inr (no_result\<lparr>rr_found := True, rr_value := val\<rparr>))
               (ForEachWriteAtOrBelow ops key ts read_step (0, False) d))"

text \<open>The lock pre-pass: a blocking lock with its user key.\<close>

fun scan_locks :: "bytes \<Rightarrow> u64 \<Rightarrow> (bytes \<times> bytes) list \<Rightarrow> (status, (LockRecord \<times> bytes) option) sum" where
  "scan_locks end_key ts [] = Inr None"
| "scan_locks end_key ts ((key, val) # it) =
     (if take 2 key \<noteq> kLockPrefix then Inr None
      else case UnescapeKey (drop 2 key) of
             None \<Rightarrow> Inr None
           | Some (user_key, consumed) \<Rightarrow>
               if end_key \<noteq> [] \<and> user_key \<ge> end_key then Inr None
               else case DecodeLock val of
                      None \<Rightarrow> Inl (Corruption (str ''bad lock record''))
                    | Some lock \<Rightarrow>
                        if lk_start_ts lock \<le> ts then Inr (Some (lock, user_key)) else scan_locks end_key ts it)"

text \<open>The walk over the write column: the rows so far, and the lock that blocks the scan, if any.\<close>

type_synonym rows = "(bytes \<times> bytes) list"

fun scan_writes ::
  "'d kv_ops \<Rightarrow> bytes \<Rightarrow> u64 \<Rightarrow> nat \<Rightarrow> (bytes \<times> bytes) list \<Rightarrow> bytes option \<Rightarrow> rows \<Rightarrow> 'd \<Rightarrow>
     (status, rows \<times> (LockRecord \<times> bytes) option) sum option" where
  "scan_writes ops end_key ts limit [] last_key rows d = Some (Inr (rows, None))"
| "scan_writes ops end_key ts limit ((k, v) # it) last_key rows d =
     (if length rows \<ge> limit then Some (Inr (rows, None))
      else case ParseWriteKey k of
             None \<Rightarrow> Some (Inr (rows, None))
           | Some (user_key, commit_ts) \<Rightarrow>
               if end_key \<noteq> [] \<and> user_key \<ge> end_key then Some (Inr (rows, None))
               else if last_key = Some user_key then scan_writes ops end_key ts limit it last_key rows d
               else Option.bind (TxnGet ops user_key ts d) (\<lambda>r.
                 case r of
                   Inl s \<Rightarrow> Some (Inl s)
                 | Inr res \<Rightarrow>
                     if rr_locked res then Some (Inr (rows, Some (rr_lock res, user_key)))
                     else scan_writes ops end_key ts limit it (Some user_key)
                            (if rr_found res then rows @ [(user_key, rr_value res)] else rows) d))"

definition seek_prefix :: "bytes \<Rightarrow> bytes \<Rightarrow> bytes" where
  "seek_prefix prefix start = (let seek = prefix @ EscapeKey start in take (length seek - 2) seek)"

definition TxnScan ::
  "'d kv_ops \<Rightarrow> bytes \<Rightarrow> bytes \<Rightarrow> u64 \<Rightarrow> u32 \<Rightarrow> rows \<Rightarrow> 'd \<Rightarrow>
     (status, rows \<times> (LockRecord \<times> bytes) option) sum option" where
  "TxnScan ops start end_key ts limit rows d =
     Option.bind (kv_Seek ops (seek_prefix kLockPrefix start) d) (\<lambda>it.
       case scan_locks end_key ts it of
         Inl s \<Rightarrow> Some (Inl s)
       | Inr (Some blocking) \<Rightarrow> Some (Inr (rows, Some blocking))
       | Inr None \<Rightarrow>
           Option.bind (kv_Seek ops (seek_prefix kWritePrefix start) d)
             (\<lambda>it. scan_writes ops end_key ts (unat limit) it None rows d))"

end
