(* ===== verification/TxnSpec.thy ===== *)
theory TxnSpec
  imports TxnOps
begin

text \<open>
  What the transaction operations do to the map of the store: locks, write records and values as
  functions of the map, the reference behaviour of prewrite, commit, rollback and snapshot read,
  and the invariant behind snapshot isolation.  The operations of \<open>TxnOps\<close> refine the reference
  over every store that satisfies the laws of \<open>kv_store\<close>.
\<close>

subsection \<open>The columns of a map\<close>

type_synonym kv_map = "bytes \<rightharpoonup> bytes"

definition lock_at :: "kv_map \<Rightarrow> bytes \<Rightarrow> LockRecord option" where
  "lock_at h k = Option.bind (h (LockKey k)) DecodeLock"

definition write_at :: "kv_map \<Rightarrow> bytes \<Rightarrow> u64 \<Rightarrow> WriteRecord option" where
  "write_at h k c = Option.bind (h (WriteKey k c)) DecodeWrite"

text \<open>Every record of the columns decodes, and no foreign key is among them.\<close>

definition columns_ok :: "kv_map \<Rightarrow> bool" where
  "columns_ok h \<longleftrightarrow>
     (\<forall>x\<in>dom h. take 2 x = kLockPrefix \<longrightarrow> (\<exists>k. x = LockKey k)) \<and>
     (\<forall>x\<in>dom h. take 2 x = kWritePrefix \<longrightarrow> (\<exists>k c. x = WriteKey k c)) \<and>
     (\<forall>k. h (LockKey k) \<noteq> None \<longrightarrow> lock_at h k \<noteq> None) \<and>
     (\<forall>k c. h (WriteKey k c) \<noteq> None \<longrightarrow> write_at h k c \<noteq> None)"

subsection \<open>The records of a key, newest first\<close>

lemma between_prefix:
  fixes p :: bytes
  assumes "p @ a \<le> x" and "x \<le> p @ b"
  shows "take (length p) x = p"
  using assms
proof (induction p arbitrary: x)
  case (Cons c p)
  then obtain d y where x: "x = d # y" by (cases x) auto
  then have "c = d" "p @ a \<le> y" "y \<le> p @ b" using Cons.prems by auto
  then show ?case using Cons.IH x by simp
qed simp

lemma WriteKey_between:
  assumes "WriteKey a s \<le> x" and "x \<le> WriteKey b t"
  shows "take 2 x = kWritePrefix"
  using between_prefix [of kWritePrefix _ x] assms by (simp add: WriteKey_def)

fun key_writes :: "bytes \<Rightarrow> (bytes \<times> bytes) list \<Rightarrow> (u64 \<times> WriteRecord) list" where
  "key_writes key [] = []"
| "key_writes key ((k, v) # it) =
     (case (ParseWriteKey k, DecodeWrite v) of
        (Some (u, c), Some r) \<Rightarrow> if u = key then (c, r) # key_writes key it else []
      | _ \<Rightarrow> [])"

fun run :: "('a \<Rightarrow> 's \<Rightarrow> 's \<times> bool) \<Rightarrow> 'a list \<Rightarrow> 's \<Rightarrow> 's" where
  "run fn [] st = st"
| "run fn (x # xs) st = (case fn x st of (st', go_on) \<Rightarrow> if go_on then run fn xs st' else st')"

lemma each_write_run:
  assumes "\<forall>(k, v)\<in>set it. \<forall>c. k = WriteKey key c \<longrightarrow> DecodeWrite v \<noteq> None"
  shows "each_write key fn it st = (OK, run (\<lambda>(c, r). fn c r) (key_writes key it) st)"
  using assms
proof (induction it arbitrary: st)
  case (Cons x it)
  obtain k v where x: "x = (k, v)" by fastforce
  show ?case
  proof (cases "\<exists>c. k = WriteKey key c")
    case True
    then obtain c where k: "k = WriteKey key c" by blast
    then obtain r where "DecodeWrite v = Some r" using Cons.prems x by auto
    then show ?thesis using Cons x k by (auto split: prod.splits)
  next
    case False
    then show ?thesis using x by (auto simp: ParseWriteKey_iff split: option.splits)
  qed
qed simp

lemma key_writes_spec:
  assumes "sorted_wrt (<) (map fst it)"
    and "\<forall>(x, v)\<in>set it. WriteKey key ts \<le> x \<and> (take 2 x = kWritePrefix \<longrightarrow> (\<exists>k c. x = WriteKey k c)) \<and>
      (\<forall>c. x = WriteKey key c \<longrightarrow> DecodeWrite v \<noteq> None)"
  shows "set (key_writes key it) = {(c, r). \<exists>v. (WriteKey key c, v) \<in> set it \<and> DecodeWrite v = Some r} \<and>
    sorted_wrt (\<lambda>a b. fst b < fst a) (key_writes key it)"
  using assms
proof (induction it)
  case (Cons y it)
  obtain x v where y: "y = (x, v)" by fastforce
  have later: "x < z" if "(z, u) \<in> set it" for z u using Cons.prems(1) that y by force
  have IH: "set (key_writes key it) = {(c, r). \<exists>v. (WriteKey key c, v) \<in> set it \<and> DecodeWrite v = Some r}"
    "sorted_wrt (\<lambda>a b. fst b < fst a) (key_writes key it)" using Cons by auto
  show ?case
  proof (cases "\<exists>c. x = WriteKey key c")
    case True
    then obtain c where x: "x = WriteKey key c" by blast
    then obtain r where r: "DecodeWrite v = Some r" using Cons.prems(2) y by auto
    have "\<forall>(c', r')\<in>set (key_writes key it). c' < c"
      unfolding IH(1) by (auto dest!: later simp: x WriteKey_less)
    then show ?thesis using IH r y x by (auto simp: case_prod_beta)
  next
    case False
    have none: "(WriteKey key c, u) \<notin> set it" for c u
    proof
      assume a: "(WriteKey key c, u) \<in> set it"
      have b: "WriteKey key ts \<le> x" "x \<le> WriteKey key c" using Cons.prems(2) y later [OF a] by auto
      then obtain k' c' where x: "x = WriteKey k' c'" using WriteKey_between [OF b] Cons.prems(2) y by auto
      then have "k' = key" using b by (auto simp: WriteKey_le)
      then show False using False x by blast
    qed
    have "key_writes key (y # it) = []"
      using False y by (auto simp: ParseWriteKey_iff split: option.splits)
    then show ?thesis using none False y by auto
  qed
qed simp

text \<open>The list of all records of a key up to a timestamp.\<close>

definition records :: "kv_map \<Rightarrow> bytes \<Rightarrow> u64 \<Rightarrow> (u64 \<times> WriteRecord) list \<Rightarrow> bool" where
  "records h k ts ws \<longleftrightarrow> set ws = {(c, r). c \<le> ts \<and> write_at h k c = Some r} \<and> sorted_wrt (\<lambda>a b. fst b < fst a) ws"

lemma recordsD: "records h k ts ws \<Longrightarrow> (c, r) \<in> set ws \<longleftrightarrow> c \<le> ts \<and> write_at h k c = Some r"
  by (simp add: records_def)

context kv_store
begin

lemma each_record:
  assumes "holds n d h" and "columns_ok h"
  shows "\<exists>ws. records h k ts ws \<and>
    (\<forall>fn (st :: 's). ForEachWriteAtOrBelow ops k ts fn st d = Some (OK, run (\<lambda>(c, r). fn c r) ws st))"
proof -
  obtain ps where ps: "kv_Seek ops (WriteKey k ts) d = Some ps" "sorted_wrt (<) (map fst ps)"
      "\<forall>k'. map_of ps k' = (if WriteKey k ts \<le> k' then h k' else None)"
    using seek [OF assms(1)] by blast
  have dist: "distinct (map fst ps)" using ps(2) strict_sorted_iff by blast
  have mem: "(x, v) \<in> set ps \<longleftrightarrow> WriteKey k ts \<le> x \<and> h x = Some v" for x v
    using map_of_eq_Some_iff [OF dist, of x v] ps(3) by (auto split: if_splits)
  have ok: "\<forall>(x, v)\<in>set ps. WriteKey k ts \<le> x \<and> (take 2 x = kWritePrefix \<longrightarrow> (\<exists>k c. x = WriteKey k c)) \<and>
      (\<forall>c. x = WriteKey k c \<longrightarrow> DecodeWrite v \<noteq> None)"
    using assms(2) unfolding columns_ok_def write_at_def by (force simp: mem)
  have r: "records h k ts (key_writes k ps)"
    using key_writes_spec [OF ps(2) ok] unfolding records_def write_at_def
    by (auto simp: mem WriteKey_le bind_eq_Some_conv)
  have "ForEachWriteAtOrBelow ops k ts fn st d = Some (OK, run (\<lambda>(c, r). fn c r) (key_writes k ps) st)" for fn and st :: 's
    using each_write_run [of ps k fn st] ok ps(1) by (simp add: ForEachWriteAtOrBelow_def case_prod_beta)
  then show ?thesis using r by blast
qed

lemma GetLock_spec: "holds n d h \<Longrightarrow> columns_ok h \<Longrightarrow> GetLock ops k d = Inr (lock_at h k)"
  unfolding columns_ok_def lock_at_def
  by (auto simp: GetLock_def get IsNotFound_def split: option.splits)

end

subsection \<open>What the walks find\<close>

definition is_commit :: "WriteRecord \<Rightarrow> bool" where
  "is_commit r \<longleftrightarrow> wr_kind r \<noteq> kWriteRollback"

text \<open>Commits come after the start of their transaction, markers sit at it.\<close>

definition slots_ok :: "kv_map \<Rightarrow> bool" where
  "slots_ok h \<longleftrightarrow> (\<forall>k c r. write_at h k c = Some r \<longrightarrow>
     (if is_commit r then wr_start_ts r < c \<and> wr_start_ts r \<noteq> 0 else wr_start_ts r = c))"

text \<open>A prewrite at \<open>s\<close> comes too late: a commit at or after \<open>s\<close>, or a rollback of \<open>s\<close>.\<close>

definition too_late :: "kv_map \<Rightarrow> bytes \<Rightarrow> u64 \<Rightarrow> bool" where
  "too_late h k s \<longleftrightarrow> (\<exists>c r. write_at h k c = Some r \<and> (if is_commit r then s \<le> c else c = s))"

lemma conflict_run:
  assumes "sorted_wrt (\<lambda>a b. fst b < fst a) ws" and "\<forall>(c, r)\<in>set ws. \<not> is_commit r \<longrightarrow> wr_start_ts r = c" and "s \<noteq> 0"
  shows "(case run (\<lambda>(c, r). conflict_step s c r) ws (0, False) of (n, b) \<Rightarrow> b \<or> s \<le> n) \<longleftrightarrow>
    (\<exists>(c, r)\<in>set ws. if is_commit r then s \<le> c else c = s)"
  using assms(1,2)
proof (induction ws)
  case Nil
  then show ?case using assms(3) by simp
next
  case (Cons x ws)
  obtain c r where x: "x = (c, r)" by fastforce
  have rest: "c' < c" if "(c', r') \<in> set ws" for c' r' using Cons.prems(1) that x by force
  show ?case
  proof (cases "is_commit r")
    case True
    then have "run (\<lambda>(c, r). conflict_step s c r) (x # ws) (0, False) = (c, False)"
      by (simp add: x conflict_step_def is_commit_def)
    moreover have "s \<le> c" if "(c', r') \<in> set ws" "if is_commit r' then s \<le> c' else c' = s" for c' r'
      using rest [OF that(1)] that(2) by (auto split: if_splits)
    ultimately show ?thesis using True x by (auto split: if_splits) (metis (no_types, lifting))
  next
    case False
    then have sr: "wr_start_ts r = c" using Cons.prems(2) x by auto
    show ?thesis
    proof (cases "s < c")
      case True
      then have "run (\<lambda>(c, r). conflict_step s c r) (x # ws) (0, False) = run (\<lambda>(c, r). conflict_step s c r) ws (0, False)"
        using False sr less_imp_neq [OF True] by (auto simp: x conflict_step_def is_commit_def)
      then show ?thesis using Cons True False x by auto
    next
      case le: False
      have "run (\<lambda>(c, r). conflict_step s c r) (x # ws) (0, False) = (0, c = s)"
        using False sr le by (simp add: x conflict_step_def is_commit_def)
      moreover have "\<not> (\<exists>(c, r)\<in>set ws. if is_commit r then s \<le> c else c = s)"
        using rest le by (force split: if_splits)
      moreover have "(\<exists>(c, r)\<in>set (x # ws). if is_commit r then s \<le> c else c = s) \<longleftrightarrow>
          c = s \<or> (\<exists>(c, r)\<in>set ws. if is_commit r then s \<le> c else c = s)" using False x by simp
      ultimately show ?thesis using assms(3) by auto
    qed
  qed
qed

text \<open>The outcome of the transaction with start \<open>s\<close> on a key.\<close>

lemma outcome_run:
  assumes "sorted_wrt (\<lambda>a b. fst b < fst a) ws"
    and "\<forall>(c, r)\<in>set ws. if is_commit r then wr_start_ts r < c else wr_start_ts r = c"
  shows "case run (\<lambda>(c, r). outcome_step s c r) ws (0, False) of (n, b) \<Rightarrow>
    (if \<exists>(c, r)\<in>set ws. is_commit r \<and> wr_start_ts r = s then (\<exists>r. (n, r) \<in> set ws \<and> is_commit r \<and> wr_start_ts r = s)
     else n = 0 \<and> (b \<longleftrightarrow> (\<exists>r. (s, r) \<in> set ws \<and> \<not> is_commit r)))"
  using assms
proof (induction ws)
  case (Cons x ws)
  obtain c r where x: "x = (c, r)" by fastforce
  have rest: "c' < c" if "(c', r') \<in> set ws" for c' r' using Cons.prems(1) that x by force
  have ok: "if is_commit r' then wr_start_ts r' < c' else wr_start_ts r' = c'" if "(c', r') \<in> set ws" for c' r'
    using Cons.prems(2) that by auto
  show ?case
  proof (cases "wr_start_ts r = s")
    case True
    have out: "run (\<lambda>(c, r). outcome_step s c r) (x # ws) (0, False) = (if is_commit r then (c, False) else (0, True))"
      using True by (simp add: x outcome_step_def is_commit_def)
    have "\<not> (is_commit r' \<and> wr_start_ts r' = s)" if "(c', r') \<in> set ws" "\<not> is_commit r" for c' r'
      using rest [OF that(1)] ok [OF that(1)] True Cons.prems(2) x that(2) by auto
    then show ?thesis unfolding out using True Cons.prems(2) x by (auto split: if_splits)
  next
    case False
    show ?thesis
    proof (cases "s < c")
      case True
      then have "run (\<lambda>(c, r). outcome_step s c r) (x # ws) (0, False) = run (\<lambda>(c, r). outcome_step s c r) ws (0, False)"
        using False by (simp add: x outcome_step_def)
      moreover have "(\<exists>(c, r)\<in>set (x # ws). is_commit r \<and> wr_start_ts r = s) \<longleftrightarrow> (\<exists>(c, r)\<in>set ws. is_commit r \<and> wr_start_ts r = s)"
        using False x by auto
      moreover have "(\<exists>r. (n, r) \<in> set (x # ws) \<and> is_commit r \<and> wr_start_ts r = s) \<longleftrightarrow>
          (\<exists>r. (n, r) \<in> set ws \<and> is_commit r \<and> wr_start_ts r = s)" for n
        using False x by auto
      moreover have "(\<exists>r. (s, r) \<in> set (x # ws) \<and> \<not> is_commit r) \<longleftrightarrow> (\<exists>r. (s, r) \<in> set ws \<and> \<not> is_commit r)"
        using True x by auto
      moreover have "sorted_wrt (\<lambda>a b. fst b < fst a) ws"
        "\<forall>(c, r)\<in>set ws. if is_commit r then wr_start_ts r < c else wr_start_ts r = c" using Cons.prems by auto
      ultimately show ?thesis using Cons.IH by presburger
    next
      case le: False
      have out: "run (\<lambda>(c, r). outcome_step s c r) (x # ws) (0, False) = (0, False)"
        using False le by (simp add: x outcome_step_def)
      have no: "\<not> (is_commit r' \<and> wr_start_ts r' = s) \<and> c' \<noteq> s" if "(c', r') \<in> set ws" for c' r'
        using rest [OF that] ok [OF that] le by (auto split: if_splits)
      then show ?thesis unfolding out using False le x Cons.prems(2) by auto
    qed
  qed
qed simp

subsection \<open>Reference behaviour\<close>

definition committed :: "kv_map \<Rightarrow> bytes \<Rightarrow> u64 \<Rightarrow> bool" where
  "committed h k s \<longleftrightarrow> (\<exists>c r. write_at h k c = Some r \<and> is_commit r \<and> wr_start_ts r = s)"

definition rolled_back :: "kv_map \<Rightarrow> bytes \<Rightarrow> u64 \<Rightarrow> bool" where
  "rolled_back h k s \<longleftrightarrow> (\<exists>r. write_at h k s = Some r \<and> \<not> is_commit r)"

definition holds_lock :: "kv_map \<Rightarrow> bytes \<Rightarrow> u64 \<Rightarrow> bool" where
  "holds_lock h k s \<longleftrightarrow> (\<exists>l. lock_at h k = Some l \<and> lk_start_ts l = s)"

definition locked_map :: "kv_map \<Rightarrow> bytes \<Rightarrow> bytes \<Rightarrow> LockRecord \<Rightarrow> kv_map" where
  "locked_map h k val l =
     (let h = h(LockKey k \<mapsto> EncodeLock l) in if lk_op l = 1 then h(DataKey k (lk_start_ts l) \<mapsto> val) else h)"

definition prewrite_ref :: "kv_map \<Rightarrow> bytes \<Rightarrow> bytes \<Rightarrow> LockRecord \<Rightarrow> bool \<Rightarrow> kv_map \<Rightarrow> bool" where
  "prewrite_ref h k val l ok h' \<longleftrightarrow>
     (if too_late h k (lk_start_ts l) then \<not> ok \<and> h' = h
      else if lock_at h k = None then ok \<and> h' = locked_map h k val l
      else (ok \<longleftrightarrow> holds_lock h k (lk_start_ts l)) \<and> h' = h)"

definition commit_record :: "LockRecord \<Rightarrow> WriteRecord" where
  "commit_record l = \<lparr>wr_kind = if lk_op l = 2 then kWriteDelete else kWritePut, wr_start_ts = lk_start_ts l\<rparr>"

definition commit_ref :: "kv_map \<Rightarrow> bytes \<Rightarrow> u64 \<Rightarrow> u64 \<Rightarrow> bool \<Rightarrow> kv_map \<Rightarrow> bool" where
  "commit_ref h k s c ok h' \<longleftrightarrow>
     (if holds_lock h k s
      then ok \<and> h' = h(WriteKey k c \<mapsto> EncodeWrite (commit_record (the (lock_at h k))), LockKey k := None)
      else (ok \<longleftrightarrow> committed h k s) \<and> h' = h)"

definition rollback_marker :: "u64 \<Rightarrow> WriteRecord" where
  "rollback_marker s = \<lparr>wr_kind = kWriteRollback, wr_start_ts = s\<rparr>"

definition rollback_ref :: "kv_map \<Rightarrow> bytes \<Rightarrow> u64 \<Rightarrow> bool \<Rightarrow> kv_map \<Rightarrow> bool" where
  "rollback_ref h k s ok h' \<longleftrightarrow>
     (if committed h k s then \<not> ok \<and> h' = h
      else ok \<and> (let h1 = (if holds_lock h k s then h(LockKey k := None, DataKey k s := None) else h)
                 in h' = (if rolled_back h k s then h1 else h1(WriteKey k s \<mapsto> EncodeWrite (rollback_marker s)))))"

text \<open>The last commit that a snapshot at \<open>ts\<close> sees, and its value.\<close>

definition last_commit :: "kv_map \<Rightarrow> bytes \<Rightarrow> u64 \<Rightarrow> u64 \<Rightarrow> WriteRecord \<Rightarrow> bool" where
  "last_commit h k ts c r \<longleftrightarrow> c \<le> ts \<and> write_at h k c = Some r \<and> is_commit r \<and>
     (\<forall>c' r'. c' \<le> ts \<and> write_at h k c' = Some r' \<and> is_commit r' \<longrightarrow> c' \<le> c)"

definition snapshot :: "kv_map \<Rightarrow> bytes \<Rightarrow> u64 \<Rightarrow> bytes option \<Rightarrow> bool" where
  "snapshot h k ts v \<longleftrightarrow>
     (if \<exists>c r. last_commit h k ts c r
      then \<exists>c r. last_commit h k ts c r \<and> v = (if wr_kind r = kWritePut then h (DataKey k (wr_start_ts r)) else None)
      else v = None)"

definition read_ref :: "kv_map \<Rightarrow> bytes \<Rightarrow> u64 \<Rightarrow> TxnReadResult \<Rightarrow> bool" where
  "read_ref h k ts res \<longleftrightarrow>
     (if \<exists>l. lock_at h k = Some l \<and> lk_start_ts l \<le> ts
      then res = no_result\<lparr>rr_locked := True, rr_lock := the (lock_at h k)\<rparr>
      else \<exists>v. snapshot h k ts v \<and>
        res = (case v of None \<Rightarrow> no_result | Some val \<Rightarrow> no_result\<lparr>rr_found := True, rr_value := val\<rparr>))"

definition data_ok :: "kv_map \<Rightarrow> bool" where
  "data_ok h \<longleftrightarrow> (\<forall>k c r. write_at h k c = Some r \<and> wr_kind r = kWritePut \<longrightarrow> h (DataKey k (wr_start_ts r)) \<noteq> None)"

lemma last_commit_unique: "last_commit h k ts c r \<Longrightarrow> last_commit h k ts c' r' \<Longrightarrow> c = c' \<and> r = r'"
  unfolding last_commit_def by (metis option.inject order_antisym)

lemma read_run:
  assumes "records h k ts ws"
  shows "if \<exists>c r. last_commit h k ts c r
     then \<exists>c r. last_commit h k ts c r \<and>
       run (\<lambda>(c, r). read_step c r) ws (0, False) = (if wr_kind r = kWriteDelete then (0, True) else (wr_start_ts r, False))
     else run (\<lambda>(c, r). read_step c r) ws (0, False) = (0, False)"
proof -
  have s: "sorted_wrt (\<lambda>a b. fst b < fst a) ws" using assms by (simp add: records_def)
  then have g: "(if \<exists>(c, r)\<in>set ws. is_commit r
      then \<exists>c r. (c, r) \<in> set ws \<and> is_commit r \<and> (\<forall>(c', r')\<in>set ws. is_commit r' \<longrightarrow> c' \<le> c) \<and>
        run (\<lambda>(c, r). read_step c r) ws (0, False) = (if wr_kind r = kWriteDelete then (0, True) else (wr_start_ts r, False))
      else run (\<lambda>(c, r). read_step c r) ws (0, False) = (0, False))"
  proof (induction ws)
    case (Cons x ws)
    obtain c r where x: "x = (c, r)" by fastforce
    have rest: "\<forall>(c', r')\<in>set ws. c' \<le> c" using Cons.prems x by force
    show ?case
    proof (cases "is_commit r")
      case True
      then have "run (\<lambda>(c, r). read_step c r) (x # ws) (0, False) = (if wr_kind r = kWriteDelete then (0, True) else (wr_start_ts r, False))"
        by (simp add: x read_step_def is_commit_def)
      then show ?thesis using True rest x by (auto intro!: exI [of _ c] exI [of _ r])
    next
      case False
      then have "run (\<lambda>(c, r). read_step c r) (x # ws) (0, False) = run (\<lambda>(c, r). read_step c r) ws (0, False)"
        by (simp add: x read_step_def is_commit_def)
      then show ?thesis using Cons False x by (auto split: if_splits)
    qed
  qed simp
  have lc: "last_commit h k ts c r \<longleftrightarrow> (c, r) \<in> set ws \<and> is_commit r \<and> (\<forall>(c', r')\<in>set ws. is_commit r' \<longrightarrow> c' \<le> c)" for c r
    using assms unfolding last_commit_def records_def by auto
  have "(\<exists>(c, r)\<in>set ws. is_commit r) \<longleftrightarrow> (\<exists>c r. last_commit h k ts c r)"
    using g unfolding lc by (auto split: if_splits)
  then show ?thesis using g unfolding lc by auto
qed

subsection \<open>The operations refine the reference\<close>

definition txn_fits :: "bytes \<Rightarrow> bytes \<Rightarrow> bytes \<Rightarrow> bool" where
  "txn_fits k val primary \<longleftrightarrow> 2 * length k + length val + length primary + 40 \<le> 2 ^ 25"

lemma length_EscapeKey: "length (EscapeKey k) \<le> 2 * length k + 2"
  by (induction k) (simp_all add: EscapeKey_def escape_byte_def)

lemma txn_fitsD:
  assumes "txn_fits k val primary"
  shows "kv_small (LockKey k) (EncodeLock (l\<lparr>lk_primary := primary\<rparr>))"
    "kv_small (DataKey k s) val" "kv_small (WriteKey k s) (EncodeWrite r)" "kv_small (LockKey k) []" "kv_small (DataKey k s) []"
    "size32 primary"
  using assms length_EscapeKey [of k]
  by (simp_all add: txn_fits_def kv_small_def LockKey_def DataKey_def WriteKey_def EncodeLock_def EncodeWrite_def)

context kv_store
begin

lemma prewrite_refines:
  assumes h: "holds (Suc (Suc n)) d h" and ok: "columns_ok h" "slots_ok h" and s: "s \<noteq> 0" and fits: "txn_fits k val primary"
  shows "\<exists>st d' h'. ApplyPrewrite ops k val op s primary wall d = Some (st, d') \<and> holds n d' h' \<and>
    prewrite_ref h k val \<lparr>lk_start_ts = s, lk_op = op, lk_wall_ms = wall, lk_primary = primary\<rparr> (is_ok st) h'"
proof -
  let ?l = "\<lparr>lk_start_ts = s, lk_op = op, lk_wall_ms = wall, lk_primary = primary\<rparr>"
  obtain ws where ws: "records h k (- 1) ws"
      "ForEachWriteAtOrBelow ops k (- 1) (conflict_step s) (0, False) d = Some (OK, run (\<lambda>(c, r). conflict_step s c r) ws (0, False))"
    using each_record [OF h ok(1), where 's = "u64 \<times> bool"] by blast
  obtain nc rb where r: "run (\<lambda>(c, r). conflict_step s c r) ws (0, False) = (nc, rb)" by fastforce
  have "(rb \<or> s \<le> nc) \<longleftrightarrow> (\<exists>(c, r)\<in>set ws. if is_commit r then s \<le> c else c = s)"
    using conflict_run [of ws s] ws(1) ok(2) s r unfolding records_def slots_ok_def by auto
  then have late: "(rb \<or> s \<le> nc) \<longleftrightarrow> too_late h k s"
    using ws(1) unfolding too_late_def records_def by auto
  have weak: "holds n d h" by (rule less [OF h]) simp
  have eq: "ApplyPrewrite ops k val op s primary wall d =
      (if too_late h k s then Some (if rb then Aborted (str ''transaction rolled back'')
         else Conflict (str ''write conflict: committed at '' @ to_string (unat nc)), d)
       else case lock_at h k of
         None \<Rightarrow> write_lock ops k val op s primary wall d
       | Some l \<Rightarrow> if lk_start_ts l = s then Some (OK, d)
           else Some (Conflict (str ''locked by txn '' @ to_string (unat (lk_start_ts l)) @ str '' primary '' @ lk_primary l), d))"
    using ws(2) r late [symmetric] by (auto simp: ApplyPrewrite_def GetLock_spec [OF h ok(1)] split: option.splits)
  show ?thesis
  proof (cases "too_late h k s \<or> lock_at h k \<noteq> None")
    case True
    then show ?thesis unfolding eq using weak by (auto simp: prewrite_ref_def holds_lock_def split: option.splits)
  next
    case False
    obtain s1 d1 where p1: "kv_Put ops (LockKey k) (EncodeLock ?l) d = Some (s1, d1)" "is_ok s1" "holds (Suc n) d1 (h(LockKey k \<mapsto> EncodeLock ?l))"
      using put [OF h, of "LockKey k" "EncodeLock ?l"] txn_fitsD(1) [OF fits, of "?l"] by auto
    obtain s2 d2 where p2: "kv_Put ops (DataKey k s) val d1 = Some (s2, d2)" "is_ok s2"
        "holds n d2 (h(LockKey k \<mapsto> EncodeLock ?l, DataKey k s \<mapsto> val))"
      using put [OF p1(3) txn_fitsD(2) [OF fits]] by blast
    have "write_lock ops k val op s primary wall d = (if op = 1 then Some (s2, d2) else Some (s1, d1))"
      using p1 p2 by (simp add: write_lock_def Let_def)
    then show ?thesis
      using False p1 p2 less [OF p1(3), of n] unfolding eq by (auto simp: prewrite_ref_def locked_map_def)
  qed
qed

lemma outcome_spec:
  assumes h: "holds n d h" and ok: "columns_ok h" "slots_ok h"
  shows "\<exists>ct rb. FindTxnOutcome ops k s d = Some (OK, ct, rb) \<and> (ct \<noteq> 0 \<longleftrightarrow> committed h k s) \<and>
    (\<not> committed h k s \<longrightarrow> (rb \<longleftrightarrow> rolled_back h k s))"
proof -
  obtain ws where ws: "records h k (- 1) ws"
      "ForEachWriteAtOrBelow ops k (- 1) (outcome_step s) (0, False) d = Some (OK, run (\<lambda>(c, r). outcome_step s c r) ws (0, False))"
    using each_record [OF h ok(1), where 's = "u64 \<times> bool"] by blast
  obtain ct rb where r: "run (\<lambda>(c, r). outcome_step s c r) ws (0, False) = (ct, rb)" by fastforce
  have slots: "\<forall>(c, r)\<in>set ws. if is_commit r then wr_start_ts r < c else wr_start_ts r = c"
    using ws(1) ok(2) unfolding records_def slots_ok_def by auto
  have c: "(\<exists>(c, r)\<in>set ws. is_commit r \<and> wr_start_ts r = s) \<longleftrightarrow> committed h k s"
    "(\<exists>r. (s, r) \<in> set ws \<and> \<not> is_commit r) \<longleftrightarrow> rolled_back h k s"
    using ws(1) unfolding records_def committed_def rolled_back_def by auto
  have "if committed h k s then (\<exists>r. (ct, r) \<in> set ws \<and> is_commit r \<and> wr_start_ts r = s) else ct = 0 \<and> (rb \<longleftrightarrow> rolled_back h k s)"
    using outcome_run [OF _ slots, of s] ws(1) r unfolding c records_def by auto
  moreover have "ct \<noteq> 0" if "(ct, r) \<in> set ws" "is_commit r" for r using slots that by auto
  ultimately show ?thesis using ws(2) r by (auto simp: FindTxnOutcome_def split: if_splits)
qed

lemma commit_refines:
  assumes h: "holds (Suc (Suc n)) d h" and ok: "columns_ok h" "slots_ok h" and fits: "txn_fits k [] []"
  shows "\<exists>st d' h'. ApplyCommit ops k s c d = Some (st, d') \<and> holds n d' h' \<and> commit_ref h k s c (is_ok st) h'"
proof (cases "holds_lock h k s")
  case False
  obtain ct rb where o: "FindTxnOutcome ops k s d = Some (OK, ct, rb)" "ct \<noteq> 0 \<longleftrightarrow> committed h k s"
    using outcome_spec [OF h ok] by blast
  have "lock_at h k = None \<or> lk_start_ts (the (lock_at h k)) \<noteq> s" using False by (auto simp: holds_lock_def)
  then show ?thesis
    using False o less [OF h, of n] by (auto simp: ApplyCommit_def GetLock_spec [OF h ok(1)] commit_ref_def)
next
  case True
  then obtain l where l: "lock_at h k = Some l" "lk_start_ts l = s" by (auto simp: holds_lock_def)
  let ?w = "EncodeWrite (commit_record l)"
  obtain s1 d1 where p1: "kv_Put ops (WriteKey k c) ?w d = Some (s1, d1)" "is_ok s1" "holds (Suc n) d1 (h(WriteKey k c \<mapsto> ?w))"
    using put [OF h txn_fitsD(3) [OF fits]] by blast
  obtain s2 d2 where p2: "kv_Delete ops (LockKey k) d1 = Some (s2, d2)" "is_ok s2"
      "holds n d2 (h(WriteKey k c \<mapsto> ?w, LockKey k := None))"
    using del [OF p1(3) txn_fitsD(4) [OF fits]] by blast
  have "ApplyCommit ops k s c d = Some (s2, d2)"
    using p1 p2 l by (simp add: ApplyCommit_def GetLock_spec [OF h ok(1)] commit_record_def)
  then show ?thesis using p2 True l by (auto simp: commit_ref_def)
qed

lemma rollback_refines:
  assumes h: "holds (Suc (Suc (Suc n))) d h" and ok: "columns_ok h" "slots_ok h" and fits: "txn_fits k [] []"
  shows "\<exists>st d' h'. ApplyRollback ops k s d = Some (st, d') \<and> holds n d' h' \<and> rollback_ref h k s (is_ok st) h'"
proof -
  obtain ct rb where o: "FindTxnOutcome ops k s d = Some (OK, ct, rb)" "ct \<noteq> 0 \<longleftrightarrow> committed h k s"
      "\<not> committed h k s \<longrightarrow> (rb \<longleftrightarrow> rolled_back h k s)"
    using outcome_spec [OF h ok] by blast
  show ?thesis
  proof (cases "committed h k s")
    case True
    then show ?thesis
      using o less [OF h, of n] by (auto simp: ApplyRollback_def GetLock_spec [OF h ok(1)] rollback_ref_def)
  next
    case False
    define h1 where "h1 = (if holds_lock h k s then h(LockKey k := None, DataKey k s := None) else h)"
    have "\<exists>s1 d1. drop_lock ops k s (lock_at h k) d = Some (s1, d1) \<and> is_ok s1 \<and> holds (Suc n) d1 h1"
    proof (cases "holds_lock h k s")
      case True
      obtain s1 d1 where p1: "kv_Delete ops (LockKey k) d = Some (s1, d1)" "is_ok s1" "holds (Suc (Suc n)) d1 (h(LockKey k := None))"
        using del [OF h txn_fitsD(4) [OF fits]] by blast
      obtain s2 d2 where p2: "kv_Delete ops (DataKey k s) d1 = Some (s2, d2)" "is_ok s2" "holds (Suc n) d2 (h(LockKey k := None, DataKey k s := None))"
        using del [OF p1(3) txn_fitsD(5) [OF fits]] by blast
      show ?thesis using True p1 p2 by (auto simp: drop_lock_def h1_def holds_lock_def)
    next
      case no: False
      have "holds (Suc n) d h" by (rule less [OF h]) simp
      then show ?thesis using no by (auto simp: drop_lock_def h1_def holds_lock_def)
    qed
    then obtain s1 d1 where d1: "drop_lock ops k s (lock_at h k) d = Some (s1, d1)" "is_ok s1" "holds (Suc n) d1 h1" by blast
    obtain s2 d2 where d2: "kv_Put ops (WriteKey k s) (EncodeWrite (rollback_marker s)) d1 = Some (s2, d2)" "is_ok s2"
        "holds n d2 (h1(WriteKey k s \<mapsto> EncodeWrite (rollback_marker s)))"
      using put [OF d1(3) txn_fitsD(3) [OF fits]] by blast
    have "ApplyRollback ops k s d = (if rb then Some (OK, d1) else Some (s2, d2))"
      using o False d1 d2 by (simp add: ApplyRollback_def GetLock_spec [OF h ok(1)] rollback_marker_def)
    then show ?thesis
      using False o(3) d1 d2 less [OF d1(3), of n] unfolding rollback_ref_def h1_def [symmetric] Let_def by auto
  qed
qed

text \<open>An unblocked read in terms of the walk over the records.\<close>

lemma read_walk:
  assumes h: "holds n d h" and ok: "columns_ok h" and nl: "\<not> (\<exists>l. lock_at h k = Some l \<and> lk_start_ts l \<le> ts)"
  shows "\<exists>ws. records h k ts ws \<and> TxnGet ops k ts d = Some (case run (\<lambda>(c, r). read_step c r) ws (0, False) of (data_ts, deleted) \<Rightarrow>
      if deleted \<or> data_ts = 0 then Inr no_result
      else case h (DataKey k data_ts) of None \<Rightarrow> Inl (Corruption (str ''missing data record''))
        | Some val \<Rightarrow> Inr (no_result\<lparr>rr_found := True, rr_value := val\<rparr>))"
proof -
  obtain ws where ws: "records h k ts ws"
      "ForEachWriteAtOrBelow ops k ts read_step (0, False) d = Some (OK, run (\<lambda>(c, r). read_step c r) ws (0, False))"
    using each_record [OF h ok, where 's = "u64 \<times> bool"] by blast
  then show ?thesis
    using nl by (intro exI [of _ ws])
      (auto simp: TxnGet_def GetLock_spec [OF h ok] get [OF h] IsNotFound_def split: option.splits prod.splits)
qed

lemma read_missing:
  assumes h: "holds n d h" and ok: "columns_ok h" "slots_ok h" and nl: "lock_at h k = None"
    and c: "last_commit h k ts c r" "wr_kind r = kWritePut" "h (DataKey k (wr_start_ts r)) = None"
  shows "TxnGet ops k ts d = Some (Inl (Corruption (str ''missing data record'')))"
proof -
  obtain ws where ws: "records h k ts ws" "TxnGet ops k ts d = Some (case run (\<lambda>(c, r). read_step c r) ws (0, False) of (data_ts, deleted) \<Rightarrow>
      if deleted \<or> data_ts = 0 then Inr no_result
      else case h (DataKey k data_ts) of None \<Rightarrow> Inl (Corruption (str ''missing data record''))
        | Some val \<Rightarrow> Inr (no_result\<lparr>rr_found := True, rr_value := val\<rparr>))"
    using read_walk [OF h ok(1), of k ts] nl by auto
  obtain c' r' where l: "last_commit h k ts c' r'"
      "run (\<lambda>(c, r). read_step c r) ws (0, False) = (if wr_kind r' = kWriteDelete then (0, True) else (wr_start_ts r', False))"
    using read_run [OF ws(1)] c(1) by (auto split: if_splits)
  have "run (\<lambda>(c, r). read_step c r) ws (0, False) = (wr_start_ts r, False)"
    using l(2) c(2) last_commit_unique [OF l(1) c(1)] by simp
  moreover have "wr_start_ts r \<noteq> 0" using ok(2) c(1) unfolding last_commit_def slots_ok_def by metis
  ultimately show ?thesis using ws(2) c(3) by simp
qed

lemma read_refines:
  assumes h: "holds n d h" and ok: "columns_ok h" "slots_ok h" "data_ok h"
  shows "\<exists>res. TxnGet ops k ts d = Some (Inr res) \<and> read_ref h k ts res"
proof (cases "\<exists>l. lock_at h k = Some l \<and> lk_start_ts l \<le> ts")
  case True
  then show ?thesis by (auto simp: TxnGet_def GetLock_spec [OF h ok(1)] read_ref_def)
next
  case False
  obtain ws where ws: "records h k ts ws" and eq: "TxnGet ops k ts d = Some (case run (\<lambda>(c, r). read_step c r) ws (0, False) of (data_ts, deleted) \<Rightarrow>
      if deleted \<or> data_ts = 0 then Inr no_result
      else case h (DataKey k data_ts) of None \<Rightarrow> Inl (Corruption (str ''missing data record''))
        | Some val \<Rightarrow> Inr (no_result\<lparr>rr_found := True, rr_value := val\<rparr>))"
    using read_walk [OF h ok(1) False] by blast
  let ?run = "run (\<lambda>(c, r). read_step c r) ws (0, False)"
  show ?thesis
  proof (cases "\<exists>c r. last_commit h k ts c r")
    case True
    then obtain c r where r: "last_commit h k ts c r"
        "?run = (if wr_kind r = kWriteDelete then (0, True) else (wr_start_ts r, False))"
      using read_run [OF ws] by auto
    have w: "write_at h k c = Some r" "is_commit r" using r(1) by (simp_all add: last_commit_def)
    then have nz: "wr_start_ts r \<noteq> 0" using ok(2) by (auto simp: slots_ok_def)
    define v where "v = (if wr_kind r = kWritePut then h (DataKey k (wr_start_ts r)) else None)"
    have "snapshot h k ts v" using True r(1) unfolding snapshot_def v_def by auto
    moreover have "TxnGet ops k ts d =
        Some (Inr (case v of None \<Rightarrow> no_result | Some val \<Rightarrow> no_result\<lparr>rr_found := True, rr_value := val\<rparr>))"
    proof (cases "wr_kind r")
      case kWritePut
      then obtain val where "h (DataKey k (wr_start_ts r)) = Some val" using ok(3) w(1) unfolding data_ok_def by blast
      then show ?thesis using eq r(2) nz kWritePut by (simp add: v_def)
    qed (use eq r(2) w(2) in \<open>simp_all add: v_def is_commit_def\<close>)
    ultimately show ?thesis unfolding read_ref_def using False by auto
  next
    case none: False
    then have "?run = (0, False)" using read_run [OF ws] by simp
    moreover have "snapshot h k ts None" using none by (simp add: snapshot_def)
    ultimately show ?thesis using eq False by (auto simp: read_ref_def)
  qed
qed

end

end
