(* ===== verification/TxnInv.thy ===== *)
theory TxnInv
  imports TxnSpec
begin

text \<open>
  The invariant of the transaction columns: locks and commits of one key never overlap in time, a
  transaction has at most one outcome on a key, and every committed value is there.  Prewrite,
  commit and rollback keep it, whatever the order in which transactions run them.
\<close>

subsection \<open>How updates change the columns\<close>

lemma write_at_upd [simp]:
  "write_at (h(LockKey k := x)) = write_at h" "write_at (h(DataKey k s := x)) = write_at h"
  "write_at (h(WriteKey k c \<mapsto> EncodeWrite r)) k' c' = (if k' = k \<and> c' = c then Some r else write_at h k' c')"
  by (auto simp: write_at_def fun_eq_iff)

lemma lock_at_upd [simp]:
  "lock_at (h(WriteKey k c := x)) = lock_at h" "lock_at (h(DataKey k s := x)) = lock_at h"
  "lock_at (h(LockKey k := None)) k' = (if k' = k then None else lock_at h k')"
  "size32 (lk_primary l) \<Longrightarrow> lock_at (h(LockKey k \<mapsto> EncodeLock l)) k' = (if k' = k then Some l else lock_at h k')"
  by (auto simp: lock_at_def fun_eq_iff DecodeLock_Encode)

lemma columns_ok_upd:
  assumes "columns_ok h"
  shows "columns_ok (h(LockKey k := None))" "columns_ok (h(DataKey k s := x))"
    "columns_ok (h(WriteKey k c \<mapsto> EncodeWrite r))" "size32 (lk_primary l) \<Longrightarrow> columns_ok (h(LockKey k \<mapsto> EncodeLock l))"
proof -
  have c: "\<And>x. h x \<noteq> None \<Longrightarrow> take 2 x = kLockPrefix \<Longrightarrow> \<exists>k. x = LockKey k"
    "\<And>x. h x \<noteq> None \<Longrightarrow> take 2 x = kWritePrefix \<Longrightarrow> \<exists>k c. x = WriteKey k c"
    "\<And>k. h (LockKey k) \<noteq> None \<Longrightarrow> lock_at h k \<noteq> None" "\<And>k c. h (WriteKey k c) \<noteq> None \<Longrightarrow> write_at h k c \<noteq> None"
    using assms unfolding columns_ok_def by blast+
  show "columns_ok (h(LockKey k := None))" "columns_ok (h(DataKey k s := x))"
    "columns_ok (h(WriteKey k c \<mapsto> EncodeWrite r))" "size32 (lk_primary l) \<Longrightarrow> columns_ok (h(LockKey k \<mapsto> EncodeLock l))"
    unfolding columns_ok_def using c by (auto simp: dom_def)
qed

subsection \<open>The invariant\<close>

definition locks_ok :: "kv_map \<Rightarrow> bool" where
  "locks_ok h \<longleftrightarrow> (\<forall>k l. lock_at h k = Some l \<longrightarrow> lk_start_ts l \<noteq> 0 \<and> (lk_op l = 1 \<or> lk_op l = 2) \<and>
     (lk_op l = 1 \<longrightarrow> h (DataKey k (lk_start_ts l)) \<noteq> None) \<and> \<not> too_late h k (lk_start_ts l))"

definition isolated :: "kv_map \<Rightarrow> bool" where
  "isolated h \<longleftrightarrow> (\<forall>k c1 r1 c2 r2. write_at h k c1 = Some r1 \<and> is_commit r1 \<and> write_at h k c2 = Some r2 \<and> is_commit r2 \<and>
     c1 < c2 \<longrightarrow> c1 < wr_start_ts r2)"

definition one_outcome :: "kv_map \<Rightarrow> bool" where
  "one_outcome h \<longleftrightarrow> (\<forall>k s. \<not> (committed h k s \<and> rolled_back h k s))"

definition txn_inv :: "kv_map \<Rightarrow> bool" where
  "txn_inv h \<longleftrightarrow> columns_ok h \<and> slots_ok h \<and> data_ok h \<and> locks_ok h \<and> isolated h \<and> one_outcome h"

lemma too_late_cong: "write_at h' = write_at h \<Longrightarrow> too_late h' = too_late h"
  by (simp add: too_late_def fun_eq_iff)

lemma outcomes_cong: "write_at h' = write_at h \<Longrightarrow> slots_ok h' = slots_ok h \<and> isolated h' = isolated h \<and> one_outcome h' = one_outcome h"
  by (simp add: slots_ok_def isolated_def one_outcome_def committed_def rolled_back_def)

lemma prewrite_inv:
  assumes inv: "txn_inv h" and p: "prewrite_ref h k val l ok h'"
    and l: "lk_start_ts l \<noteq> 0" "lk_op l = 1 \<or> lk_op l = 2" "size32 (lk_primary l)"
  shows "txn_inv h'"
proof (cases "too_late h k (lk_start_ts l) \<or> lock_at h k \<noteq> None")
  case True
  then have "h' = h" using p by (auto simp: prewrite_ref_def split: if_splits)
  then show ?thesis using inv by simp
next
  case False
  have h': "h' = locked_map h k val l" using p False by (simp add: prewrite_ref_def)
  have w: "write_at h' = write_at h" by (simp add: h' locked_map_def Let_def)
  have lk: "lock_at h' k' = (if k' = k then Some l else lock_at h k')" for k'
    using l(3) by (simp add: h' locked_map_def Let_def)
  have data: "h (DataKey k' s) \<noteq> None \<Longrightarrow> h' (DataKey k' s) \<noteq> None" "lk_op l = 1 \<Longrightarrow> h' (DataKey k (lk_start_ts l)) \<noteq> None" for k' s
    by (auto simp: h' locked_map_def Let_def)
  have "columns_ok h'" using inv l(3) columns_ok_upd by (simp add: txn_inv_def h' locked_map_def Let_def)
  moreover have "data_ok h'" using inv data(1) unfolding txn_inv_def data_ok_def w by blast
  moreover have "locks_ok h'"
    using inv data l False unfolding txn_inv_def locks_ok_def lk too_late_cong [OF w] by auto
  ultimately show ?thesis using inv outcomes_cong [OF w] by (simp add: txn_inv_def)
qed

lemma commit_inv:
  assumes inv: "txn_inv h" and p: "commit_ref h k s c ok h'" and c: "s < c"
  shows "txn_inv h'"
proof (cases "holds_lock h k s")
  case False
  then have "h' = h" using p by (simp add: commit_ref_def)
  then show ?thesis using inv by simp
next
  case True
  then obtain l where l: "lock_at h k = Some l" "lk_start_ts l = s" by (auto simp: holds_lock_def)
  let ?r = "commit_record l"
  have h': "h' = h(WriteKey k c \<mapsto> EncodeWrite ?r, LockKey k := None)" using p True l by (simp add: commit_ref_def)
  have r: "is_commit ?r" "wr_start_ts ?r = s" using l(2) by (simp_all add: commit_record_def is_commit_def)
  have L: "s \<noteq> 0" "lk_op l = 1 \<or> lk_op l = 2" "lk_op l = 1 \<longrightarrow> h (DataKey k s) \<noteq> None" "\<not> too_late h k s"
    using inv l unfolding txn_inv_def locks_ok_def by auto
  have w: "write_at h' k' c' = (if k' = k \<and> c' = c then Some ?r else write_at h k' c')" for k' c' by (simp add: h')
  have lk: "lock_at h' k' = (if k' = k then None else lock_at h k')" for k' by (simp add: h')
  have d: "h' (DataKey k' s') = h (DataKey k' s')" for k' s' by (simp add: h')
  have old: "c' < s" if "write_at h k c' = Some r'" "is_commit r'" for c' r' 
    using L(4) that unfolding too_late_def by (metis (no_types) leI)
  have no_mark: "\<not> rolled_back h k s" using L(4) unfolding too_late_def rolled_back_def by metis
  have "columns_ok h'" using inv columns_ok_upd by (simp add: txn_inv_def h')
  moreover have "slots_ok h'" using inv r c L(1) unfolding txn_inv_def slots_ok_def w by simp
  moreover have "data_ok h'"
  proof -
    have "h (DataKey k s) \<noteq> None" if "wr_kind ?r = kWritePut" using that L by (auto simp: commit_record_def split: if_splits)
    then show ?thesis using inv r(2) unfolding txn_inv_def data_ok_def w d by auto
  qed
  moreover have "locks_ok h'"
  proof -
    have "too_late h' k' s' = too_late h k' s'" if "k' \<noteq> k" for k' s' using that by (simp add: too_late_def w)
    then show ?thesis using inv unfolding txn_inv_def locks_ok_def lk d by auto
  qed
  moreover have "isolated h'"
  proof -
    have "c1 < wr_start_ts r2" if a: "write_at h' k' c1 = Some r1" "is_commit r1" "write_at h' k' c2 = Some r2" "is_commit r2" "c1 < c2" for k' c1 r1 c2 r2
    proof (cases "k' = k")
      case False
      then have "write_at h k' c1 = Some r1" "write_at h k' c2 = Some r2" using a unfolding w by simp_all
      then show ?thesis using inv a(2,4,5) unfolding txn_inv_def isolated_def by blast
    next
      case k: True
      show ?thesis
      proof (cases "c2 = c")
        case True
        then have "r2 = ?r" "write_at h k c1 = Some r1" using a k unfolding w by (simp_all split: if_splits)
        then show ?thesis using old a(2) r(2) by simp
      next
        case False
        then have c2: "write_at h k c2 = Some r2" using a k unfolding w by simp
        then have "c2 < s" using old a(4) by blast
        then have "write_at h k c1 = Some r1" using a k c unfolding w by (auto split: if_splits)
        then show ?thesis using inv a(2,4,5) c2 unfolding txn_inv_def isolated_def by blast
      qed
    qed
    then show ?thesis unfolding isolated_def by blast
  qed
  moreover have "one_outcome h'"
  proof -
    have "committed h' k' s' \<longrightarrow> committed h k' s' \<or> k' = k \<and> s' = s" "rolled_back h' k' s' \<longrightarrow> rolled_back h k' s'" for k' s'
      using r unfolding committed_def rolled_back_def w by (auto split: if_splits)
    then show ?thesis using inv no_mark unfolding txn_inv_def one_outcome_def by metis
  qed
  ultimately show ?thesis by (simp add: txn_inv_def)
qed

lemma rollback_inv:
  assumes inv: "txn_inv h" and p: "rollback_ref h k s ok h'" and s: "s \<noteq> 0"
  shows "txn_inv h'"
proof (cases "committed h k s")
  case True
  then have "h' = h" using p by (simp add: rollback_ref_def)
  then show ?thesis using inv by simp
next
  case open_txn: False
  define h1 where "h1 = (if holds_lock h k s then h(LockKey k := None, DataKey k s := None) else h)"
  have h': "h' = (if rolled_back h k s then h1 else h1(WriteKey k s \<mapsto> EncodeWrite (rollback_marker s)))"
    using p open_txn by (simp add: rollback_ref_def h1_def Let_def)
  have m: "\<not> is_commit (rollback_marker s)" "wr_start_ts (rollback_marker s) = s" by (simp_all add: is_commit_def rollback_marker_def)
  have w1: "write_at h1 = write_at h" by (simp add: h1_def)
  have w: "write_at h' k' c' = (if k' = k \<and> c' = s \<and> \<not> rolled_back h k s then Some (rollback_marker s) else write_at h k' c')" for k' c'
    by (simp add: h' w1)
  have lk: "lock_at h' k' = (if k' = k \<and> holds_lock h k s then None else lock_at h k')" for k' by (simp add: h' h1_def)
  have d: "h' (DataKey k' s') = (if k' = k \<and> s' = s \<and> holds_lock h k s then None else h (DataKey k' s'))" for k' s'
    by (simp add: h' h1_def)
  have com: "write_at h' k' c' = Some r \<and> is_commit r \<Longrightarrow> write_at h k' c' = Some r" for k' c' r
    using m(1) unfolding w by (auto split: if_splits)
  have "columns_ok h'" using inv columns_ok_upd by (simp add: txn_inv_def h' h1_def)
  moreover have "slots_ok h'" using inv m unfolding txn_inv_def slots_ok_def w by simp
  moreover have "data_ok h'"
    unfolding data_ok_def
  proof (intro allI impI)
    fix k' c' r
    assume a: "write_at h' k' c' = Some r \<and> wr_kind r = kWritePut"
    then have r: "write_at h k' c' = Some r" "is_commit r" using com [of k' c' r] by (auto simp: is_commit_def)
    then have "\<not> (k' = k \<and> wr_start_ts r = s)" using open_txn by (auto simp: committed_def)
    moreover have "h (DataKey k' (wr_start_ts r)) \<noteq> None" using inv a r unfolding txn_inv_def data_ok_def by blast
    ultimately show "h' (DataKey k' (wr_start_ts r)) \<noteq> None" unfolding d by auto
  qed
  moreover have "locks_ok h'"
    unfolding locks_ok_def
  proof (intro allI impI)
    fix k' l
    assume a: "lock_at h' k' = Some l"
    then have l: "lock_at h k' = Some l" "\<not> (k' = k \<and> holds_lock h k s)" unfolding lk by (simp_all split: if_splits)
    then have ne: "k' = k \<longrightarrow> lk_start_ts l \<noteq> s" by (auto simp: holds_lock_def)
    have L: "lk_start_ts l \<noteq> 0" "lk_op l = 1 \<or> lk_op l = 2" "lk_op l = 1 \<longrightarrow> h (DataKey k' (lk_start_ts l)) \<noteq> None"
        "\<not> too_late h k' (lk_start_ts l)" using inv l(1) unfolding txn_inv_def locks_ok_def by auto
    have "\<not> too_late h' k' (lk_start_ts l)"
      using L(4) ne m unfolding too_late_def w by (auto split: if_splits)
    then show "lk_start_ts l \<noteq> 0 \<and> (lk_op l = 1 \<or> lk_op l = 2) \<and> (lk_op l = 1 \<longrightarrow> h' (DataKey k' (lk_start_ts l)) \<noteq> None) \<and>
        \<not> too_late h' k' (lk_start_ts l)" using L(1-3) ne unfolding d by auto
  qed
  moreover have "isolated h'" using inv com unfolding txn_inv_def isolated_def by blast
  moreover have "one_outcome h'"
  proof -
    have "committed h' k' s' \<longrightarrow> committed h k' s'" for k' s' using com unfolding committed_def by blast
    moreover have "rolled_back h' k' s' \<longrightarrow> rolled_back h k' s' \<or> k' = k \<and> s' = s" for k' s'
      unfolding rolled_back_def w by (auto split: if_splits)
    ultimately show ?thesis using inv open_txn unfolding txn_inv_def one_outcome_def by metis
  qed
  ultimately show ?thesis by (simp add: txn_inv_def)
qed

subsection \<open>Snapshots do not change\<close>

text \<open>What a snapshot shows depends on the records up to its timestamp only.\<close>

lemma snapshot_cong:
  assumes "\<And>c. c \<le> ts \<Longrightarrow> write_at h' k c = write_at h k c \<or> (\<forall>r. write_at h k c = Some r \<longrightarrow> \<not> is_commit r) \<and> (\<forall>r. write_at h' k c = Some r \<longrightarrow> \<not> is_commit r)"
    and "\<And>c r. write_at h k c = Some r \<Longrightarrow> is_commit r \<Longrightarrow> c \<le> ts \<Longrightarrow> h' (DataKey k (wr_start_ts r)) = h (DataKey k (wr_start_ts r))"
  shows "snapshot h' k ts v \<longleftrightarrow> snapshot h k ts v"
proof -
  have e: "c \<le> ts \<and> write_at h' k c = Some r \<and> is_commit r \<longleftrightarrow> c \<le> ts \<and> write_at h k c = Some r \<and> is_commit r" for c r
    using assms(1) [of c] by (cases "c \<le> ts") auto
  have l: "last_commit h' k ts c r \<longleftrightarrow> last_commit h k ts c r" for c r
    unfolding last_commit_def using e by metis
  have d: "last_commit h k ts c r \<Longrightarrow> h' (DataKey k (wr_start_ts r)) = h (DataKey k (wr_start_ts r))" for c r
    using assms(2) unfolding last_commit_def by blast
  have "last_commit h k ts c r \<and> v = (if wr_kind r = kWritePut then h' (DataKey k (wr_start_ts r)) else None) \<longleftrightarrow>
      last_commit h k ts c r \<and> v = (if wr_kind r = kWritePut then h (DataKey k (wr_start_ts r)) else None)" for c r
    using d [of c r] by auto
  then show ?thesis unfolding snapshot_def l by simp
qed

text \<open>A read at \<open>ts\<close> that is not blocked.\<close>

definition reads_as :: "kv_map \<Rightarrow> bytes \<Rightarrow> u64 \<Rightarrow> bytes option \<Rightarrow> bool" where
  "reads_as h k ts v \<longleftrightarrow> (\<forall>l. lock_at h k = Some l \<longrightarrow> ts < lk_start_ts l) \<and> snapshot h k ts v"

lemma prewrite_readable:
  assumes inv: "txn_inv h" and p: "prewrite_ref h k val l ok h'" and l: "ts < lk_start_ts l" "size32 (lk_primary l)"
    and r: "reads_as h k' ts v"
  shows "reads_as h' k' ts v"
proof (cases "too_late h k (lk_start_ts l) \<or> lock_at h k \<noteq> None")
  case True
  then have "h' = h" using p by (auto simp: prewrite_ref_def split: if_splits)
  then show ?thesis using r by simp
next
  case False
  have h': "h' = locked_map h k val l" using p False by (simp add: prewrite_ref_def)
  have w: "write_at h' = write_at h" by (simp add: h' locked_map_def Let_def)
  have lk: "lock_at h' k'' = (if k'' = k then Some l else lock_at h k'')" for k''
    using l(2) by (simp add: h' locked_map_def Let_def)
  have "snapshot h' k' ts v \<longleftrightarrow> snapshot h k' ts v"
  proof (rule snapshot_cong)
    fix c r
    assume a: "write_at h k' c = Some r" "is_commit r" "c \<le> ts"
    then have "wr_start_ts r < c" using inv unfolding txn_inv_def slots_ok_def by metis
    then have "wr_start_ts r \<noteq> lk_start_ts l" using a(3) l(1) by auto
    then show "h' (DataKey k' (wr_start_ts r)) = h (DataKey k' (wr_start_ts r))" by (simp add: h' locked_map_def Let_def)
  qed (simp add: w)
  then show ?thesis using r l(1) unfolding reads_as_def lk by auto
qed

lemma commit_readable:
  assumes p: "commit_ref h k s c ok h'" and c: "ts < c" and r: "reads_as h k' ts v"
  shows "reads_as h' k' ts v"
proof (cases "holds_lock h k s")
  case True
  then obtain l where l: "lock_at h k = Some l" by (auto simp: holds_lock_def)
  have h': "h' = h(WriteKey k c \<mapsto> EncodeWrite (commit_record l), LockKey k := None)" using p True l by (simp add: commit_ref_def)
  have "snapshot h' k' ts v \<longleftrightarrow> snapshot h k' ts v"
    by (rule snapshot_cong) (use c in \<open>auto simp: h'\<close>)
  then show ?thesis using r unfolding reads_as_def by (auto simp: h')
qed (use p r in \<open>simp add: commit_ref_def\<close>)

text \<open>A rollback writes its marker into a slot that no commit uses, as timestamps are unique.\<close>

lemma rollback_readable:
  assumes inv: "txn_inv h" and p: "rollback_ref h k s ok h'" and u: "\<forall>r. write_at h k s = Some r \<longrightarrow> \<not> is_commit r"
    and r: "reads_as h k' ts v"
  shows "reads_as h' k' ts v"
proof (cases "committed h k s")
  case False
  define h1 where "h1 = (if holds_lock h k s then h(LockKey k := None, DataKey k s := None) else h)"
  have h': "h' = (if rolled_back h k s then h1 else h1(WriteKey k s \<mapsto> EncodeWrite (rollback_marker s)))"
    using p False by (simp add: rollback_ref_def h1_def Let_def)
  have w1: "write_at h1 = write_at h" by (simp add: h1_def)
  have w: "write_at h' k'' c' = (if k'' = k \<and> c' = s \<and> \<not> rolled_back h k s then Some (rollback_marker s) else write_at h k'' c')" for k'' c'
    by (simp add: h' w1)
  have lk: "lock_at h' k'' = (if k'' = k \<and> holds_lock h k s then None else lock_at h k'')" for k'' by (simp add: h' h1_def)
  have "snapshot h' k' ts v \<longleftrightarrow> snapshot h k' ts v"
  proof (rule snapshot_cong)
    fix c
    show "write_at h' k' c = write_at h k' c \<or> (\<forall>r. write_at h k' c = Some r \<longrightarrow> \<not> is_commit r) \<and> (\<forall>r. write_at h' k' c = Some r \<longrightarrow> \<not> is_commit r)"
      using u unfolding w by (auto simp: is_commit_def rollback_marker_def)
  next
    fix c r
    assume a: "write_at h k' c = Some r" "is_commit r"
    then have "\<not> (k' = k \<and> wr_start_ts r = s)" using False by (auto simp: committed_def)
    then show "h' (DataKey k' (wr_start_ts r)) = h (DataKey k' (wr_start_ts r))" by (auto simp: h' h1_def)
  qed
  then show ?thesis using r unfolding reads_as_def lk by auto
qed (use p r in \<open>simp add: rollback_ref_def\<close>)

text \<open>A commit shows its value to every later snapshot.\<close>

lemma commit_shows:
  assumes inv: "txn_inv h" and p: "commit_ref h k s c ok h'" and lock: "lock_at h k = Some l" "lk_start_ts l = s"
    and c: "s < c" "c \<le> ts"
  shows "reads_as h' k ts (if lk_op l = 2 then None else h (DataKey k s))"
proof -
  have h': "h' = h(WriteKey k c \<mapsto> EncodeWrite (commit_record l), LockKey k := None)"
    using p lock by (auto simp: commit_ref_def holds_lock_def)
  have "\<not> too_late h k s" using inv lock unfolding txn_inv_def locks_ok_def by auto
  then have old: "c' < s" if "write_at h k c' = Some r'" "is_commit r'" for c' r'
    using that unfolding too_late_def by (metis (no_types) leI)
  have "last_commit h' k ts c (commit_record l)"
    unfolding last_commit_def
  proof (intro conjI allI impI)
    fix c' r'
    assume a: "c' \<le> ts \<and> write_at h' k c' = Some r' \<and> is_commit r'"
    show "c' \<le> c"
    proof (cases "c' = c")
      case False
      then have "c' < s" using a old by (simp add: h')
      then show ?thesis using c(1) by simp
    qed simp
  qed (use c in \<open>simp_all add: h' is_commit_def commit_record_def\<close>)
  then have "snapshot h' k ts (if lk_op l = 2 then None else h (DataKey k s))"
    unfolding snapshot_def using lock(2) by (auto simp: h' commit_record_def intro!: exI [of _ c] exI [of _ "commit_record l"])
  then show ?thesis by (simp add: reads_as_def h')
qed

end
