(* ===== verification/Entry.thy ===== *)
theory Entry
  imports Coding
begin

text \<open>
  The versioned entry of the storage engine (\<open>src/storage/entry.h\<close>) and the order on internal
  keys: user key ascending, then sequence number descending, so that the newest version of a
  key comes first.  The order is given to the library as an instance of its class of linear
  orders on the type of internal keys.
\<close>

datatype Op = kPut | kDelete

fun op_value :: "Op \<Rightarrow> u8" where
  "op_value kPut = 1"
| "op_value kDelete = 2"

definition op_of_value :: "u8 \<Rightarrow> Op option" where
  "op_of_value v = (if v = 1 then Some kPut else if v = 2 then Some kDelete else None)"

record Entry =
  en_key :: bytes
  en_seqno :: u64
  en_op :: Op
  en_value :: bytes

definition InternalCompare :: "bytes \<Rightarrow> u64 \<Rightarrow> bytes \<Rightarrow> u64 \<Rightarrow> int" where
  "InternalCompare ak aseq bk bseq =
     (if ak < bk then - 1 else if bk < ak then 1
      else if aseq > bseq then - 1 else if aseq < bseq then 1 else 0)"

lemma op_of_value_op [simp]: "op_of_value (op_value x) = Some x"
  by (cases x) (simp_all add: op_of_value_def)

subsection \<open>Internal keys as a linear order\<close>

datatype ikey = IKey (ik_key: bytes) (ik_seqno: u64)

instantiation ikey :: linorder
begin

definition less_ikey :: "ikey \<Rightarrow> ikey \<Rightarrow> bool" where
  "a < b \<longleftrightarrow> InternalCompare (ik_key a) (ik_seqno a) (ik_key b) (ik_seqno b) < 0"

definition less_eq_ikey :: "ikey \<Rightarrow> ikey \<Rightarrow> bool" where
  "a \<le> b \<longleftrightarrow> InternalCompare (ik_key a) (ik_seqno a) (ik_key b) (ik_seqno b) \<le> 0"

instance
proof
  fix x y z :: ikey
  show "(x < y) = (x \<le> y \<and> \<not> y \<le> x)"
    by (auto simp: less_ikey_def less_eq_ikey_def InternalCompare_def)
  show "x \<le> x" by (simp add: less_eq_ikey_def InternalCompare_def)
  show "x \<le> y \<Longrightarrow> y \<le> z \<Longrightarrow> x \<le> z"
    by (auto simp: less_eq_ikey_def InternalCompare_def split: if_splits)
  show "x \<le> y \<Longrightarrow> y \<le> x \<Longrightarrow> x = y"
    by (cases x; cases y) (auto simp: less_eq_ikey_def InternalCompare_def split: if_splits)
  show "x \<le> y \<or> y \<le> x"
    by (auto simp: less_eq_ikey_def InternalCompare_def)
qed

end

definition ikey_of :: "Entry \<Rightarrow> ikey" where
  "ikey_of e = IKey (en_key e) (en_seqno e)"

lemma InternalCompare_less_0:
  "InternalCompare ak aseq bk bseq < 0 \<longleftrightarrow> IKey ak aseq < IKey bk bseq"
  by (simp add: less_ikey_def)

lemma less_IKey: "IKey k s < IKey k' s' \<longleftrightarrow> k < k' \<or> (k = k' \<and> s > s')"
  by (auto simp: less_ikey_def InternalCompare_def)

lemma le_IKey: "IKey k s \<le> IKey k' s' \<longleftrightarrow> k < k' \<or> (k = k' \<and> s \<ge> s')"
  by (auto simp: less_eq_ikey_def InternalCompare_def)

end
