(* ===== verification/Wal.thy ===== *)
theory Wal
  imports Entry Records Fs
begin

text \<open>
  The write-ahead log of the storage engine (\<open>src/storage/wal.cc\<close>): records of entries, appended
  and synced by \<open>WalWriter\<close> and read back by \<open>RecoverWal\<close>, which stops at the first record
  that is torn or damaged and cuts the file there.
\<close>

subsection \<open>The writer\<close>

definition EncodePayload :: "Entry \<Rightarrow> bytes" where
  "EncodePayload e =
     PutFixed64 (en_seqno e) @ PutFixed8 (op_value (en_op e)) @
     PutLengthPrefixed (en_key e) @ PutLengthPrefixed (en_value e)"

definition DecodePayload :: "bytes \<Rightarrow> Entry option" where
  "DecodePayload p =
     (let (seqno, d) = U64 (Decoder p); (op, d) = U8 d; (key, d) = Str d; (val, d) = Str d
      in if \<not> dec_ok d \<or> remaining d \<noteq> 0 then None
         else map_option (\<lambda>op. \<lparr>en_key = key, en_seqno = seqno, en_op = op, en_value = val\<rparr>)
                (op_of_value op))"

text \<open>A writer is its path, opened for appending.\<close>

definition WalWriter_Open :: "bytes \<Rightarrow> world \<Rightarrow> status \<times> world" where
  "WalWriter_Open path w =
     (case sys_call (\<lambda>w. set_file path (file_data path w) w) w of
        (Some e, w1) \<Rightarrow> (Errno (str ''open wal '' @ path) e, w1)
      | (None, w1) \<Rightarrow> (OK, w1))"

definition WalWriter_Append :: "bytes \<Rightarrow> Entry \<Rightarrow> world \<Rightarrow> status \<times> world" where
  "WalWriter_Append path e w =
     (case write_loop path (frame_record (EncodePayload e)) w of
        (Some err, w1) \<Rightarrow> (Errno (str ''write wal '' @ path) err, w1)
      | (None, w1) \<Rightarrow> (OK, w1))"

definition WalWriter_Sync :: "bytes \<Rightarrow> world \<Rightarrow> status \<times> world" where
  "WalWriter_Sync path w =
     (case sys_call id w of
        (Some e, w1) \<Rightarrow> (Errno (str ''fsync wal '' @ path) e, w1)
      | (None, w1) \<Rightarrow> (OK, w1))"

subsection \<open>Recovery\<close>

definition wal_step :: "Entry list \<Rightarrow> bytes \<Rightarrow> Entry list scan_step" where
  "wal_step entries payload =
     (case DecodePayload payload of None \<Rightarrow> Break | Some e \<Rightarrow> Continue (entries @ [e]))"

definition RecoverWal :: "bytes \<Rightarrow> Entry list \<Rightarrow> world \<Rightarrow> status \<times> Entry list \<times> world" where
  "RecoverWal path entries w =
     (case ReadFileToString path w of
        (Inl s, w1) \<Rightarrow> if IsNotFound s then (OK, entries, w1) else (s, entries, w1)
      | (Inr data, w1) \<Rightarrow>
          (case scan_records wal_step data entries 0 of
             (entries', valid_end) \<Rightarrow>
               if valid_end < length data
               then (case sys_call (set_file path (take valid_end data)) w1 of
                       (Some e, w2) \<Rightarrow> (Errno (str ''truncate wal '' @ path) e, entries', w2)
                     | (None, w2) \<Rightarrow> (OK, entries', w2))
               else (OK, entries', w1)))"

subsection \<open>Recovery returns what was appended\<close>

text \<open>An entry whose key and value fit the 32-bit fields, with room for the record header.\<close>

definition entry_fits :: "Entry \<Rightarrow> bool" where
  "entry_fits e \<longleftrightarrow> length (en_key e) + length (en_value e) + 17 < 2 ^ 32"

definition wal_bytes :: "Entry list \<Rightarrow> bytes" where
  "wal_bytes es = concat (map (\<lambda>e. frame_record (EncodePayload e)) es)"

lemma DecodePayload_Encode: "entry_fits e \<Longrightarrow> DecodePayload (EncodePayload e) = Some e"
  by (simp add: DecodePayload_def EncodePayload_def entry_fits_def codec)

lemma length_EncodePayload: "length (EncodePayload e) = 17 + length (en_key e) + length (en_value e)"
  by (simp add: EncodePayload_def)

interpretation wal_log: framed_log EncodePayload wal_step "\<lambda>_. entry_fits" "\<lambda>es e. es @ [e]"
  by unfold_locales (simp_all add: wal_step_def DecodePayload_Encode length_EncodePayload entry_fits_def)

lemma wal_good_list [simp]: "wal_log.good_list s es \<longleftrightarrow> list_all entry_fits es"
  by (induction es arbitrary: s) auto

lemma foldl_snoc [simp]: "foldl (\<lambda>es e. es @ [e]) es xs = es @ xs"
  by (induction xs arbitrary: es) auto

lemma wal_bytes_append [simp]: "wal_bytes (xs @ ys) = wal_bytes xs @ wal_bytes ys"
  by (simp add: wal_bytes_def)

lemma scan_wal_prefix:
  assumes "list_all entry_fits es"
  obtains k where "k \<le> length es"
    "scan_records wal_step (take n (wal_bytes es)) [] 0 = (take k es, length (wal_bytes (take k es)))"
    "length (wal_bytes (take k es)) \<le> n" "k < length es \<longrightarrow> n < length (wal_bytes (take (Suc k) es))"
  using wal_log.scan_prefix [of "[]" es n] assms unfolding wal_bytes_def by auto

lemma take_wal_bytes:
  assumes "length (wal_bytes (take k es)) \<le> n"
  shows "take (length (wal_bytes (take k es))) (take n (wal_bytes es)) = wal_bytes (take k es)"
proof -
  have "wal_bytes es = wal_bytes (take k es) @ wal_bytes (drop k es)"
    by (simp flip: wal_bytes_append)
  with assms show ?thesis by (metis append_eq_conv_conj min.absorb1 take_take)
qed

text \<open>
  The file holds the first \<open>n\<close> bytes of a log, \<open>n\<close> arbitrary.  Recovery returns the entries whose
  records are complete in it and leaves the file with exactly these records.
\<close>

lemma RecoverWal_prefix:
  assumes "list_all entry_fits es" and "w_files w path = Some (take n (wal_bytes es))" and "w_io w = []"
  shows "\<exists>k w'. k \<le> length es \<and> length (wal_bytes (take k es)) \<le> n \<and>
           (k < length es \<longrightarrow> n < length (wal_bytes (take (Suc k) es))) \<and>
           RecoverWal path [] w = (OK, take k es, w') \<and>
           w_files w' path = Some (wal_bytes (take k es)) \<and> w_io w' = []"
proof -
  obtain k where k: "k \<le> length es"
    "scan_records wal_step (take n (wal_bytes es)) [] 0 = (take k es, length (wal_bytes (take k es)))"
    "length (wal_bytes (take k es)) \<le> n" "k < length es \<longrightarrow> n < length (wal_bytes (take (Suc k) es))"
    by (rule scan_wal_prefix [OF assms(1)])
  have t: "take (length (wal_bytes (take k es))) (take n (wal_bytes es)) = wal_bytes (take k es)"
    by (rule take_wal_bytes [OF k(3)])
  show ?thesis
  proof (cases "length (wal_bytes (take k es)) < length (take n (wal_bytes es))")
    case True
    then have "RecoverWal path [] w = (OK, take k es, set_file path (wal_bytes (take k es)) w)"
      using assms k(2) t by (simp add: RecoverWal_def ReadFileToString_no_fault sys_call_no_fault)
    with k assms show ?thesis by auto
  next
    case False
    with t have "take n (wal_bytes es) = wal_bytes (take k es)" by (metis not_less take_all)
    moreover have "RecoverWal path [] w = (OK, take k es, w)"
      using assms k(2) False by (auto simp: RecoverWal_def ReadFileToString_no_fault)
    ultimately show ?thesis using k assms by auto
  qed
qed

lemma WalWriter_Append_ok:
  assumes "WalWriter_Append path e w = (s, w')" "is_ok s" "w_files w path = Some (wal_bytes es)"
  shows "w_files w' = (w_files w)(path \<mapsto> wal_bytes (es @ [e]))"
  using assms write_loop_ok [of path _ w w' "wal_bytes es"]
  by (auto simp: WalWriter_Append_def Errno_def wal_bytes_def split: prod.splits option.splits)

text \<open>A record with one damaged payload byte ends the log in front of it.\<close>

lemma scan_wal_damaged:
  assumes "list_all entry_fits es" and "entry_fits e" and "EncodePayload e = xs @ c # ys" and "c \<noteq> d"
  shows "scan_records wal_step
           (wal_bytes es @ PutFixed32 (of_nat (length (EncodePayload e))) @
            PutFixed32 (Crc32 (EncodePayload e)) @ (xs @ d # ys) @ rest) [] 0 =
         (es, length (wal_bytes es))"
proof -
  have "size32 (xs @ c # ys)"
    using assms(2,3) by (simp add: entry_fits_def flip: assms(3) length_EncodePayload)
      (simp add: length_EncodePayload)
  then have "next_record (wal_bytes es @ PutFixed32 (of_nat (length (EncodePayload e))) @
      PutFixed32 (Crc32 (EncodePayload e)) @ (xs @ d # ys) @ rest) (length (wal_bytes es)) = None"
    unfolding assms(3) using assms(4) by (rule next_record_damaged)
  then show ?thesis
    using wal_log.scan_stop [of "[]" es] assms(1) unfolding wal_bytes_def by simp
qed

subsection \<open>Properties\<close>

text \<open>
  (C18) Whatever prefix of the log a crash leaves in the file, recovery succeeds, returns exactly
  the entries whose records are complete in it, in order, and cuts the file behind the last
  of them.
\<close>
theorem wal_torn_tail:
  assumes "list_all entry_fits es" and "w_files w path = Some (take n (wal_bytes es))" and "w_io w = []"
  shows "\<exists>k w'. k \<le> length es \<and> length (wal_bytes (take k es)) \<le> n \<and>
           (k < length es \<longrightarrow> n < length (wal_bytes (take (Suc k) es))) \<and>
           RecoverWal path [] w = (OK, take k es, w') \<and>
           w_files w' path = Some (wal_bytes (take k es)) \<and> w_io w' = []"
  using assms by (rule RecoverWal_prefix)

theorem wal_torn_tail_witness:
  "let e = \<lparr>en_key = [107], en_seqno = 1, en_op = kPut, en_value = [118]\<rparr>;
       w = \<lparr>w_files = [[1] \<mapsto> take 30 (wal_bytes [e, e])], w_io = []\<rparr>
   in \<exists>k w'. k \<le> length [e, e] \<and> length (wal_bytes (take k [e, e])) \<le> 30 \<and>
        (k < length [e, e] \<longrightarrow> 30 < length (wal_bytes (take (Suc k) [e, e]))) \<and>
        RecoverWal [1] [] w = (OK, take k [e, e], w') \<and>
        w_files w' [1] = Some (wal_bytes (take k [e, e])) \<and> w_io w' = []"
  unfolding Let_def by (rule wal_torn_tail) (simp_all add: entry_fits_def)

text \<open>
  (C19) A log in which one payload byte of a record was changed, with anything behind it, is
  recovered up to that record: recovery returns the entries in front of it and cuts the rest.
\<close>
theorem wal_damaged_record:
  assumes "list_all entry_fits es" and "entry_fits e" and "EncodePayload e = xs @ c # ys" and "c \<noteq> d"
    and "w_files w path = Some (wal_bytes es @ PutFixed32 (of_nat (length (EncodePayload e))) @
           PutFixed32 (Crc32 (EncodePayload e)) @ (xs @ d # ys) @ rest)" and "w_io w = []"
  shows "\<exists>w'. RecoverWal path [] w = (OK, es, w') \<and> w_files w' path = Some (wal_bytes es)"
  using assms(5,6) scan_wal_damaged [OF assms(1-4), of rest]
  by (auto simp: RecoverWal_def ReadFileToString_no_fault sys_call_no_fault)

theorem wal_damaged_record_witness:
  "let e = \<lparr>en_key = [107], en_seqno = 1, en_op = kPut, en_value = [118]\<rparr>;
       p = EncodePayload e;
       w = \<lparr>w_files = [[1] \<mapsto> wal_bytes [] @ PutFixed32 (of_nat (length p)) @ PutFixed32 (Crc32 p) @
                     ([] @ 9 # tl p) @ [7]], w_io = []\<rparr>
   in \<exists>w'. RecoverWal [1] [] w = (OK, [], w') \<and> w_files w' [1] = Some (wal_bytes [])"
proof -
  let ?e = "\<lparr>en_key = [107], en_seqno = 1, en_op = kPut, en_value = [118]\<rparr>"
  have "EncodePayload ?e = [] @ 1 # tl (EncodePayload ?e)" by code_simp
  from wal_damaged_record [OF _ _ this, of "[]" 9 _ "[1]" "[7]"] show ?thesis
    unfolding Let_def by (simp add: entry_fits_def)
qed

end
