(* ===== verification/Iter.thy ===== *)
theory Iter
  imports Entry "HOL-Library.Monad_Syntax"
begin

text \<open>
  The interface \<open>InternalIterator\<close> of \<open>src/storage/entry.h\<close>: a record of its operations, and as
  a locale what its users rely on.  \<open>at i es xs\<close> says that the iterator \<open>i\<close> runs over the
  entries \<open>es\<close> and has \<open>xs\<close> still ahead, the entry it stands on first.  The merging iterator
  of \<open>src/storage/merging_iterator.cc\<close> is defined over any such operations, and is itself an
  iterator in this sense, over the stable sort of what its children run over.
\<close>

subsection \<open>The interface\<close>

record 'i iter_ops =
  it_Valid :: "'i \<Rightarrow> bool"
  it_SeekToFirst :: "'i \<Rightarrow> 'i"
  it_Seek :: "bytes \<Rightarrow> 'i \<Rightarrow> 'i"
  it_Next :: "'i \<Rightarrow> 'i"
  it_entry :: "'i \<Rightarrow> Entry"

text \<open>
  The loop \<open>for (; it->Valid(); it->Next())\<close> with a body that may leave it: the body gives the
  new state and whether to go on.
\<close>

partial_function (option) iter_loop ::
  "('i iter_ops) \<Rightarrow> (Entry \<Rightarrow> 's \<Rightarrow> 's \<times> bool) \<Rightarrow> 'i \<Rightarrow> 's \<Rightarrow> ('s \<times> 'i) option" where
  "iter_loop ops body i s =
     (if it_Valid ops i
      then (case body (it_entry ops i) s of
              (s', go_on) \<Rightarrow> if go_on then iter_loop ops body (it_Next ops i) s' else Some (s', i))
      else Some (s, i))"

fun list_loop :: "(Entry \<Rightarrow> 's \<Rightarrow> 's \<times> bool) \<Rightarrow> Entry list \<Rightarrow> 's \<Rightarrow> 's \<times> Entry list" where
  "list_loop body [] s = (s, [])"
| "list_loop body (x # xs) s =
     (case body x s of (s', go_on) \<Rightarrow> if go_on then list_loop body xs s' else (s', x # xs))"

abbreviation sorted_entries :: "Entry list \<Rightarrow> bool" where
  "sorted_entries es \<equiv> sorted (map ikey_of es)"

locale internal_iterator =
  fixes ops :: "'i iter_ops"
    and at :: "'i \<Rightarrow> Entry list \<Rightarrow> Entry list \<Rightarrow> bool"
  assumes valid: "at i es xs \<Longrightarrow> it_Valid ops i \<longleftrightarrow> xs \<noteq> []"
    and entry: "at i es (x # xs) \<Longrightarrow> it_entry ops i = x"
    and move: "at i es (x # xs) \<Longrightarrow> at (it_Next ops i) es xs"
    and first: "at i es xs \<Longrightarrow> at (it_SeekToFirst ops i) es es"
    and seek: "at i es xs \<Longrightarrow> at (it_Seek ops k i) es (dropWhile (\<lambda>e. en_key e < k) es)"
begin

lemma loop:
  "at i es xs \<Longrightarrow> \<exists>i'. iter_loop ops body i s = Some (fst (list_loop body xs s), i') \<and>
     at i' es (snd (list_loop body xs s))"
proof (induction xs arbitrary: i s)
  case Nil
  then show ?case using valid by (subst iter_loop.simps) force
next
  case (Cons x xs)
  obtain s' c where b: "body x s = (s', c)" by fastforce
  have v: "it_Valid ops i" "it_entry ops i = x" using valid entry Cons.prems by blast+
  show ?case
  proof (cases c)
    case True
    have "iter_loop ops body i s = iter_loop ops body (it_Next ops i) s'"
      using v b True by (subst iter_loop.simps) simp
    then show ?thesis using Cons.IH [OF move [OF Cons.prems]] b True by simp
  next
    case False
    then have "iter_loop ops body i s = Some (s', i)" using v b by (subst iter_loop.simps) simp
    then show ?thesis using Cons.prems b False by simp
  qed
qed

end

lemma list_loop_collect: "list_loop (\<lambda>e acc. (acc @ [f e], True)) xs acc = (acc @ map f xs, [])"
  by (induction xs arbitrary: acc) auto

subsection \<open>The newest version of a key\<close>

text \<open>
  In a list of entries in the order in which they were written, the version of a key that
  counts: the one with the largest sequence number, the later one among equals.
\<close>

definition newer :: "bytes \<Rightarrow> Entry \<Rightarrow> Entry option \<Rightarrow> Entry option" where
  "newer key e best =
     (if en_key e = key \<and> (case best of None \<Rightarrow> True | Some b \<Rightarrow> en_seqno b \<le> en_seqno e)
      then Some e else best)"

definition newest :: "bytes \<Rightarrow> Entry list \<Rightarrow> Entry option" where
  "newest key es = fold (newer key) es None"

lemma newest_snoc [simp]: "newest key (es @ [e]) = newer key e (newest key es)"
  by (simp add: newest_def)

lemma newest_Nil [simp]: "newest key [] = None"
  by (simp add: newest_def)

abbreviation find_key :: "bytes \<Rightarrow> Entry list \<Rightarrow> Entry option" where
  "find_key key es \<equiv> find (\<lambda>e. en_key e = key) es"

lemma same_key_le: "en_key a = en_key b \<Longrightarrow> ikey_of a \<le> ikey_of b \<longleftrightarrow> en_seqno b \<le> en_seqno a"
  by (simp add: ikey_of_def le_IKey)

lemma find_key_insort:
  assumes "sorted_entries es"
  shows "find_key key (insort_key ikey_of e es) = newer key e (find_key key es)"
  using assms
proof (induction es)
  case Nil
  then show ?case by (simp add: newer_def)
next
  case (Cons a es)
  show ?case
  proof (cases "ikey_of e \<le> ikey_of a")
    case True
    have "en_seqno b \<le> en_seqno e" if "find_key key (a # es) = Some b" "en_key e = key" for b
    proof -
      have b: "b \<in> set (a # es)" "en_key b = key" using that(1) by (auto simp: find_Some_iff split: if_splits)
      have "ikey_of e \<le> ikey_of b" using b(1) True Cons.prems by (auto intro: order_trans)
      then show ?thesis using b(2) that(2) by (simp add: same_key_le)
    qed
    then have "newer key e (find_key key (a # es)) = (if en_key e = key then Some e else find_key key (a # es))"
      unfolding newer_def by (auto split: option.split)
    then show ?thesis using True by simp
  next
    case False
    show ?thesis
    proof (cases "en_key a = key")
      case True
      then have "\<not> (en_key e = key \<and> en_seqno a \<le> en_seqno e)" using False same_key_le [of e a] by auto
      then show ?thesis using False True by (auto simp: newer_def)
    next
      case ne: False
      then show ?thesis using False Cons by simp
    qed
  qed
qed

lemma find_key_sort: "find_key key (sort_key ikey_of (rev es)) = newest key es"
proof (induction es rule: rev_induct)
  case (snoc e es)
  then show ?case by (simp add: find_key_insort)
qed simp

subsection \<open>The merging iterator\<close>

record 'i merging =
  mg_children :: "'i list"
  mg_current :: "nat option"

definition pick_step :: "'i iter_ops \<Rightarrow> 'i list \<Rightarrow> nat \<Rightarrow> nat option \<Rightarrow> nat option" where
  "pick_step ops children j current =
     (let c = children ! j
      in if \<not> it_Valid ops c then current
         else case current of
           None \<Rightarrow> Some j
         | Some k \<Rightarrow>
             (let e = it_entry ops c; b = it_entry ops (children ! k)
              in if InternalCompare (en_key e) (en_seqno e) (en_key b) (en_seqno b) < 0 then Some j else current))"

definition PickCurrent :: "'i iter_ops \<Rightarrow> 'i list \<Rightarrow> nat option" where
  "PickCurrent ops children = fold (pick_step ops children) [0..<length children] None"

definition NewMergingIterator :: "'i list \<Rightarrow> 'i merging" where
  "NewMergingIterator children = \<lparr>mg_children = children, mg_current = None\<rparr>"

definition merging_Valid :: "'i merging \<Rightarrow> bool" where
  "merging_Valid m \<longleftrightarrow> mg_current m \<noteq> None"

definition merging_with :: "'i iter_ops \<Rightarrow> 'i list \<Rightarrow> 'i merging" where
  "merging_with ops children = \<lparr>mg_children = children, mg_current = PickCurrent ops children\<rparr>"

definition merging_SeekToFirst :: "'i iter_ops \<Rightarrow> 'i merging \<Rightarrow> 'i merging" where
  "merging_SeekToFirst ops m = merging_with ops (map (it_SeekToFirst ops) (mg_children m))"

definition merging_Seek :: "'i iter_ops \<Rightarrow> bytes \<Rightarrow> 'i merging \<Rightarrow> 'i merging" where
  "merging_Seek ops key m = merging_with ops (map (it_Seek ops key) (mg_children m))"

definition merging_Next :: "'i iter_ops \<Rightarrow> 'i merging \<Rightarrow> 'i merging" where
  "merging_Next ops m =
     (let k = the (mg_current m)
      in merging_with ops ((mg_children m)[k := it_Next ops (mg_children m ! k)]))"

definition merging_entry :: "'i iter_ops \<Rightarrow> 'i merging \<Rightarrow> Entry" where
  "merging_entry ops m = it_entry ops (mg_children m ! the (mg_current m))"

definition merging_ops :: "'i iter_ops \<Rightarrow> 'i merging iter_ops" where
  "merging_ops ops =
     \<lparr>it_Valid = merging_Valid, it_SeekToFirst = merging_SeekToFirst ops,
      it_Seek = merging_Seek ops, it_Next = merging_Next ops, it_entry = merging_entry ops\<rparr>"

subsection \<open>Merging is stable sorting\<close>

definition merged :: "Entry list list \<Rightarrow> Entry list" where
  "merged css = sort_key ikey_of (concat css)"

lemma sort_key_min:
  assumes "\<forall>a\<in>set A. f x < f a" and "\<forall>b\<in>set B. f x \<le> f b"
  shows "sort_key f (A @ x # B) = x # sort_key f (A @ B)"
  using assms
proof (induction A)
  case Nil
  then have "insort_key f x (sort_key f B) = x # sort_key f B"
    by (intro insort_is_Cons) simp
  then show ?case by simp
next
  case (Cons a A)
  then show ?case by auto
qed

lemma dropWhile_sorted:
  assumes "sorted_entries es"
  shows "dropWhile (\<lambda>e. en_key e < k) es = filter (\<lambda>e. \<not> en_key e < k) es"
  using assms
proof (induction es)
  case (Cons e es)
  then show ?case
    by (auto simp: ikey_of_def le_IKey not_less filter_id_conv intro!: filter_True [symmetric])
qed simp

lemma sorted_merged: "sorted_entries (merged css)"
  by (simp add: merged_def)

lemma merged_seek:
  assumes "\<forall>es\<in>set css. sorted_entries es"
  shows "merged (map (dropWhile (\<lambda>e. en_key e < k)) css) = dropWhile (\<lambda>e. en_key e < k) (merged css)"
proof -
  have "map (dropWhile (\<lambda>e. en_key e < k)) css = map (filter (\<lambda>e. \<not> en_key e < k)) css"
    using assms dropWhile_sorted by (intro map_cong [OF refl]) blast
  then have "merged (map (dropWhile (\<lambda>e. en_key e < k)) css) =
      sort_key ikey_of (filter (\<lambda>e. \<not> en_key e < k) (concat css))"
    by (simp only: merged_def filter_concat)
  also have "\<dots> = filter (\<lambda>e. \<not> en_key e < k) (merged css)"
    by (simp only: merged_def filter_sort)
  finally show ?thesis by (simp only: dropWhile_sorted [OF sorted_merged])
qed

text \<open>What \<open>PickCurrent\<close> finds: the first of the children with the smallest entry.\<close>

lemma fold_pick_None:
  "fold (pick_step ops children) js cur = None \<longleftrightarrow>
     cur = None \<and> (\<forall>j\<in>set js. \<not> it_Valid ops (children ! j))"
  by (induction js arbitrary: cur) (auto simp: pick_step_def Let_def split: option.splits)

lemma PickCurrent_None:
  "PickCurrent ops children = None \<longleftrightarrow> (\<forall>c\<in>set children. \<not> it_Valid ops c)"
  by (auto simp: PickCurrent_def fold_pick_None in_set_conv_nth Ball_def)

lemma PickCurrent_Some:
  assumes "PickCurrent ops children = Some k"
  defines "key \<equiv> \<lambda>j. ikey_of (it_entry ops (children ! j))"
  shows "k < length children \<and> it_Valid ops (children ! k) \<and>
    (\<forall>j<length children. it_Valid ops (children ! j) \<longrightarrow> key k \<le> key j \<and> (j < k \<longrightarrow> key k < key j))"
proof -
  have "fold (pick_step ops children) [0..<n] None = Some k \<Longrightarrow> k < n \<and> it_Valid ops (children ! k) \<and>
    (\<forall>j<n. it_Valid ops (children ! j) \<longrightarrow> key k \<le> key j \<and> (j < k \<longrightarrow> key k < key j))" for n k
  proof (induction n arbitrary: k)
    case 0
    then show ?case by simp
  next
    case (Suc n)
    let ?cur = "fold (pick_step ops children) [0..<n] None"
    have step: "pick_step ops children n ?cur = Some k" using Suc.prems by simp
    show ?case
    proof (cases ?cur)
      case None
      then have "\<not> it_Valid ops (children ! j)" if "j < n" for j using that by (simp add: fold_pick_None)
      then show ?thesis using step None by (auto simp: pick_step_def Let_def less_Suc_eq split: if_splits)
    next
      case (Some c)
      note IH = Suc.IH [OF Some]
      have cmp: "InternalCompare (en_key a) (en_seqno a) (en_key b) (en_seqno b) < 0 \<longleftrightarrow> ikey_of a < ikey_of b" for a b
        by (simp add: InternalCompare_less_0 ikey_of_def)
      have "(k = n \<and> it_Valid ops (children ! n) \<and> key n < key c) \<or>
            (k = c \<and> (it_Valid ops (children ! n) \<longrightarrow> key c \<le> key n))"
        using step Some by (auto simp: pick_step_def Let_def cmp key_def split: if_splits)
      then show ?thesis using IH by (auto simp: less_Suc_eq intro: less_le_trans less_imp_le)
    qed
  qed
  from this [of "length children" k] assms(1) show ?thesis by (simp add: PickCurrent_def)
qed

lemma merged_pick:
  assumes k: "k < length css" "css ! k = x # xs" and srt: "\<forall>es\<in>set css. sorted_entries es"
    and least: "\<And>j y ys. j < length css \<Longrightarrow> css ! j = y # ys \<Longrightarrow> ikey_of x \<le> ikey_of y \<and> (j < k \<longrightarrow> ikey_of x < ikey_of y)"
  shows "merged css = x # merged (css[k := xs])"
proof -
  have below: "ikey_of x \<le> ikey_of e \<and> (j < k \<longrightarrow> ikey_of x < ikey_of e)"
    if "j < length css" "e \<in> set (css ! j)" for j e
  proof (cases "css ! j")
    case Nil
    then show ?thesis using that(2) by simp
  next
    case (Cons y ys)
    have "sorted_entries (y # ys)" using srt that(1) Cons by (metis nth_mem)
    then have "ikey_of y \<le> ikey_of e" using that(2) Cons by auto
    then show ?thesis using least [OF that(1) Cons] by (auto intro: order_trans less_le_trans)
  qed
  let ?A = "concat (take k css)" and ?B = "xs @ concat (drop (Suc k) css)"
  have c: "concat css = ?A @ x # ?B"
    using k by (metis append_Cons concat.simps(2) concat_append id_take_nth_drop)
  have c': "concat (css[k := xs]) = ?A @ ?B"
    using k by (simp add: upd_conv_take_nth_drop)
  have a: "\<forall>e\<in>set ?A. ikey_of x < ikey_of e"
  proof
    fix e assume "e \<in> set ?A"
    then obtain es where es: "es \<in> set (take k css)" "e \<in> set es" by auto
    then obtain j where "j < k" "es = css ! j" using k(1) by (auto simp: in_set_conv_nth)
    with es(2) have "j < k" "e \<in> set (css ! j)" by simp_all
    then show "ikey_of x < ikey_of e" using below [of j e] k(1) by simp
  qed
  have b: "\<forall>e\<in>set ?B. ikey_of x \<le> ikey_of e"
  proof
    fix e assume "e \<in> set ?B"
    then consider "e \<in> set (css ! k)" | es where "es \<in> set (drop (Suc k) css)" "e \<in> set es"
      using k(2) by auto
    then show "ikey_of x \<le> ikey_of e"
    proof cases
      case 1
      then show ?thesis using below [OF k(1)] by blast
    next
      case 2
      then obtain j where "j < length css" "es = css ! j"
        by (metis in_set_conv_nth in_set_dropD)
      then show ?thesis using below 2(2) by blast
    qed
  qed
  show ?thesis unfolding merged_def c c' by (rule sort_key_min [OF a b])
qed

definition merging_at :: "'i iter_ops \<Rightarrow> ('i \<Rightarrow> Entry list \<Rightarrow> Entry list \<Rightarrow> bool) \<Rightarrow>
    'i merging \<Rightarrow> Entry list \<Rightarrow> Entry list \<Rightarrow> bool" where
  "merging_at ops at m es xs \<longleftrightarrow>
     mg_current m = PickCurrent ops (mg_children m) \<and>
     (\<exists>css yss. length css = length (mg_children m) \<and> length yss = length (mg_children m) \<and>
        (\<forall>j<length css. at (mg_children m ! j) (css ! j) (yss ! j)) \<and>
        (\<forall>c\<in>set css. sorted_entries c) \<and> (\<forall>c\<in>set yss. sorted_entries c) \<and>
        es = merged css \<and> xs = merged yss)"

locale iterator_children = child: internal_iterator ops at
  for ops :: "'i iter_ops" and at :: "'i \<Rightarrow> Entry list \<Rightarrow> Entry list \<Rightarrow> bool"
begin

lemma merging_atE:
  assumes "merging_at ops at m es xs"
  obtains css yss where "mg_current m = PickCurrent ops (mg_children m)"
    "length css = length (mg_children m)" "length yss = length (mg_children m)"
    "\<forall>j<length css. at (mg_children m ! j) (css ! j) (yss ! j)"
    "\<forall>c\<in>set css. sorted_entries c" "\<forall>c\<in>set yss. sorted_entries c" "es = merged css" "xs = merged yss"
  using assms unfolding merging_at_def by blast

lemma merging_at_with:
  assumes "length css = length cs" "length yss = length cs" "\<forall>j<length cs. at (cs ! j) (css ! j) (yss ! j)"
    "\<forall>c\<in>set css. sorted_entries c" "\<forall>c\<in>set yss. sorted_entries c"
  shows "merging_at ops at (merging_with ops cs) (merged css) (merged yss)"
  unfolding merging_at_def merging_with_def using assms by (intro conjI exI [of _ css] exI [of _ yss]) auto

lemma fresh:
  assumes "length css = length cs" "\<forall>j<length cs. at (cs ! j) (css ! j) []" "\<forall>c\<in>set css. sorted_entries c"
  shows "merging_at ops at (NewMergingIterator cs) (merged css) []"
proof -
  have "PickCurrent ops cs = None"
    unfolding PickCurrent_None using assms(2) child.valid by (metis in_set_conv_nth)
  moreover have "merging_at ops at (merging_with ops cs) (merged css) (merged (replicate (length cs) []))"
    using assms by (intro merging_at_with) auto
  moreover have "merged (replicate (length cs) []) = []" by (simp add: merged_def)
  ultimately show ?thesis by (simp add: NewMergingIterator_def merging_with_def)
qed

lemma merged_Nil: "merged yss = [] \<longleftrightarrow> (\<forall>ys\<in>set yss. ys = [])"
  by (metis concat_eq_Nil_conv length_0_conv length_sort merged_def)

lemma pick_ahead:
  assumes "merging_at ops at m es xs"
  shows "mg_current m = None \<longleftrightarrow> xs = []"
    and "mg_current m = Some k \<Longrightarrow> \<exists>x xs'. xs = x # xs' \<and> it_entry ops (mg_children m ! k) = x \<and>
           merging_at ops at (merging_Next ops m) es xs'"
proof -
  obtain css yss where cur: "mg_current m = PickCurrent ops (mg_children m)"
    and len: "length css = length (mg_children m)" "length yss = length (mg_children m)"
    and at: "\<forall>j<length css. at (mg_children m ! j) (css ! j) (yss ! j)"
    and srt: "\<forall>c\<in>set css. sorted_entries c" "\<forall>c\<in>set yss. sorted_entries c"
    and es: "es = merged css" and xs: "xs = merged yss"
    using assms by (rule merging_atE)
  have val: "it_Valid ops (mg_children m ! j) \<longleftrightarrow> yss ! j \<noteq> []" if "j < length yss" for j
    using at that len by (intro child.valid [of _ "css ! j"]) simp
  have "(\<forall>c\<in>set (mg_children m). \<not> it_Valid ops c) \<longleftrightarrow> (\<forall>ys\<in>set yss. ys = [])"
    using val len(2) by (metis in_set_conv_nth)
  then show "mg_current m = None \<longleftrightarrow> xs = []"
    unfolding cur PickCurrent_None xs merged_Nil .
  show "\<exists>x xs'. xs = x # xs' \<and> it_entry ops (mg_children m ! k) = x \<and>
           merging_at ops at (merging_Next ops m) es xs'" if "mg_current m = Some k"
  proof -
    have pick: "k < length yss" "it_Valid ops (mg_children m ! k)"
      and least: "\<forall>j<length yss. it_Valid ops (mg_children m ! j) \<longrightarrow>
         ikey_of (it_entry ops (mg_children m ! k)) \<le> ikey_of (it_entry ops (mg_children m ! j)) \<and>
         (j < k \<longrightarrow> ikey_of (it_entry ops (mg_children m ! k)) < ikey_of (it_entry ops (mg_children m ! j)))"
      using PickCurrent_Some [of ops "mg_children m" k] that cur len(2) by auto
    obtain y ys where y: "yss ! k = y # ys" using val pick by (cases "yss ! k") auto
    have ent: "it_entry ops (mg_children m ! j) = z" if "j < length yss" "yss ! j = z # zs" for j z zs
      using at that len by (intro child.entry [of _ "css ! j" z zs]) metis
    have m: "merged yss = y # merged (yss[k := ys])"
    proof (rule merged_pick [OF pick(1) y srt(2)])
      fix j z zs assume j: "j < length yss" "yss ! j = z # zs"
      then show "ikey_of y \<le> ikey_of z \<and> (j < k \<longrightarrow> ikey_of y < ikey_of z)"
        using least [rule_format, OF j(1)] val [OF j(1)] ent [OF j] ent [OF pick(1) y] by simp
    qed
    have kl: "k < length (mg_children m)" "k < length css" using pick(1) len by simp_all
    have "merging_at ops at (merging_Next ops m) (merged css) (merged (yss[k := ys]))"
      unfolding merging_Next_def that Let_def option.sel
    proof (rule merging_at_with)
      have "at (mg_children m ! k) (css ! k) (y # ys)" using at kl y by metis
      then have nk: "at (it_Next ops (mg_children m ! k)) (css ! k) ys" by (rule child.move)
      then show "\<forall>j<length ((mg_children m)[k := it_Next ops (mg_children m ! k)]).
          at ((mg_children m)[k := it_Next ops (mg_children m ! k)] ! j) (css ! j) (yss[k := ys] ! j)"
        using at len kl by (auto simp: nth_list_update)
      have "sorted_entries (y # ys)" using srt(2) pick(1) y by (metis nth_mem)
      then show "\<forall>c\<in>set (yss[k := ys]). sorted_entries c"
        using srt(2) set_update_subset_insert [of yss k ys] by auto
    qed (use len srt in auto)
    then show ?thesis using m ent [OF pick(1) y] es xs by auto
  qed
qed

end

sublocale iterator_children \<subseteq> merge: internal_iterator "merging_ops ops" "merging_at ops at"
proof
  fix m es xs x k
  assume a: "merging_at ops at m es xs"
  show "it_Valid (merging_ops ops) m \<longleftrightarrow> xs \<noteq> []"
    using pick_ahead(1) [OF a] by (simp add: merging_ops_def merging_Valid_def)
  obtain css yss where len: "length css = length (mg_children m)"
    and at: "\<forall>j<length css. at (mg_children m ! j) (css ! j) (yss ! j)"
    and srt: "\<forall>c\<in>set css. sorted_entries c" and es: "es = merged css"
    using a by (rule merging_atE)
  show "merging_at ops at (it_SeekToFirst (merging_ops ops) m) es es"
    unfolding es merging_ops_def iter_ops.simps merging_SeekToFirst_def
    by (rule merging_at_with) (use len at srt child.first in auto)
  have drop: "\<forall>c\<in>set (map (dropWhile (\<lambda>e. en_key e < k)) css). sorted_entries c"
    using srt by (auto simp: dropWhile_sorted sorted_filter)
  show "merging_at ops at (it_Seek (merging_ops ops) k m) es (dropWhile (\<lambda>e. en_key e < k) es)"
    unfolding es merging_ops_def iter_ops.simps merging_Seek_def merged_seek [OF srt, symmetric]
    by (rule merging_at_with) (use len at srt drop child.seek in auto)
next
  fix m es x xs
  assume a: "merging_at ops at m es (x # xs)"
  obtain k where k: "mg_current m = Some k" using pick_ahead(1) [OF a] by auto
  show "it_entry (merging_ops ops) m = x"
    using pick_ahead(2) [OF a k] k by (simp add: merging_ops_def merging_entry_def)
  show "merging_at ops at (it_Next (merging_ops ops) m) es xs"
    using pick_ahead(2) [OF a k] by (simp add: merging_ops_def)
qed

end
