(* ===== verification/Memtable.thy ===== *)
theory Memtable
  imports Iter
begin

text \<open>
  The memtable of \<open>src/storage/memtable.cc\<close>: a skip list of entries in internal-key order.  The
  nodes are kept in the order of their allocation, node 0 is the head, and a pointer is the
  index of its target.  The generator of random numbers is a function from the number of the
  draw to the value drawn; everything holds for every such function.

  The invariant \<open>mem_ok\<close> names the nodes in the order of the bottom level and says that the
  chain of each level is the bottom level filtered by height.  Under it the search returns
  what a linear search of the bottom level returns, and \<open>Add\<close> is ordered insertion.
\<close>

subsection \<open>Nodes and the search\<close>

record node =
  nd_entry :: Entry
  nd_height :: nat
  nd_next :: "nat option list"

record MemTable =
  mt_nodes :: "node list"
  mt_max_height :: nat
  mt_bytes :: nat
  mt_count :: nat
  mt_draws :: nat

definition kMaxHeight :: nat where
  "kMaxHeight = 12"

definition empty_entry :: Entry where
  "empty_entry = \<lparr>en_key = [], en_seqno = 0, en_op = kPut, en_value = []\<rparr>"

definition NewNode :: "Entry \<Rightarrow> nat \<Rightarrow> node" where
  "NewNode e height = \<lparr>nd_entry = e, nd_height = height, nd_next = replicate height None\<rparr>"

definition MemTable_new :: MemTable where
  "MemTable_new =
     \<lparr>mt_nodes = [NewNode empty_entry kMaxHeight], mt_max_height = 1, mt_bytes = 0, mt_count = 0,
      mt_draws = 0\<rparr>"

function RandomHeight :: "(nat \<Rightarrow> u32) \<Rightarrow> nat \<Rightarrow> nat \<Rightarrow> nat \<times> nat" where
  "RandomHeight rng d h =
     (if h < kMaxHeight then (if rng d AND 3 = 0 then RandomHeight rng (Suc d) (Suc h) else (h, Suc d))
      else (h, d))"
  by pat_completeness auto
termination
  by (relation "measure (\<lambda>(rng, d, h). kMaxHeight - h)") auto

declare RandomHeight.simps [simp del]

definition next_at :: "node list \<Rightarrow> nat \<Rightarrow> nat \<Rightarrow> nat option" where
  "next_at nodes x level = nd_next (nodes ! x) ! level"

text \<open>
  The loop of \<open>FindGreaterOrEqual\<close>, with the array \<open>prev\<close> it fills.  Every turn moves to a later
  node or to a lower level, so that one unit of fuel per node and level is enough.
\<close>

fun find_ge :: "node list \<Rightarrow> bytes \<Rightarrow> u64 \<Rightarrow> nat \<Rightarrow> nat \<Rightarrow> nat \<Rightarrow> nat list \<Rightarrow> (nat option \<times> nat list) option" where
  "find_ge nodes key seqno 0 x level prev = None"
| "find_ge nodes key seqno (Suc fuel) x level prev =
     (let nxt = next_at nodes x level;
          advance = (case nxt of
             None \<Rightarrow> False
           | Some y \<Rightarrow> InternalCompare (en_key (nd_entry (nodes ! y))) (en_seqno (nd_entry (nodes ! y))) key seqno < 0)
      in if advance then find_ge nodes key seqno fuel (the nxt) level prev
         else if level = 0 then Some (nxt, prev[level := x])
         else find_ge nodes key seqno fuel x (level - 1) (prev[level := x]))"

definition FindGreaterOrEqual :: "MemTable \<Rightarrow> bytes \<Rightarrow> u64 \<Rightarrow> nat list \<Rightarrow> (nat option \<times> nat list) option" where
  "FindGreaterOrEqual m key seqno prev =
     find_ge (mt_nodes m) key seqno (length (mt_nodes m) + kMaxHeight) 0 (mt_max_height m - 1) prev"

subsection \<open>Insertion, lookup and iteration\<close>

definition set_next :: "nat \<Rightarrow> nat \<Rightarrow> nat option \<Rightarrow> node list \<Rightarrow> node list" where
  "set_next x level v nodes = nodes[x := (nodes ! x)\<lparr>nd_next := (nd_next (nodes ! x))[level := v]\<rparr>]"

definition link_node :: "nat \<Rightarrow> nat list \<Rightarrow> nat \<Rightarrow> node list \<Rightarrow> node list" where
  "link_node n prev i nodes =
     set_next (prev ! i) i (Some n) (set_next n i (next_at nodes (prev ! i) i) nodes)"

definition MemTable_Add :: "(nat \<Rightarrow> u32) \<Rightarrow> u64 \<Rightarrow> Op \<Rightarrow> bytes \<Rightarrow> bytes \<Rightarrow> MemTable \<Rightarrow> MemTable option" where
  "MemTable_Add rng seqno op key val m =
     (let e = \<lparr>en_key = key, en_seqno = seqno, en_op = op, en_value = val\<rparr>
      in case FindGreaterOrEqual m key seqno (replicate kMaxHeight 0) of
           None \<Rightarrow> None
         | Some (_, prev) \<Rightarrow>
             (let (height, draws) = RandomHeight rng (mt_draws m) 1;
                  n = length (mt_nodes m)
              in Some \<lparr>mt_nodes = fold (link_node n prev) [0..<height] (mt_nodes m @ [NewNode e height]),
                   mt_max_height = (if height > mt_max_height m then height else mt_max_height m),
                   mt_bytes = mt_bytes m + (length key + length val + 32),
                   mt_count = mt_count m + 1, mt_draws = draws\<rparr>))"

definition MemTable_Get :: "bytes \<Rightarrow> MemTable \<Rightarrow> Entry option" where
  "MemTable_Get key m =
     (case FindGreaterOrEqual m key (- 1) [] of
        Some (Some n, _) \<Rightarrow>
          (let e = nd_entry (mt_nodes m ! n) in if en_key e \<noteq> key then None else Some e)
      | _ \<Rightarrow> None)"

text \<open>An iterator is the memtable and the node it stands on.\<close>

record mem_iter =
  mi_mem :: MemTable
  mi_node :: "nat option"

definition mem_NewIterator :: "MemTable \<Rightarrow> mem_iter" where
  "mem_NewIterator m = \<lparr>mi_mem = m, mi_node = None\<rparr>"

definition mem_Valid :: "mem_iter \<Rightarrow> bool" where
  "mem_Valid it \<longleftrightarrow> mi_node it \<noteq> None"

definition mem_SeekToFirst :: "mem_iter \<Rightarrow> mem_iter" where
  "mem_SeekToFirst it = it\<lparr>mi_node := next_at (mt_nodes (mi_mem it)) 0 0\<rparr>"

definition mem_Seek :: "bytes \<Rightarrow> mem_iter \<Rightarrow> mem_iter" where
  "mem_Seek key it =
     it\<lparr>mi_node := (case FindGreaterOrEqual (mi_mem it) key (- 1) [] of
                      None \<Rightarrow> None | Some (n, _) \<Rightarrow> n)\<rparr>"

definition mem_Next :: "mem_iter \<Rightarrow> mem_iter" where
  "mem_Next it = it\<lparr>mi_node := next_at (mt_nodes (mi_mem it)) (the (mi_node it)) 0\<rparr>"

definition mem_entry :: "mem_iter \<Rightarrow> Entry" where
  "mem_entry it = nd_entry (mt_nodes (mi_mem it) ! the (mi_node it))"

subsection \<open>Chains\<close>

fun chain :: "node list \<Rightarrow> nat \<Rightarrow> nat \<Rightarrow> nat list \<Rightarrow> bool" where
  "chain nodes i x [] \<longleftrightarrow> next_at nodes x i = None"
| "chain nodes i x (y # ys) \<longleftrightarrow> next_at nodes x i = Some y \<and> chain nodes i y ys"

definition first_of :: "'a list \<Rightarrow> 'a option" where
  "first_of xs = (case xs of [] \<Rightarrow> None | x # _ \<Rightarrow> Some x)"

lemma first_of_simps [simp]: "first_of [] = None" "first_of (x # xs) = Some x"
  by (simp_all add: first_of_def)

lemma chain_next: "chain nodes i x ys \<Longrightarrow> next_at nodes x i = first_of ys"
  by (cases ys) auto

lemma chain_suffix: "chain nodes i x (us @ vs) \<Longrightarrow> chain nodes i (last (x # us)) vs"
  by (induction us arbitrary: x) auto

lemma chain_cong:
  assumes "\<And>y. y \<in> set (x # ys) \<Longrightarrow> next_at nodes' y i = next_at nodes y i"
  shows "chain nodes' i x ys = chain nodes i x ys"
  using assms by (induction ys arbitrary: x) auto

lemma chain_insert:
  assumes "chain nodes i x (us @ vs)" and "distinct (x # us @ vs)" and "n \<notin> set (x # us @ vs)"
    and "p = last (x # us)"
    and nxt: "\<And>y. next_at nodes' y i =
           (if y = n then next_at nodes p i else if y = p then Some n else next_at nodes y i)"
  shows "chain nodes' i x (us @ n # vs)"
  using assms(1-4)
proof (induction us arbitrary: x)
  case Nil
  have same: "chain nodes' i v ws = chain nodes i v ws" if "set (v # ws) \<subseteq> set vs" for v ws
    using that Nil by (intro chain_cong) (auto simp: nxt)
  have "chain nodes' i n vs"
    using Nil same by (cases vs) (auto simp: nxt)
  then show ?case using Nil by (auto simp: nxt)
next
  case (Cons u us)
  then have "x \<noteq> p" by (auto split: if_splits)
  with Cons show ?case by (auto simp: nxt)
qed

subsection \<open>The invariant\<close>

definition level_of :: "node list \<Rightarrow> nat list \<Rightarrow> nat \<Rightarrow> nat list" where
  "level_of nodes ns i = filter (\<lambda>n. i < nd_height (nodes ! n)) ns"

abbreviation node_key :: "node list \<Rightarrow> nat \<Rightarrow> ikey" where
  "node_key nodes n \<equiv> ikey_of (nd_entry (nodes ! n))"

definition nodes_ok :: "node list \<Rightarrow> nat \<Rightarrow> nat list \<Rightarrow> bool" where
  "nodes_ok nodes mh ns \<longleftrightarrow>
     distinct ns \<and> set ns = {1..<length nodes} \<and> nodes \<noteq> [] \<and> nd_height (nodes ! 0) = kMaxHeight \<and>
     1 \<le> mh \<and> mh \<le> kMaxHeight \<and>
     (\<forall>x<length nodes. length (nd_next (nodes ! x)) = nd_height (nodes ! x)) \<and>
     (\<forall>n\<in>set ns. 1 \<le> nd_height (nodes ! n) \<and> nd_height (nodes ! n) \<le> mh) \<and>
     (\<forall>i<kMaxHeight. chain nodes i 0 (level_of nodes ns i))"

definition mem_ok :: "MemTable \<Rightarrow> nat list \<Rightarrow> bool" where
  "mem_ok m ns \<longleftrightarrow> nodes_ok (mt_nodes m) (mt_max_height m) ns \<and>
     sorted (map (node_key (mt_nodes m)) ns) \<and> mt_count m = length ns"

definition node_entries :: "MemTable \<Rightarrow> nat list \<Rightarrow> Entry list" where
  "node_entries m ns = map (\<lambda>n. nd_entry (mt_nodes m ! n)) ns"

lemma level_of_append: "level_of nodes (as @ bs) i = level_of nodes as i @ level_of nodes bs i"
  by (simp add: level_of_def)

lemma level_of_last:
  "x = last (0 # pre) \<Longrightarrow> i < nd_height (nodes ! x) \<Longrightarrow> last (0 # level_of nodes pre i) = x"
  by (cases pre rule: rev_cases) (auto simp: level_of_def)

lemma level_of_0: "nodes_ok nodes mh ns \<Longrightarrow> set bs \<subseteq> set ns \<Longrightarrow> level_of nodes bs 0 = bs"
  unfolding level_of_def nodes_ok_def by (rule filter_True) force

subsection \<open>The search\<close>

lemma level_of_Cons_split:
  assumes "level_of nodes as i = y # us"
  obtains pre2 as2 where "as = pre2 @ y # as2" "level_of nodes as2 i = us" "level_of nodes pre2 i = []"
    "i < nd_height (nodes ! y)"
proof -
  from assms obtain pre2 as2 where "as = pre2 @ y # as2" "\<forall>u\<in>set pre2. \<not> i < nd_height (nodes ! u)"
      "i < nd_height (nodes ! y)" "us = filter (\<lambda>n. i < nd_height (nodes ! n)) as2"
    unfolding level_of_def by (elim filter_eq_ConsD [THEN exE]) blast
  then show thesis using that by (auto simp: level_of_def)
qed

lemma find_ge_ok:
  assumes ok: "nodes_ok nodes mh (as @ bs)"
    and as: "\<forall>n\<in>set as. node_key nodes n < IKey key seqno"
    and bs: "bs \<noteq> [] \<Longrightarrow> \<forall>n\<in>set bs. \<not> node_key nodes n < IKey key seqno"
  shows "as = pre @ as' \<Longrightarrow> x = last (0 # pre) \<Longrightarrow> level < nd_height (nodes ! x) \<Longrightarrow> level < kMaxHeight \<Longrightarrow>
         length as' + level < fuel \<Longrightarrow> \<exists>prev'. find_ge nodes key seqno fuel x level prev = Some (first_of bs, prev') \<and>
           length prev' = length prev \<and>
           (\<forall>i<length prev. prev' ! i = (if i \<le> level then last (0 # level_of nodes as i) else prev ! i))"
proof (induction fuel arbitrary: pre as' x level prev)
  case 0
  then show ?case by simp
next
  case (Suc fuel)
  let ?us = "level_of nodes as' level"
  have "chain nodes level 0 (level_of nodes pre level @ ?us @ level_of nodes bs level)"
    using ok Suc.prems(1,4) unfolding nodes_ok_def by (auto simp: level_of_append)
  then have "chain nodes level (last (0 # level_of nodes pre level)) (?us @ level_of nodes bs level)"
    by (rule chain_suffix)
  then have ch: "chain nodes level x (?us @ level_of nodes bs level)"
    using level_of_last [OF Suc.prems(2,3)] by simp
  note nx = chain_next [OF ch]
  show ?case
  proof (cases ?us)
    case (Cons y us)
    then obtain pre2 as2 where sp: "as' = pre2 @ y # as2" "level < nd_height (nodes ! y)"
      by (rule level_of_Cons_split)
    have "node_key nodes y < IKey key seqno" using as Suc.prems(1) sp by simp
    then have adv: "find_ge nodes key seqno (Suc fuel) x level prev = find_ge nodes key seqno fuel y level prev"
      using nx Cons by (simp add: InternalCompare_less_0 ikey_of_def)
    show ?thesis
      unfolding adv
      by (rule Suc.IH [where pre = "pre @ pre2 @ [y]" and as' = as2]) (use Suc.prems sp in auto)
  next
    case Nil
    have stay: "find_ge nodes key seqno (Suc fuel) x level prev =
        (if level = 0 then Some (next_at nodes x level, prev[level := x])
         else find_ge nodes key seqno fuel x (level - 1) (prev[level := x]))"
    proof (cases "level_of nodes bs level")
      case Nil2: Nil
      then show ?thesis using nx Nil by auto
    next
      case (Cons z zs)
      then have "z \<in> set bs" by (auto simp: level_of_def dest!: filter_eq_ConsD)
      then have "\<not> node_key nodes z < IKey key seqno" using bs by (cases bs) auto
      then show ?thesis using nx Nil Cons by (auto simp: InternalCompare_less_0 ikey_of_def)
    qed
    have lastx: "last (0 # level_of nodes as level) = x"
      using level_of_last [OF Suc.prems(2,3)] Nil Suc.prems(1) by (simp add: level_of_append)
    show ?thesis
    proof (cases "level = 0")
      case True
      have "level_of nodes bs 0 = bs" by (rule level_of_0 [OF ok]) simp
      then show ?thesis using stay True nx Nil lastx by (auto simp: nth_list_update)
    next
      case False
      have "\<exists>prev'. find_ge nodes key seqno fuel x (level - 1) (prev[level := x]) = Some (first_of bs, prev') \<and>
           length prev' = length (prev[level := x]) \<and>
           (\<forall>i<length (prev[level := x]). prev' ! i =
              (if i \<le> level - 1 then last (0 # level_of nodes as i) else prev[level := x] ! i))"
        by (rule Suc.IH [OF Suc.prems(1,2)]) (use Suc.prems False in auto)
      then obtain prev' where p: "find_ge nodes key seqno fuel x (level - 1) (prev[level := x]) = Some (first_of bs, prev')"
           "length prev' = length prev"
           "\<forall>i<length prev. prev' ! i = (if i \<le> level - 1 then last (0 # level_of nodes as i) else prev[level := x] ! i)"
        by auto
      have "prev' ! i = (if i \<le> level then last (0 # level_of nodes as i) else prev ! i)" if "i < length prev" for i
      proof (cases "i = level")
        case True
        then show ?thesis using p(3) that lastx False by auto
      next
        case ne: False
        then have "i \<le> level - 1 \<longleftrightarrow> i \<le> level" using False by auto
        then show ?thesis using p(3) that ne by simp
      qed
      then show ?thesis using stay False p(1,2) by auto
    qed
  qed
qed

text \<open>The nodes before the target, in the order of the bottom level, and the others.\<close>

lemma sorted_split:
  fixes f :: "'a \<Rightarrow> 'b::linorder"
  assumes "sorted (map f xs)"
  shows "\<forall>x\<in>set (dropWhile (\<lambda>x. f x < t) xs). \<not> f x < t"
  using assms by (induction xs) (auto simp: not_less intro: order_trans)

lemma FindGreaterOrEqual_ok:
  fixes key :: bytes and seqno :: u64 and prev :: "nat list"
  assumes "mem_ok m ns"
  defines "as \<equiv> takeWhile (\<lambda>n. node_key (mt_nodes m) n < IKey key seqno) ns"
    and "bs \<equiv> dropWhile (\<lambda>n. node_key (mt_nodes m) n < IKey key seqno) ns"
  shows "\<exists>prev'. FindGreaterOrEqual m key seqno prev = Some (first_of bs, prev') \<and>
           length prev' = length prev \<and>
           (\<forall>i<length prev. prev' ! i =
              (if i < mt_max_height m then last (0 # level_of (mt_nodes m) as i) else prev ! i))"
proof -
  let ?N = "mt_nodes m" and ?h = "mt_max_height m"
  have nsplit: "as @ bs = ns" by (simp add: as_def bs_def)
  have ok: "nodes_ok ?N ?h (as @ bs)" using assms(1) by (simp add: mem_ok_def nsplit)
  have h: "1 \<le> ?h" "?h \<le> kMaxHeight" "nd_height (?N ! 0) = kMaxHeight"
    using ok by (auto simp: nodes_ok_def)
  have a: "\<forall>n\<in>set as. node_key ?N n < IKey key seqno" by (auto simp: as_def dest: set_takeWhileD)
  have b: "\<forall>n\<in>set bs. \<not> node_key ?N n < IKey key seqno"
    unfolding bs_def using assms(1) by (intro sorted_split) (simp add: mem_ok_def)
  have "length ns < length ?N"
  proof -
    have n: "distinct ns" "set ns = {1..<length ?N}" "?N \<noteq> []"
      using assms(1) by (auto simp: mem_ok_def nodes_ok_def)
    then have "length ns = card {1..<length ?N}" using distinct_card by fastforce
    with n(3) show ?thesis by (cases ?N) auto
  qed
  moreover have "length as \<le> length ns" using nsplit by (metis le_add1 length_append)
  ultimately have fuel: "length as + (?h - 1) < length ?N + kMaxHeight" using h by linarith
  have "\<exists>prev'. find_ge ?N key seqno (length ?N + kMaxHeight) 0 (?h - 1) prev = Some (first_of bs, prev') \<and>
           length prev' = length prev \<and>
           (\<forall>i<length prev. prev' ! i = (if i \<le> ?h - 1 then last (0 # level_of ?N as i) else prev ! i))"
    by (rule find_ge_ok [OF ok a b, where pre = "[]" and as' = as]) (use h fuel in auto)
  moreover have "i \<le> ?h - 1 \<longleftrightarrow> i < ?h" for i using h by linarith
  ultimately show ?thesis by (simp only: FindGreaterOrEqual_def)
qed

subsection \<open>Linking a node\<close>

lemma length_set_next [simp]: "length (set_next x i v nodes) = length nodes"
  by (simp add: set_next_def)

lemma set_next_nth:
  "set_next x i v nodes ! y =
     (if y = x \<and> x < length nodes then (nodes ! x)\<lparr>nd_next := (nd_next (nodes ! x))[i := v]\<rparr> else nodes ! y)"
proof (cases "x < length nodes")
  case True
  then show ?thesis by (simp add: set_next_def nth_list_update)
next
  case False
  then have "set_next x i v nodes = nodes" unfolding set_next_def by (intro list_update_beyond) simp
  with False show ?thesis by simp
qed

lemma set_next_other [simp]:
  "nd_entry (set_next x i v nodes ! y) = nd_entry (nodes ! y)"
  "nd_height (set_next x i v nodes ! y) = nd_height (nodes ! y)"
  "length (nd_next (set_next x i v nodes ! y)) = length (nd_next (nodes ! y))"
  by (simp_all add: set_next_nth)

lemma next_at_set_next:
  assumes "x < length nodes" and "i < length (nd_next (nodes ! x))"
  shows "next_at (set_next x i v nodes) y j = (if y = x \<and> j = i then v else next_at nodes y j)"
  using assms by (auto simp: next_at_def set_next_nth nth_list_update)

lemma link_node_frame [simp]:
  "length (link_node n prev i nodes) = length nodes"
  "nd_entry (link_node n prev i nodes ! y) = nd_entry (nodes ! y)"
  "nd_height (link_node n prev i nodes ! y) = nd_height (nodes ! y)"
  "length (nd_next (link_node n prev i nodes ! y)) = length (nd_next (nodes ! y))"
  by (simp_all add: link_node_def)

lemma fold_link_frame [simp]:
  "length (fold (link_node n prev) is nodes) = length nodes"
  "nd_entry (fold (link_node n prev) is nodes ! y) = nd_entry (nodes ! y)"
  "nd_height (fold (link_node n prev) is nodes ! y) = nd_height (nodes ! y)"
  "length (nd_next (fold (link_node n prev) is nodes ! y)) = length (nd_next (nodes ! y))"
  by (induction "is" arbitrary: nodes) simp_all

lemma next_at_link_node:
  assumes "prev ! i < length nodes" "i < length (nd_next (nodes ! (prev ! i)))"
    "n < length nodes" "i < length (nd_next (nodes ! n))" "prev ! i \<noteq> n"
  shows "next_at (link_node n prev i nodes) y j =
           (if j = i \<and> y = n then next_at nodes (prev ! i) i
            else if j = i \<and> y = prev ! i then Some n else next_at nodes y j)"
  using assms unfolding link_node_def by (subst next_at_set_next) (auto simp: next_at_set_next)

lemma next_at_fold_link:
  assumes "\<forall>i<h. prev ! i < length nodes \<and> i < length (nd_next (nodes ! (prev ! i))) \<and> prev ! i \<noteq> n"
    and "n < length nodes" "h \<le> length (nd_next (nodes ! n))"
  shows "next_at (fold (link_node n prev) [0..<h] nodes) y j =
           (if j < h \<and> y = n then next_at nodes (prev ! j) j
            else if j < h \<and> y = prev ! j then Some n else next_at nodes y j)"
  using assms
proof (induction h arbitrary: y j)
  case 0
  then show ?case by simp
next
  case (Suc h)
  let ?M = "fold (link_node n prev) [0..<h] nodes"
  have IH: "next_at ?M y j =
           (if j < h \<and> y = n then next_at nodes (prev ! j) j
            else if j < h \<and> y = prev ! j then Some n else next_at nodes y j)" for y j
  proof (rule Suc.IH)
    show "\<forall>i<h. prev ! i < length nodes \<and> i < length (nd_next (nodes ! (prev ! i))) \<and> prev ! i \<noteq> n"
      using Suc.prems(1) less_SucI by blast
  qed (use Suc.prems(2,3) in simp_all)
  have ph: "prev ! h < length nodes" "h < length (nd_next (nodes ! (prev ! h)))" "prev ! h \<noteq> n"
    using Suc.prems(1) by blast+
  have "next_at (link_node n prev h ?M) y j =
           (if j = h \<and> y = n then next_at ?M (prev ! h) h
            else if j = h \<and> y = prev ! h then Some n else next_at ?M y j)"
    by (rule next_at_link_node) (use ph Suc.prems(2,3) in simp_all)
  then have L: "next_at (fold (link_node n prev) [0..<Suc h] nodes) y j =
           (if j = h \<and> y = n then next_at ?M (prev ! h) h
            else if j = h \<and> y = prev ! h then Some n else next_at ?M y j)"
    by simp
  show ?case
  proof (cases "j = h")
    case True
    then show ?thesis unfolding L IH using ph(3) by simp
  next
    case False
    then have "j < Suc h \<longleftrightarrow> j < h" by linarith
    with False show ?thesis unfolding L IH by simp
  qed
qed

subsection \<open>Insertion is ordered insertion\<close>

lemma RandomHeight_bounds:
  "h \<le> kMaxHeight \<Longrightarrow> h \<le> fst (RandomHeight rng d h) \<and> fst (RandomHeight rng d h) \<le> kMaxHeight"
proof (induction rng d h rule: RandomHeight.induct)
  case (1 rng d h)
  then show ?case by (subst (1 2) RandomHeight.simps) auto
qed

lemma insort_key_split:
  "insort_key f x xs = takeWhile (\<lambda>y. f y < f x) xs @ x # dropWhile (\<lambda>y. f y < f x) xs"
  by (induction xs) (auto simp: not_le)

lemma link_chain:
  assumes ok: "nodes_ok nodes mh (as @ bs)" and h: "1 \<le> height" "height \<le> kMaxHeight"
    and prev: "\<forall>i<kMaxHeight. prev ! i = last (0 # level_of nodes as i)"
    and N: "N = fold (link_node (length nodes) prev) [0..<height] (nodes @ [NewNode e height])"
    and i: "i < kMaxHeight"
  shows "chain N i 0 (level_of N (as @ length nodes # bs) i)"
proof -
  let ?n = "length nodes" and ?N1 = "nodes @ [NewNode e height]"
  have set: "set (as @ bs) = {1..<?n}" "distinct (as @ bs)" "nodes \<noteq> []"
    and len: "\<forall>x<?n. length (nd_next (nodes ! x)) = nd_height (nodes ! x)"
    and head: "nd_height (nodes ! 0) = kMaxHeight"
    and ch: "chain nodes i 0 (level_of nodes as i @ level_of nodes bs i)"
    using ok i by (auto simp: nodes_ok_def level_of_append)
  have mem: "y < ?n" if "y \<in> set as \<or> y \<in> set bs \<or> y = 0" for y
    using that set by auto
  have pv: "prev ! j < ?n \<and> j < nd_height (nodes ! (prev ! j))" if "j < kMaxHeight" for j
  proof -
    have "prev ! j \<in> insert 0 (set (level_of nodes as j))"
      using prev that last_in_set [of "0 # level_of nodes as j"] by auto
    then show ?thesis using mem head that by (auto simp: level_of_def)
  qed
  have nx: "next_at N y j =
      (if j < height \<and> y = ?n then next_at ?N1 (prev ! j) j
       else if j < height \<and> y = prev ! j then Some ?n else next_at ?N1 y j)" for y j
    unfolding N
  proof (rule next_at_fold_link)
    show "\<forall>i<height. prev ! i < length ?N1 \<and> i < length (nd_next (?N1 ! (prev ! i))) \<and> prev ! i \<noteq> ?n"
    proof (intro allI impI)
      fix i assume "i < height"
      then have "prev ! i < ?n" "i < nd_height (nodes ! (prev ! i))" using pv h by auto
      then show "prev ! i < length ?N1 \<and> i < length (nd_next (?N1 ! (prev ! i))) \<and> prev ! i \<noteq> ?n"
        using len by (simp add: nth_append)
    qed
  qed (simp_all add: NewNode_def)
  have old: "next_at ?N1 y j = next_at nodes y j" if "y < ?n" for y j
    using that by (simp add: next_at_def nth_append)
  have hN: "nd_height (N ! y) = nd_height (nodes ! y)" if "y < ?n" for y
    using that by (simp add: N nth_append)
  have hn: "nd_height (N ! ?n) = height" by (simp add: N NewNode_def)
  have lv: "level_of N xs i = level_of nodes xs i" if "\<forall>y\<in>set xs. y < ?n" for xs
    unfolding level_of_def by (rule filter_cong [OF refl]) (use that hN in auto)
  have lvl: "level_of N (as @ ?n # bs) i =
      level_of nodes as i @ (if i < height then [?n] else []) @ level_of nodes bs i"
    using lv [of as] lv [of bs] mem hn by (simp add: level_of_def)
  have sub: "set (level_of nodes as i) \<subseteq> set as" "set (level_of nodes bs i) \<subseteq> set bs"
    by (auto simp: level_of_def)
  have dis: "distinct (0 # level_of nodes as i @ level_of nodes bs i)"
  proof -
    have "0 \<notin> set (as @ bs)" unfolding set(1) by simp
    then show ?thesis using set(2) sub by (auto simp: level_of_def)
  qed
  have inn: "y < ?n" if "y \<in> set (0 # level_of nodes as i @ level_of nodes bs i)" for y
    using that sub mem by auto
  have ch1: "chain ?N1 i 0 (level_of nodes as i @ level_of nodes bs i)"
    using ch inn old by (subst chain_cong [where nodes = nodes]) auto
  show ?thesis
  proof (cases "i < height")
    case True
    have "chain N i 0 (level_of nodes as i @ ?n # level_of nodes bs i)"
    proof (rule chain_insert [OF ch1 dis])
      show "?n \<notin> set (0 # level_of nodes as i @ level_of nodes bs i)" using inn by blast
      show "prev ! i = last (0 # level_of nodes as i)" using prev i by blast
      show "next_at N y i =
          (if y = ?n then next_at ?N1 (prev ! i) i else if y = prev ! i then Some ?n else next_at ?N1 y i)" for y
        using nx [of y i] True by simp
    qed
    then show ?thesis using True lvl by simp
  next
    case False
    have "chain N i 0 (level_of nodes as i @ level_of nodes bs i)"
      using ch1 nx False by (subst chain_cong [where nodes = ?N1]) auto
    then show ?thesis using False lvl by simp
  qed
qed

lemma MemTable_Add_ok:
  assumes ok: "mem_ok m ns"
    and e: "e = \<lparr>en_key = key, en_seqno = seqno, en_op = op, en_value = val\<rparr>"
  shows "\<exists>m' ns'. MemTable_Add rng seqno op key val m = Some m' \<and> mem_ok m' ns' \<and>
           node_entries m' ns' = insort_key ikey_of e (node_entries m ns) \<and>
           mt_bytes m' = mt_bytes m + (length key + length val + 32) \<and> mt_count m' = Suc (mt_count m)"
proof -
  let ?N = "mt_nodes m" and ?n = "length (mt_nodes m)" and ?t = "IKey key seqno"
  define as bs where "as = takeWhile (\<lambda>n. node_key ?N n < ?t) ns"
    and "bs = dropWhile (\<lambda>n. node_key ?N n < ?t) ns"
  have nsplit: "as @ bs = ns" by (simp add: as_def bs_def)
  have nok: "nodes_ok ?N (mt_max_height m) (as @ bs)" using ok by (simp add: mem_ok_def nsplit)
  obtain prev where find: "FindGreaterOrEqual m key seqno (replicate kMaxHeight 0) = Some (first_of bs, prev)"
    and prev: "\<forall>i<kMaxHeight. prev ! i = (if i < mt_max_height m then last (0 # level_of ?N as i) else 0)"
    using FindGreaterOrEqual_ok [OF ok, of key seqno "replicate kMaxHeight 0"] unfolding as_def bs_def by auto
  obtain height draws where rh: "RandomHeight rng (mt_draws m) 1 = (height, draws)" by fastforce
  then have h: "1 \<le> height" "height \<le> kMaxHeight"
    using RandomHeight_bounds [of 1 rng "mt_draws m"] by (simp_all add: kMaxHeight_def)
  define N where "N = fold (link_node ?n prev) [0..<height] (?N @ [NewNode e height])"
  define m' where "m' = \<lparr>mt_nodes = N,
      mt_max_height = (if height > mt_max_height m then height else mt_max_height m),
      mt_bytes = mt_bytes m + (length key + length val + 32), mt_count = mt_count m + 1, mt_draws = draws\<rparr>"
  have add: "MemTable_Add rng seqno op key val m = Some m'"
    unfolding MemTable_Add_def Let_def find rh by (simp add: m'_def N_def e)
  have set: "set as \<union> set bs = {1..<?n}" "distinct (as @ bs)" "?N \<noteq> []"
    and len: "\<forall>x<?n. length (nd_next (?N ! x)) = nd_height (?N ! x)"
    and head: "nd_height (?N ! 0) = kMaxHeight" and mh: "1 \<le> mt_max_height m" "mt_max_height m \<le> kMaxHeight"
    and hs: "\<forall>n\<in>set as \<union> set bs. 1 \<le> nd_height (?N ! n) \<and> nd_height (?N ! n) \<le> mt_max_height m"
    using nok by (auto simp: nodes_ok_def)
  have lows: "y < ?n" if "y \<in> set as \<union> set bs" for y using that set(1) by simp
  have "level_of ?N as i = []" if "\<not> i < mt_max_height m" for i
    using that hs by (force simp: level_of_def filter_empty_conv)
  then have prev': "\<forall>i<kMaxHeight. prev ! i = last (0 # level_of ?N as i)" using prev by simp
  have old: "nd_height (N ! y) = nd_height (?N ! y)" "nd_entry (N ! y) = nd_entry (?N ! y)"
      "length (nd_next (N ! y)) = length (nd_next (?N ! y))" if "y < ?n" for y
    using that by (simp_all add: N_def nth_append)
  have new: "nd_height (N ! ?n) = height" "nd_entry (N ! ?n) = e" "length (nd_next (N ! ?n)) = height"
    by (simp_all add: N_def NewNode_def)
  have lenN: "length N = Suc ?n" by (simp add: N_def)
  have nodes: "nodes_ok N (mt_max_height m') (as @ ?n # bs)"
    unfolding nodes_ok_def
  proof (intro conjI allI impI ballI)
    have "?n \<notin> set as \<union> set bs" using lows by blast
    then show "distinct (as @ ?n # bs)" using set(2) by simp
    show "set (as @ ?n # bs) = {1..<length N}" 
    proof -
      have "set (as @ ?n # bs) = insert ?n {1..<?n}" using set(1) by auto
      also have "\<dots> = {1..<Suc ?n}" using set(3) by (cases ?N) auto
      finally show ?thesis by (simp only: lenN)
    qed
    show "N \<noteq> []" using lenN by auto
    show "nd_height (N ! 0) = kMaxHeight" using old(1) [of 0] head set(3) by simp
    show "1 \<le> mt_max_height m'" "mt_max_height m' \<le> kMaxHeight" using mh h by (simp_all add: m'_def)
    show "length (nd_next (N ! x)) = nd_height (N ! x)" if "x < length N" for x
    proof (cases "x = ?n")
      case True
      then show ?thesis using new(1,3) by simp
    next
      case False
      then have x: "x < ?n" using that lenN by simp
      then show ?thesis unfolding old(1) [OF x] old(3) [OF x] using len by blast
    qed
    have mx: "mt_max_height m \<le> mt_max_height m'" "height \<le> mt_max_height m'" by (simp_all add: m'_def)
    have hx: "1 \<le> nd_height (N ! x) \<and> nd_height (N ! x) \<le> mt_max_height m'" if "x \<in> set (as @ ?n # bs)" for x
    proof (cases "x = ?n")
      case True
      then show ?thesis using new(1) h(1) mx(2) by simp
    next
      case False
      then have x: "x \<in> set as \<union> set bs" using that by simp
      then have "1 \<le> nd_height (?N ! x)" "nd_height (?N ! x) \<le> mt_max_height m" using hs by blast+
      then show ?thesis unfolding old(1) [OF lows [OF x]] using mx(1) le_trans by blast
    qed
    show "1 \<le> nd_height (N ! x)" "nd_height (N ! x) \<le> mt_max_height m'" if "x \<in> set (as @ ?n # bs)" for x
      using hx [OF that] by blast+
    show "chain N i 0 (level_of N (as @ ?n # bs) i)" if "i < kMaxHeight" for i
      by (rule link_chain [OF nok h prev' N_def that])
  qed
  have ents: "node_entries m' (as @ ?n # bs) = node_entries m as @ e # node_entries m bs"
    using old(2) new lows by (auto simp: node_entries_def m'_def)
  have key: "ikey_of e = ?t" by (simp add: e ikey_of_def)
  have ins: "node_entries m as @ e # node_entries m bs = insort_key ikey_of e (node_entries m ns)"
    unfolding insort_key_split key by (simp add: node_entries_def as_def bs_def takeWhile_map dropWhile_map comp_def)
  have "sorted (map ikey_of (node_entries m ns))"
    using ok by (simp add: mem_ok_def node_entries_def comp_def)
  then have "sorted (map ikey_of (node_entries m' (as @ ?n # bs)))"
    unfolding ents ins by (simp add: sorted_insort_key)
  then have srt: "sorted (map (node_key (mt_nodes m')) (as @ ?n # bs))"
    by (simp add: node_entries_def comp_def)
  have "mt_count m' = length (as @ ?n # bs)"
    using ok nsplit by (auto simp: m'_def mem_ok_def)
  then have "mem_ok m' (as @ ?n # bs)" using nodes srt by (simp add: mem_ok_def m'_def)
  then show ?thesis using add ents ins by (intro exI conjI) (auto simp: m'_def)
qed

subsection \<open>Lookup and iteration\<close>

lemma MemTable_new_ok: "mem_ok MemTable_new []"
proof -
  have "next_at [NewNode empty_entry kMaxHeight] 0 i = None" if "i < kMaxHeight" for i
    using that by (simp add: next_at_def NewNode_def)
  then show ?thesis
    by (simp add: mem_ok_def nodes_ok_def MemTable_new_def level_of_def NewNode_def kMaxHeight_def)
qed

lemma chain_0: "mem_ok m ns \<Longrightarrow> chain (mt_nodes m) 0 0 ns"
  using level_of_0 [of "mt_nodes m" "mt_max_height m" ns ns]
  unfolding mem_ok_def nodes_ok_def kMaxHeight_def by (metis order_refl zero_less_numeral)

lemma ikey_less_max: "ikey_of e < IKey key (- 1) \<longleftrightarrow> en_key e < key"
  by (auto simp: ikey_of_def less_IKey)

lemma FindGreaterOrEqual_max:
  assumes "mem_ok m ns"
  shows "\<exists>p. FindGreaterOrEqual m key (- 1) [] =
           Some (first_of (dropWhile (\<lambda>n. en_key (nd_entry (mt_nodes m ! n)) < key) ns), p)"
  using FindGreaterOrEqual_ok [OF assms, of key "- 1" "[]"] by (auto simp: ikey_less_max)

lemma MemTable_Get_ok:
  assumes "mem_ok m ns"
  shows "MemTable_Get key m = find (\<lambda>e. en_key e = key) (node_entries m ns)"
proof -
  have srt: "sorted (map ikey_of (node_entries m ns))"
    using assms by (simp add: mem_ok_def node_entries_def comp_def)
  have "find (\<lambda>e. en_key e = key) xs =
      (case dropWhile (\<lambda>e. en_key e < key) xs of
         [] \<Rightarrow> None | e # _ \<Rightarrow> if en_key e \<noteq> key then None else Some e)"
    if "sorted (map ikey_of xs)" for xs
    using that
  proof (induction xs)
    case (Cons x xs)
    have "find (\<lambda>e. en_key e = key) xs = None" if "key < en_key x"
      using Cons.prems that by (force simp: find_None_iff ikey_of_def le_IKey)
    with Cons show ?case by (auto split: list.splits)
  qed simp
  note f = this [OF srt]
  obtain p where g: "FindGreaterOrEqual m key (- 1) [] =
      Some (first_of (dropWhile (\<lambda>n. en_key (nd_entry (mt_nodes m ! n)) < key) ns), p)"
    using FindGreaterOrEqual_max [OF assms] by blast
  show ?thesis
    unfolding f unfolding MemTable_Get_def g node_entries_def dropWhile_map
    by (cases "dropWhile (\<lambda>n. en_key (nd_entry (mt_nodes m ! n)) < key) ns") (simp_all add: comp_def Let_def del: dropWhile_eq_Nil_conv)
qed

definition mem_ops :: "mem_iter iter_ops" where
  "mem_ops = \<lparr>it_Valid = mem_Valid, it_SeekToFirst = mem_SeekToFirst, it_Seek = mem_Seek,
     it_Next = mem_Next, it_entry = mem_entry\<rparr>"

definition mem_at :: "mem_iter \<Rightarrow> Entry list \<Rightarrow> Entry list \<Rightarrow> bool" where
  "mem_at it es xs \<longleftrightarrow>
     (\<exists>as bs. mem_ok (mi_mem it) (as @ bs) \<and> es = node_entries (mi_mem it) (as @ bs) \<and>
        mi_node it = first_of bs \<and> xs = node_entries (mi_mem it) bs)"

lemma chain_0_next:
  assumes "mem_ok m (as @ n # bs)"
  shows "next_at (mt_nodes m) n 0 = first_of bs"
  using chain_suffix [of "mt_nodes m" 0 0 "as @ [n]" bs] chain_0 [OF assms] by (auto intro: chain_next)

interpretation mem_iterator: internal_iterator mem_ops mem_at
proof
  fix it es xs k
  assume "mem_at it es xs"
  then obtain as bs where ok: "mem_ok (mi_mem it) (as @ bs)" and es: "es = node_entries (mi_mem it) (as @ bs)"
    and nd: "mi_node it = first_of bs" and xs: "xs = node_entries (mi_mem it) bs"
    unfolding mem_at_def by blast
  show "it_Valid mem_ops it \<longleftrightarrow> xs \<noteq> []"
    using nd xs by (cases bs) (simp_all add: mem_ops_def mem_Valid_def node_entries_def)
  have "next_at (mt_nodes (mi_mem it)) 0 0 = first_of (as @ bs)"
    using chain_0 [OF ok] by (rule chain_next)
  then show "mem_at (it_SeekToFirst mem_ops it) es es"
    unfolding mem_at_def using ok es
    by (intro exI [of _ "[]"] exI [of _ "as @ bs"]) (simp add: mem_ops_def mem_SeekToFirst_def)
  let ?P = "\<lambda>n. en_key (nd_entry (mt_nodes (mi_mem it) ! n)) < k"
  obtain p where p: "FindGreaterOrEqual (mi_mem it) k (- 1) [] = Some (first_of (dropWhile ?P (as @ bs)), p)"
    using FindGreaterOrEqual_max [OF ok] by blast
  show "mem_at (it_Seek mem_ops k it) es (dropWhile (\<lambda>e. en_key e < k) es)"
    unfolding mem_at_def
  proof (intro exI conjI)
    have sp: "takeWhile ?P (as @ bs) @ dropWhile ?P (as @ bs) = as @ bs" by simp
    have mi: "mi_mem (it_Seek mem_ops k it) = mi_mem it" by (simp add: mem_ops_def mem_Seek_def)
    show "mem_ok (mi_mem (it_Seek mem_ops k it)) (takeWhile ?P (as @ bs) @ dropWhile ?P (as @ bs))"
      "es = node_entries (mi_mem (it_Seek mem_ops k it)) (takeWhile ?P (as @ bs) @ dropWhile ?P (as @ bs))"
      unfolding sp mi by (rule ok, rule es)
    show "mi_node (it_Seek mem_ops k it) = first_of (dropWhile ?P (as @ bs))"
      by (simp add: mem_ops_def mem_Seek_def p)
    show "dropWhile (\<lambda>e. en_key e < k) es = node_entries (mi_mem (it_Seek mem_ops k it)) (dropWhile ?P (as @ bs))"
      unfolding es mi node_entries_def dropWhile_map by (simp add: comp_def)
  qed
next
  fix it es x xs
  assume "mem_at it es (x # xs)"
  then obtain as bs where ok: "mem_ok (mi_mem it) (as @ bs)" and es: "es = node_entries (mi_mem it) (as @ bs)"
    and nd: "mi_node it = first_of bs" and xs: "x # xs = node_entries (mi_mem it) bs"
    unfolding mem_at_def by blast
  obtain n bs' where bs: "bs = n # bs'" using xs by (cases bs) (simp_all add: node_entries_def)
  show "it_entry mem_ops it = x"
    using nd xs bs by (simp add: mem_ops_def mem_entry_def node_entries_def)
  have "next_at (mt_nodes (mi_mem it)) n 0 = first_of bs'" using ok bs chain_0_next by simp
  then show "mem_at (it_Next mem_ops it) es xs"
    unfolding mem_at_def using ok es nd xs bs
    by (intro exI [of _ "as @ [n]"] exI [of _ bs']) (simp add: mem_ops_def mem_Next_def node_entries_def)
qed

text \<open>The contents of a memtable, read off its bottom level.\<close>

definition mem_holds :: "MemTable \<Rightarrow> Entry list \<Rightarrow> bool" where
  "mem_holds m es \<longleftrightarrow> (\<exists>ns. mem_ok m ns \<and> es = node_entries m ns)"

lemma mem_holds_new: "mem_holds MemTable_new []"
  unfolding mem_holds_def using MemTable_new_ok by (auto simp: node_entries_def)

lemma mem_holds_sorted: "mem_holds m es \<Longrightarrow> sorted_entries es"
  by (auto simp: mem_holds_def mem_ok_def node_entries_def comp_def)

lemma mem_holds_count: "mem_holds m es \<Longrightarrow> mt_count m = length es"
  by (auto simp: mem_holds_def mem_ok_def node_entries_def)

lemma mem_holds_Add:
  assumes "mem_holds m es"
  shows "\<exists>m'. MemTable_Add rng seqno op key val m = Some m' \<and>
           mem_holds m' (insort_key ikey_of \<lparr>en_key = key, en_seqno = seqno, en_op = op, en_value = val\<rparr> es) \<and>
           mt_bytes m' = mt_bytes m + (length key + length val + 32)"
  using assms MemTable_Add_ok [OF _ refl] unfolding mem_holds_def by metis

lemma mem_holds_Get: "mem_holds m es \<Longrightarrow> MemTable_Get key m = find (\<lambda>e. en_key e = key) es"
  using MemTable_Get_ok unfolding mem_holds_def by blast

lemma mem_holds_iter: "mem_holds m es \<Longrightarrow> mem_at (mem_NewIterator m) es []"
  unfolding mem_holds_def mem_at_def by (auto simp: mem_NewIterator_def node_entries_def intro!: exI [of _ "[]"])

subsection \<open>Properties\<close>

fun add_all :: "(nat \<Rightarrow> u32) \<Rightarrow> Entry list \<Rightarrow> MemTable \<Rightarrow> MemTable option" where
  "add_all rng [] m = Some m"
| "add_all rng (e # es) m =
     Option.bind (MemTable_Add rng (en_seqno e) (en_op e) (en_key e) (en_value e) m) (add_all rng es)"

lemma add_all_holds:
  "mem_holds m xs \<Longrightarrow> \<exists>m'. add_all rng es m = Some m' \<and> mem_holds m' (fold (insort_key ikey_of) es xs)"
proof (induction es arbitrary: m xs)
  case (Cons e es)
  have "\<lparr>en_key = en_key e, en_seqno = en_seqno e, en_op = en_op e, en_value = en_value e\<rparr> = e" by simp
  then obtain m1 where "MemTable_Add rng (en_seqno e) (en_op e) (en_key e) (en_value e) m = Some m1"
      "mem_holds m1 (insort_key ikey_of e xs)"
    using mem_holds_Add [OF Cons.prems, of rng "en_seqno e" "en_op e" "en_key e" "en_value e"] by metis
  then show ?case using Cons.IH [of m1] by simp
qed simp

lemma fold_insort: "fold (insort_key f) es [] = sort_key f (rev es)"
  by (simp add: sort_key_def foldr_conv_fold)

text \<open>
  (C25) The skip list is a sorted multiset.  Whatever heights are drawn, adding any entries to an
  empty memtable succeeds within the fuel of the search; then a lookup returns the newest
  version of the key (the largest sequence number, the last added among equals), and iterating
  from the first node visits all entries in internal-key order.
\<close>
theorem memtable_reference:
  "\<exists>m. add_all rng es MemTable_new = Some m \<and> mt_count m = length es \<and>
     (\<forall>key. MemTable_Get key m = newest key es) \<and>
     (\<exists>i. iter_loop mem_ops (\<lambda>e acc. (acc @ [e], True)) (mem_SeekToFirst (mem_NewIterator m)) [] =
        Some (sort_key ikey_of (rev es), i))"
proof -
  obtain m where m: "add_all rng es MemTable_new = Some m" "mem_holds m (sort_key ikey_of (rev es))"
    using add_all_holds [OF mem_holds_new] by (metis fold_insort)
  have "mem_at (it_SeekToFirst mem_ops (mem_NewIterator m)) (sort_key ikey_of (rev es)) (sort_key ikey_of (rev es))"
    by (rule mem_iterator.first [OF mem_holds_iter [OF m(2)]])
  from mem_iterator.loop [OF this, of "\<lambda>e acc. (acc @ [e], True)" "[]"]
  have "\<exists>i. iter_loop mem_ops (\<lambda>e acc. (acc @ [e], True)) (mem_SeekToFirst (mem_NewIterator m)) [] =
      Some (sort_key ikey_of (rev es), i)"
    using list_loop_collect [of "\<lambda>e. e"] by (auto simp: mem_ops_def)
  then show ?thesis
    using m mem_holds_count [OF m(2)] mem_holds_Get [OF m(2)] by (auto simp: find_key_sort)
qed

end
