(* ===== verification/Bloom.thy ===== *)
theory Bloom
  imports Coding
begin

text \<open>
  The Bloom filter of \<open>src/storage/bloom.cc\<close>: FNV-1a, double hashing, and the filter as it is
  stored in a table: the number of probes, the number of bits, and the bits.  The number of
  bits per key is a natural number, as the options of the store have it.  The lemma of interest
  is that a filter never denies a key it was built from, as long as its size fits the 32-bit
  field that records it.
\<close>

definition Fnv1a64 :: "bytes \<Rightarrow> u64" where
  "Fnv1a64 s = fold (\<lambda>c h. (h XOR ucast c) * 0x100000001b3) s 0xcbf29ce484222325"

definition Hashes :: "bytes \<Rightarrow> u64 \<times> u64" where
  "Hashes key =
     (let h = Fnv1a64 key; h2 = drop_bit 33 h OR push_bit 31 h
      in (h, if h2 = 0 then 0x9e3779b97f4a7c15 else h2))"

text \<open>
  The number of probes: \<open>static_cast<uint32_t>(bits_per_key * 0.69)\<close> between 1 and 30.  Below 100
  no multiple of 0.69 is within a rounding error of an integer, and above the bound applies.
\<close>

definition bloom_k :: "nat \<Rightarrow> nat" where
  "bloom_k bits_per_key = (let k = 69 * bits_per_key div 100 in if k < 1 then 1 else if k > 30 then 30 else k)"

definition probe :: "u64 \<times> u64 \<Rightarrow> nat \<Rightarrow> nat \<Rightarrow> nat" where
  "probe hs nbits i = unat (fst hs + of_nat i * snd hs) mod nbits"

definition set_bit_at :: "nat \<Rightarrow> bytes \<Rightarrow> bytes" where
  "set_bit_at j bits = bits[j div 8 := bits ! (j div 8) OR push_bit (j mod 8) 1]"

definition test_bit_at :: "bytes \<Rightarrow> nat \<Rightarrow> bool" where
  "test_bit_at bits j \<longleftrightarrow> bits ! (j div 8) AND push_bit (j mod 8) 1 \<noteq> 0"

definition add_key :: "nat \<Rightarrow> nat \<Rightarrow> bytes \<Rightarrow> bytes \<Rightarrow> bytes" where
  "add_key k nbits key bits = (let hs = Hashes key in fold (\<lambda>i. set_bit_at (probe hs nbits i)) [0..<k] bits)"

definition bloom_bytes :: "nat \<Rightarrow> nat \<Rightarrow> nat" where
  "bloom_bytes nkeys bits_per_key = (max 64 (nkeys * bits_per_key) + 7) div 8"

definition BuildBloom :: "bytes list \<Rightarrow> nat \<Rightarrow> bytes" where
  "BuildBloom keys bits_per_key =
     (let k = bloom_k bits_per_key;
          len = bloom_bytes (length keys) bits_per_key;
          nbits = len * 8;
          bits = fold (add_key k nbits) keys (replicate len 0)
      in PutFixed32 (of_nat k) @ PutFixed32 (of_nat nbits) @ bits)"

definition BloomMayContain :: "bytes \<Rightarrow> bytes \<Rightarrow> bool" where
  "BloomMayContain filt key =
     (if length filt < 8 then True
      else let k = unat (DecodeFixed32 filt); nbits = unat (DecodeFixed32 (drop 4 filt))
           in if nbits = 0 \<or> length filt - 8 < (nbits + 7) div 8 then True
              else list_all (\<lambda>i. test_bit_at (drop 8 filt) (probe (Hashes key) nbits i)) [0..<k])"

subsection \<open>Bits stay set\<close>

lemma test_bit_at_iff: "test_bit_at bits j \<longleftrightarrow> bit (bits ! (j div 8)) (j mod 8)"
  by (simp add: test_bit_at_def bit_iff_and_push_bit_not_eq_0)

lemma length_set_bit_at [simp]: "length (set_bit_at j bits) = length bits"
  by (simp add: set_bit_at_def)

lemma test_set_bit:
  assumes "j < 8 * length bits"
  shows "test_bit_at (set_bit_at j bits) i \<longleftrightarrow> i = j \<or> test_bit_at bits i"
proof -
  have j: "j div 8 < length bits" using assms by (simp add: div_less_iff_less_mult mult.commute)
  have "bit (push_bit (j mod 8) 1 :: byte) (i mod 8) \<longleftrightarrow> i mod 8 = j mod 8"
    by (auto simp: bit_simps)
  moreover have "i = j \<longleftrightarrow> i div 8 = j div 8 \<and> i mod 8 = j mod 8"
    by (metis div_mult_mod_eq)
  ultimately show ?thesis
    using j by (auto simp: test_bit_at_iff set_bit_at_def nth_list_update bit_or_iff)
qed

lemma fold_set_bits:
  assumes "\<forall>j\<in>set js. j < 8 * length bits"
  shows "test_bit_at (fold set_bit_at js bits) i \<longleftrightarrow> i \<in> set js \<or> test_bit_at bits i"
    and "length (fold set_bit_at js bits) = length bits"
  using assms by (induction js arbitrary: bits) (auto simp: test_set_bit)

lemma add_key_fold: "add_key k nbits key bits = fold set_bit_at (map (probe (Hashes key) nbits) [0..<k]) bits"
  by (simp add: add_key_def Let_def fold_map comp_def)

lemma probe_less: "0 < nbits \<Longrightarrow> probe hs nbits i < nbits"
  by (simp add: probe_def)

lemma add_key_bits:
  assumes "0 < length bits" and "nbits = length bits * 8"
  shows "test_bit_at (add_key k nbits key bits) i \<longleftrightarrow>
           i \<in> probe (Hashes key) nbits ` {..<k} \<or> test_bit_at bits i"
    and "length (add_key k nbits key bits) = length bits"
proof -
  have "\<forall>j\<in>set (map (probe (Hashes key) nbits) [0..<k]). j < 8 * length bits"
    using assms probe_less [of nbits] by (auto simp: mult.commute)
  note f = fold_set_bits [OF this]
  show "test_bit_at (add_key k nbits key bits) i \<longleftrightarrow>
      i \<in> probe (Hashes key) nbits ` {..<k} \<or> test_bit_at bits i"
    unfolding add_key_fold f(1) by (auto simp: lessThan_atLeast0)
  show "length (add_key k nbits key bits) = length bits" unfolding add_key_fold by (rule f(2))
qed

lemma fold_add_key:
  assumes "0 < length bits" and "nbits = length bits * 8"
  shows "(test_bit_at (fold (add_key k nbits) keys bits) j \<longleftrightarrow>
            (\<exists>key\<in>set keys. j \<in> probe (Hashes key) nbits ` {..<k}) \<or> test_bit_at bits j) \<and>
         length (fold (add_key k nbits) keys bits) = length bits"
  using assms
proof (induction keys arbitrary: bits)
  case (Cons a keys)
  let ?b = "add_key k nbits a bits"
  note s = add_key_bits [OF Cons.prems, of k a]
  have "(test_bit_at (fold (add_key k nbits) keys ?b) j \<longleftrightarrow>
      (\<exists>key\<in>set keys. j \<in> probe (Hashes key) nbits ` {..<k}) \<or> test_bit_at ?b j) \<and>
      length (fold (add_key k nbits) keys ?b) = length ?b"
    by (rule Cons.IH) (use Cons.prems s(2) in simp_all)
  then show ?case using s by auto
qed simp

lemma bloom_bytes_pos: "0 < bloom_bytes n b"
  by (simp add: bloom_bytes_def div_greater_zero_iff)

lemma bloom_k_bounds: "1 \<le> bloom_k b \<and> bloom_k b \<le> 30"
  by (simp add: bloom_k_def Let_def)

lemma BloomMayContain_Build:
  assumes "key \<in> set keys" and "bloom_bytes (length keys) b * 8 < 2 ^ 32"
  shows "BloomMayContain (BuildBloom keys b) key"
proof -
  define k len where "k = bloom_k b" and "len = bloom_bytes (length keys) b"
  define bits where "bits = fold (add_key k (len * 8)) keys (replicate len 0)"
  have pos: "0 < len" by (simp add: len_def bloom_bytes_pos)
  have f: "test_bit_at bits j \<longleftrightarrow> (\<exists>key\<in>set keys. j \<in> probe (Hashes key) (len * 8) ` {..<k}) \<or>
      test_bit_at (replicate len 0) j" "length bits = len" for j
    using fold_add_key [of "replicate len 0" "len * 8" k keys] pos by (auto simp: bits_def)
  have B: "BuildBloom keys b = PutFixed32 (of_nat k) @ PutFixed32 (of_nat (len * 8)) @ bits"
    by (simp add: BuildBloom_def k_def len_def bits_def Let_def)
  have k: "unat (of_nat k :: u32) = k" using bloom_k_bounds [of b] by (intro unat_of_nat_u32) (simp add: k_def)
  have n: "unat (of_nat (len * 8) :: u32) = len * 8" using assms(2) by (intro unat_of_nat_u32) (simp add: len_def)
  have d: "unat (DecodeFixed32 (BuildBloom keys b)) = k" "unat (DecodeFixed32 (drop 4 (BuildBloom keys b))) = len * 8"
      "drop 8 (BuildBloom keys b) = bits" "length (BuildBloom keys b) = 8 + len"
    unfolding B by (simp_all add: codec k n f(2) del: of_nat_mult)
  have "test_bit_at bits (probe (Hashes key) (len * 8) i)" if "i < k" for i
    using f(1) assms(1) that by blast
  then show ?thesis
    unfolding BloomMayContain_def d Let_def by (simp add: list_all_iff)
qed

text \<open>
  (C32) A filter has no false negatives: a key the filter was built from always passes, for every
  number of bits per key, as long as the number of bits fits the 32-bit probe arithmetic; and
  the number of probes, which the filter stores in one byte, lies between 1 and 30.
\<close>
theorem bloom_no_false_negatives:
  assumes "key \<in> set keys" and "bloom_bytes (length keys) bits_per_key * 8 < 2 ^ 32"
  shows "BloomMayContain (BuildBloom keys bits_per_key) key \<and> 1 \<le> bloom_k bits_per_key \<and> bloom_k bits_per_key \<le> 30"
  using BloomMayContain_Build [OF assms] bloom_k_bounds by blast

theorem bloom_no_false_negatives_witness:
  "BloomMayContain (BuildBloom [[97], [98, 0]] 10) [98, 0] \<and> 1 \<le> bloom_k 10 \<and> bloom_k 10 \<le> 30"
  by (rule bloom_no_false_negatives) (simp_all add: bloom_bytes_def)

end
