(* ===== verification/SSTable.thy ===== *)
theory SSTable
  imports Bloom Iter Fs
begin

text \<open>
  Sorted tables (\<open>src/storage/sstable.h\<close>, \<open>sstable.cc\<close>): the builder that writes data blocks, a
  sparse index, a Bloom filter and a footer, the reader with its binary search, and the table
  iterator.  An open file is what \<open>pread\<close> returns for an offset and a size: bytes, fewer than
  asked for perhaps, or an error; \<open>file_view\<close> is the view of a healthy file.

  The lemmas show that a table opened on what the builder wrote runs over exactly the
  entries added, that \<open>Seek\<close> lands where a linear search would, and that \<open>Get\<close> returns the
  newest version; and that an unreadable block ends an iteration as if the table ended there.
\<close>

subsection \<open>Building a table\<close>

record TableMeta =
  tm_number :: nat
  tm_level :: int
  tm_smallest :: bytes
  tm_largest :: bytes
  tm_entries :: nat
  tm_file_bytes :: nat

definition empty_meta :: TableMeta where
  "empty_meta = \<lparr>tm_number = 0, tm_level = 0, tm_smallest = [], tm_largest = [], tm_entries = 0, tm_file_bytes = 0\<rparr>"

definition kTableMagic :: u64 where
  "kTableMagic = 0xF107111ADB"

definition kTableVersion :: u32 where
  "kTableVersion = 1"

definition kFooterSize :: nat where
  "kFooterSize = 8 + 4 + 8 + 4 + 8 + 4 + 8"

record TableOptions =
  to_block_size :: nat
  to_bloom_bits_per_key :: nat

definition AppendEntry :: "Entry \<Rightarrow> bytes" where
  "AppendEntry e =
     PutLengthPrefixed (en_key e) @ PutFixed64 (en_seqno e) @ PutFixed8 (op_value (en_op e)) @
     PutLengthPrefixed (en_value e)"

definition ParseEntry :: "decoder \<Rightarrow> Entry option \<times> decoder" where
  "ParseEntry d =
     (let (key, d) = Str d; (seqno, d) = U64 d; (op, d) = U8 d; (val, d) = Str d
      in (if dec_ok d
          then map_option (\<lambda>op. \<lparr>en_key = key, en_seqno = seqno, en_op = op, en_value = val\<rparr>) (op_of_value op)
          else None, d))"

record TableBuilder =
  bd_path :: bytes
  bd_opts :: TableOptions
  bd_status :: status
  bd_block :: bytes
  bd_block_first_key :: bytes
  bd_index :: bytes
  bd_keys :: "bytes list"
  bd_offset :: nat
  bd_entries :: nat
  bd_smallest :: bytes
  bd_largest :: bytes
  bd_finished :: bool

definition TableBuilder_new :: "bytes \<Rightarrow> TableOptions \<Rightarrow> world \<Rightarrow> TableBuilder \<times> world" where
  "TableBuilder_new path opts w =
     (let b = \<lparr>bd_path = path, bd_opts = opts, bd_status = OK, bd_block = [], bd_block_first_key = [],
            bd_index = [], bd_keys = [], bd_offset = 0, bd_entries = 0, bd_smallest = [], bd_largest = [],
            bd_finished = False\<rparr>
      in case sys_call (set_file path []) w of
           (Some e, w1) \<Rightarrow> (b\<lparr>bd_status := Errno (str ''open sst '' @ path) e\<rparr>, w1)
         | (None, w1) \<Rightarrow> (b, w1))"

definition WriteRaw :: "bytes \<Rightarrow> TableBuilder \<Rightarrow> world \<Rightarrow> status \<times> TableBuilder \<times> world" where
  "WriteRaw data b w =
     (case write_loop (bd_path b) data w of
        (Some e, w1) \<Rightarrow> (Errno (str ''write sst '' @ bd_path b) e, b, w1)
      | (None, w1) \<Rightarrow> (OK, b\<lparr>bd_offset := bd_offset b + length data\<rparr>, w1))"

definition FlushBlock :: "TableBuilder \<Rightarrow> world \<Rightarrow> status \<times> TableBuilder \<times> world" where
  "FlushBlock b w =
     (if bd_block b = [] then (OK, b, w)
      else let b1 = b\<lparr>bd_index := bd_index b @ PutLengthPrefixed (bd_block_first_key b) @
                      PutFixed64 (of_nat (bd_offset b)) @ PutFixed32 (of_nat (length (bd_block b)))\<rparr>
           in case WriteRaw (bd_block b1) b1 w of
                (s, b2, w1) \<Rightarrow> (s, b2\<lparr>bd_block := [], bd_block_first_key := []\<rparr>, w1))"

text \<open>The bookkeeping of \<open>Add\<close> before the block is flushed.\<close>

definition note_entry :: "Entry \<Rightarrow> TableBuilder \<Rightarrow> TableBuilder" where
  "note_entry e b =
     b\<lparr>bd_block_first_key := (if bd_block b = [] then en_key e else bd_block_first_key b),
       bd_smallest := (if bd_entries b = 0 then en_key e else bd_smallest b),
       bd_largest := en_key e,
       bd_keys := (if bd_keys b = [] \<or> last (bd_keys b) \<noteq> en_key e then bd_keys b @ [en_key e] else bd_keys b),
       bd_block := bd_block b @ AppendEntry e,
       bd_entries := bd_entries b + 1\<rparr>"

definition builder_Add :: "Entry \<Rightarrow> TableBuilder \<Rightarrow> world \<Rightarrow> status \<times> TableBuilder \<times> world" where
  "builder_Add e b w =
     (if \<not> is_ok (bd_status b) then (bd_status b, b, w)
      else let b1 = note_entry e b
           in if length (bd_block b1) \<ge> to_block_size (bd_opts b1)
              then (case FlushBlock b1 w of (s, b2, w1) \<Rightarrow> (s, b2\<lparr>bd_status := s\<rparr>, w1))
              else (bd_status b1, b1, w))"

text \<open>A step of \<open>Finish\<close>: \<open>status_ = ...; if (!status_.ok()) return status_;\<close>.\<close>

definition write_part :: "bytes \<Rightarrow> TableBuilder \<Rightarrow> world \<Rightarrow> status \<times> TableBuilder \<times> world" where
  "write_part data b w =
     (if \<not> is_ok (bd_status b) then (bd_status b, b, w)
      else case WriteRaw data b w of (s, b1, w1) \<Rightarrow> (s, b1\<lparr>bd_status := s\<rparr>, w1))"

definition table_footer :: "nat \<Rightarrow> nat \<Rightarrow> nat \<Rightarrow> nat \<Rightarrow> nat \<Rightarrow> bytes" where
  "table_footer index_off index_size bloom_off bloom_size entries =
     PutFixed64 (of_nat index_off) @ PutFixed32 (of_nat index_size) @ PutFixed64 (of_nat bloom_off) @
     PutFixed32 (of_nat bloom_size) @ PutFixed64 (of_nat entries) @ PutFixed32 kTableVersion @
     PutFixed64 kTableMagic"

definition builder_meta :: "TableBuilder \<Rightarrow> TableMeta" where
  "builder_meta b =
     empty_meta\<lparr>tm_smallest := bd_smallest b, tm_largest := bd_largest b, tm_entries := bd_entries b,
                tm_file_bytes := bd_offset b\<rparr>"

definition Finish :: "TableBuilder \<Rightarrow> world \<Rightarrow> (status, TableMeta) sum \<times> TableBuilder \<times> world" where
  "Finish b w =
     (if \<not> is_ok (bd_status b) then (Inl (bd_status b), b, w)
      else case FlushBlock b w of (s, b1, w1) \<Rightarrow>
       (let b1 = b1\<lparr>bd_status := s\<rparr>; index_off = bd_offset b1; index_size = length (bd_index b1)
        in case write_part (bd_index b1) b1 w1 of (s, b2, w2) \<Rightarrow>
         (let bloom = BuildBloom (bd_keys b2) (to_bloom_bits_per_key (bd_opts b2)); bloom_off = bd_offset b2
          in case write_part bloom b2 w2 of (s, b3, w3) \<Rightarrow>
           (case write_part (table_footer index_off index_size bloom_off (length bloom) (bd_entries b3)) b3 w3 of
              (s, b4, w4) \<Rightarrow>
                if \<not> is_ok (bd_status b4) then (Inl (bd_status b4), b4, w4)
                else (case sys_call id w4 of
                        (Some e, w5) \<Rightarrow>
                          (let s = Errno (str ''fsync sst '' @ bd_path b4) e in (Inl s, b4\<lparr>bd_status := s\<rparr>, w5))
                      | (None, w5) \<Rightarrow> (Inr (builder_meta b4), b4\<lparr>bd_finished := True\<rparr>, w5))))))"

definition Abandon :: "TableBuilder \<Rightarrow> world \<Rightarrow> world" where
  "Abandon b w = snd (sys_call (drop_file (bd_path b)) w)"

definition BytesWritten :: "TableBuilder \<Rightarrow> nat" where
  "BytesWritten b = bd_offset b + length (bd_block b)"

subsection \<open>Reading a table\<close>

type_synonym file_view = "nat \<Rightarrow> nat \<Rightarrow> (bytes, bytes) sum"

definition view_of :: "bytes \<Rightarrow> file_view" where
  "view_of data off n = (if off \<ge> 2 ^ 63 then Inl (str ''Invalid argument'') else Inr (take n (drop off data)))"

record IndexEntry =
  ie_first_key :: bytes
  ie_offset :: nat
  ie_size :: nat

record Table =
  tb_path :: bytes
  tb_view :: file_view
  tb_index :: "IndexEntry list"
  tb_bloom :: bytes
  tb_num_entries :: nat

function pread_loop :: "bytes \<Rightarrow> file_view \<Rightarrow> nat \<Rightarrow> nat \<Rightarrow> (status, bytes) sum" where
  "pread_loop path view off n =
     (if n = 0 then Inr []
      else case view off n of
        Inl e \<Rightarrow> Inl (Errno (str ''pread sst '' @ path) e)
      | Inr bs \<Rightarrow>
          if bs = [] then Inl (Corruption (str ''short read sst '' @ path))
          else (case pread_loop path view (off + length (take n bs)) (n - length (take n bs)) of
                  Inl s \<Rightarrow> Inl s
                | Inr rest \<Rightarrow> Inr (take n bs @ rest)))"
  by pat_completeness auto
termination
  by (relation "measure (\<lambda>(path, view, off, n). n)") auto

declare pread_loop.simps [simp del]

definition ReadBlock :: "Table \<Rightarrow> nat \<Rightarrow> nat \<Rightarrow> (status, bytes) sum" where
  "ReadBlock t off n = pread_loop (tb_path t) (tb_view t) off n"

text \<open>The loop over the index: every entry that decodes takes at least sixteen bytes.\<close>

lemma read_with_ok:
  assumes "read_with n f d = (v, d')" and "dec_ok d'" and "0 < n"
  shows "dec_data d' = dec_data d \<and> dec_pos d' = dec_pos d + n \<and> dec_pos d' \<le> length (dec_data d) \<and> dec_ok d"
  using assms
  by (auto simp: read_with_def Have_def Advance_def dec_ok_def split: if_splits)

lemma Str_ok:
  assumes "Str d = (v, d')" and "dec_ok d'"
  shows "dec_data d' = dec_data d \<and> dec_pos d \<le> dec_pos d' \<and> dec_ok d"
  using assms
  by (auto simp: Str_def LengthPrefixed_def U32_def Bytes_def read_with_def Have_def Advance_def dec_ok_def
      split: if_splits prod.splits)

lemma index_progress:
  assumes "Str d = (k, d1)" "U64 d1 = (off, d2)" "U32 d2 = (n, d3)" "dec_ok d3"
  shows "remaining d3 < remaining d"
  using Str_ok [OF assms(1)] read_with_ok [OF assms(2) [unfolded U64_def]]
    read_with_ok [OF assms(3) [unfolded U32_def]] assms(4)
  by (auto simp: remaining_def)

function parse_index :: "decoder \<Rightarrow> IndexEntry list option" where
  "parse_index d =
     (if remaining d = 0 then Some []
      else let (first_key, d1) = Str d; (off, d2) = U64 d1; (n, d3) = U32 d2
           in if \<not> dec_ok d3 then None
              else map_option (\<lambda>rest. \<lparr>ie_first_key = first_key, ie_offset = unat off, ie_size = unat n\<rparr> # rest)
                     (parse_index d3))"
  by pat_completeness auto
termination
  by (relation "measure remaining") (auto intro: index_progress [OF sym sym sym])

declare parse_index.simps [simp del]

text \<open>\<open>Table::Open\<close> after the file is open: its view and its size.\<close>

definition open_view :: "bytes \<Rightarrow> file_view \<Rightarrow> nat \<Rightarrow> (status, Table) sum" where
  "open_view path view file_size =
     (let t = \<lparr>tb_path = path, tb_view = view, tb_index = [], tb_bloom = [], tb_num_entries = 0\<rparr>
      in if file_size < kFooterSize then Inl (Corruption (str ''sst too small: '' @ path))
         else case ReadBlock t (file_size - kFooterSize) kFooterSize of
           Inl s \<Rightarrow> Inl s
         | Inr footer \<Rightarrow>
             (let (index_off, d) = U64 (Decoder footer); (index_size, d) = U32 d; (bloom_off, d) = U64 d;
                  (bloom_size, d) = U32 d; (num_entries, d) = U64 d; (version, d) = U32 d; (magic, d) = U64 d
              in if \<not> dec_ok d \<or> magic \<noteq> kTableMagic \<or> version \<noteq> kTableVersion
                 then Inl (Corruption (str ''bad sst footer: '' @ path))
                 else case ReadBlock t (unat index_off) (unat index_size) of
                   Inl s \<Rightarrow> Inl s
                 | Inr index_data \<Rightarrow>
                     (case parse_index (Decoder index_data) of
                        None \<Rightarrow> Inl (Corruption (str ''bad sst index: '' @ path))
                      | Some index \<Rightarrow>
                          (case ReadBlock t (unat bloom_off) (unat bloom_size) of
                             Inl s \<Rightarrow> Inl s
                           | Inr bloom \<Rightarrow>
                               Inr (t\<lparr>tb_index := index, tb_bloom := bloom, tb_num_entries := unat num_entries\<rparr>)))))"

definition Table_Open :: "bytes \<Rightarrow> world \<Rightarrow> (status, Table) sum \<times> world" where
  "Table_Open path w =
     (case next_io w of
        (IoFail e, w1) \<Rightarrow> (Inl (Errno (str ''open sst '' @ path) e), w1)
      | (_, w1) \<Rightarrow>
          (case w_files w1 path of
             None \<Rightarrow> (Inl (Errno (str ''open sst '' @ path) (str ''No such file or directory'')), w1)
           | Some data \<Rightarrow> (open_view path (view_of data) (length data), w1)))"

function find_block :: "IndexEntry list \<Rightarrow> bytes \<Rightarrow> int \<Rightarrow> int \<Rightarrow> int \<Rightarrow> int" where
  "find_block index key lo hi ans =
     (if lo \<le> hi
      then let mid = (lo + hi) div 2
           in if ie_first_key (index ! nat mid) < key then find_block index key (mid + 1) hi mid
              else find_block index key lo (mid - 1) ans
      else ans)"
  by pat_completeness auto
termination
  by (relation "measure (\<lambda>(index, key, lo, hi, ans). nat (hi - lo + 1))") auto

declare find_block.simps [simp del]

definition FindBlock :: "Table \<Rightarrow> bytes \<Rightarrow> int" where
  "FindBlock t key = find_block (tb_index t) key 0 (int (length (tb_index t)) - 1) (- 1)"

subsection \<open>The table iterator\<close>

record table_iter =
  ti_table :: Table
  ti_block_idx :: nat
  ti_block :: bytes
  ti_pos :: nat
  ti_entry :: Entry
  ti_valid :: bool

definition ParseNext :: "table_iter \<Rightarrow> bool \<times> table_iter" where
  "ParseNext it =
     (if ti_pos it \<ge> length (ti_block it) then (False, it)
      else let d = Decoder (drop (ti_pos it) (ti_block it))
           in case ParseEntry d of
                (None, _) \<Rightarrow> (False, it\<lparr>ti_valid := False\<rparr>)
              | (Some e, d1) \<Rightarrow>
                  (True, it\<lparr>ti_entry := e, ti_pos := ti_pos it + (remaining d - remaining d1), ti_valid := True\<rparr>))"

definition LoadBlockAndParse :: "nat \<Rightarrow> table_iter \<Rightarrow> table_iter" where
  "LoadBlockAndParse idx it =
     (let it = it\<lparr>ti_valid := False\<rparr>
      in if idx \<ge> length (tb_index (ti_table it)) then it
         else let ie = tb_index (ti_table it) ! idx
              in case ReadBlock (ti_table it) (ie_offset ie) (ie_size ie) of
                   Inl _ \<Rightarrow> it
                 | Inr block \<Rightarrow>
                     (case ParseNext (it\<lparr>ti_block := block, ti_pos := 0\<rparr>) of
                        (True, it1) \<Rightarrow> it1
                      | (False, it1) \<Rightarrow> it1\<lparr>ti_valid := False\<rparr>))"

definition table_NewIterator :: "Table \<Rightarrow> table_iter" where
  "table_NewIterator t =
     \<lparr>ti_table = t, ti_block_idx = 0, ti_block = [], ti_pos = 0,
      ti_entry = \<lparr>en_key = [], en_seqno = 0, en_op = kPut, en_value = []\<rparr>, ti_valid = False\<rparr>"

definition table_SeekToFirst :: "table_iter \<Rightarrow> table_iter" where
  "table_SeekToFirst it = LoadBlockAndParse 0 (it\<lparr>ti_block_idx := 0\<rparr>)"

definition table_Next :: "table_iter \<Rightarrow> table_iter" where
  "table_Next it =
     (if \<not> ti_valid it then it
      else case ParseNext it of
        (True, it1) \<Rightarrow> it1
      | (False, it1) \<Rightarrow> LoadBlockAndParse (ti_block_idx it1 + 1) (it1\<lparr>ti_block_idx := ti_block_idx it1 + 1\<rparr>))"

text \<open>The loop of \<open>Seek\<close>: every turn moves forward in the block or to a later block.\<close>

lemma ParseEntry_progress:
  assumes "ParseEntry d = (Some e, d')"
  shows "remaining d' < remaining d"
proof -
  obtain key d1 seqno d2 op d3 val where g: "Str d = (key, d1)" "U64 d1 = (seqno, d2)" "U8 d2 = (op, d3)"
      "Str d3 = (val, d')" "dec_ok d'"
    using assms by (auto simp: ParseEntry_def Let_def split: prod.splits if_splits)
  show ?thesis
    using Str_ok [OF g(1)] read_with_ok [OF g(2) [unfolded U64_def]] read_with_ok [OF g(3) [unfolded U8_def]]
      Str_ok [OF g(4)] g(5) by (auto simp: remaining_def)
qed

lemma ParseNext_True:
  assumes "ParseNext it = (True, it')"
  shows "ti_table it' = ti_table it \<and> ti_block_idx it' = ti_block_idx it \<and> ti_block it' = ti_block it \<and>
         ti_pos it < length (ti_block it) \<and> ti_pos it < ti_pos it' \<and> ti_valid it'"
  using assms by (auto simp: ParseNext_def Let_def dest: ParseEntry_progress split: if_splits prod.splits option.splits)

lemma ParseNext_False:
  assumes "ParseNext it = (False, it')"
  shows "ti_table it' = ti_table it \<and> ti_block_idx it' = ti_block_idx it"
  using assms by (auto simp: ParseNext_def Let_def split: if_splits prod.splits option.splits)

lemma LoadBlockAndParse_frame:
  "ti_table (LoadBlockAndParse idx it) = ti_table it \<and> ti_block_idx (LoadBlockAndParse idx it) = ti_block_idx it \<and>
   (idx \<ge> length (tb_index (ti_table it)) \<longrightarrow> \<not> ti_valid (LoadBlockAndParse idx it))"
  by (auto simp: LoadBlockAndParse_def Let_def dest: ParseNext_True ParseNext_False split: sum.splits prod.splits bool.splits)

lemma table_Next_progress:
  assumes "ti_valid it"
  shows "(table_Next it, it) \<in> measures
           [\<lambda>it. length (tb_index (ti_table it)) - ti_block_idx it,
            \<lambda>it. if ti_valid it then Suc (length (ti_block it) - ti_pos it) else 0]"
proof (cases "ParseNext it")
  case (Pair ok it1)
  show ?thesis
  proof (cases ok)
    case True
    then show ?thesis using ParseNext_True [of it it1] Pair assms by (auto simp: table_Next_def)
  next
    case False
    have f: "ti_table it1 = ti_table it" "ti_block_idx it1 = ti_block_idx it"
      using ParseNext_False [of it it1] Pair False by auto
    let ?it = "LoadBlockAndParse (ti_block_idx it1 + 1) (it1\<lparr>ti_block_idx := ti_block_idx it1 + 1\<rparr>)"
    have n: "table_Next it = ?it" using Pair False assms by (simp add: table_Next_def)
    show ?thesis unfolding n
      using LoadBlockAndParse_frame [of "ti_block_idx it1 + 1" "it1\<lparr>ti_block_idx := ti_block_idx it1 + 1\<rparr>"] f assms
      by (cases "ti_block_idx it + 1 \<ge> length (tb_index (ti_table it))") auto
  qed
qed

function table_seek_loop :: "bytes \<Rightarrow> table_iter \<Rightarrow> table_iter" where
  "table_seek_loop key it =
     (if ti_valid it \<and> en_key (ti_entry it) < key then table_seek_loop key (table_Next it) else it)"
  by pat_completeness auto
termination
proof (relation "inv_image (measures
           [\<lambda>it. length (tb_index (ti_table it)) - ti_block_idx it,
            \<lambda>it. if ti_valid it then Suc (length (ti_block it) - ti_pos it) else 0]) snd")
qed (use table_Next_progress in auto)

declare table_seek_loop.simps [simp del]

definition table_Seek :: "bytes \<Rightarrow> table_iter \<Rightarrow> table_iter" where
  "table_Seek key it =
     (let slot = FindBlock (ti_table it) key;
          idx = (if slot < 0 then 0 else nat slot)
      in table_seek_loop key (LoadBlockAndParse idx (it\<lparr>ti_block_idx := idx\<rparr>)))"

definition table_ops :: "table_iter iter_ops" where
  "table_ops = \<lparr>it_Valid = ti_valid, it_SeekToFirst = table_SeekToFirst, it_Seek = table_Seek,
     it_Next = table_Next, it_entry = ti_entry\<rparr>"

definition Table_Get :: "Table \<Rightarrow> bytes \<Rightarrow> Entry option" where
  "Table_Get t key =
     (if \<not> BloomMayContain (tb_bloom t) key then None
      else let it = table_Seek key (table_NewIterator t)
           in if ti_valid it \<and> en_key (ti_entry it) = key then Some (ti_entry it) else None)"

subsection \<open>Binary search\<close>

lemma find_block_spec:
  assumes "sorted (map ie_first_key index)"
    and "-1 \<le> lo - 1" "hi < int (length index)" "lo \<le> hi + 1" "ans = lo - 1"
    and "\<forall>j<nat lo. ie_first_key (index ! j) < key"
    and "\<forall>j. nat (hi + 1) \<le> j \<longrightarrow> j < length index \<longrightarrow> \<not> ie_first_key (index ! j) < key"
  shows "find_block index key lo hi ans = int (length (takeWhile (\<lambda>ie. ie_first_key ie < key) index)) - 1"
  using assms
proof (induction index key lo hi ans rule: find_block.induct)
  case (1 index key lo hi ans)
  let ?mid = "(lo + hi) div 2"
  show ?case
  proof (cases "lo \<le> hi")
    case True
    then have mid: "lo \<le> ?mid" "?mid \<le> hi" by auto
    have ml: "nat ?mid < length index" using mid 1(5) 1(4) by linarith
    show ?thesis
    proof (cases "ie_first_key (index ! nat ?mid) < key")
      case less: True
      have "find_block index key lo hi ans = find_block index key (?mid + 1) hi ?mid"
        using True less by (subst find_block.simps) (simp add: Let_def)
      also have "\<dots> = int (length (takeWhile (\<lambda>ie. ie_first_key ie < key) index)) - 1"
      proof (rule "1.IH"(1) [OF True refl less])
        show "\<forall>j<nat (?mid + 1). ie_first_key (index ! j) < key"
        proof (intro allI impI)
          fix j assume "j < nat (?mid + 1)"
          then have "j \<le> nat ?mid" using mid 1(4) by linarith
          then have "ie_first_key (index ! j) \<le> ie_first_key (index ! nat ?mid)"
            using 1(3) ml sorted_nth_mono [of "map ie_first_key index" j "nat ?mid"] by simp
          with less show "ie_first_key (index ! j) < key" by simp
        qed
      qed (use 1 mid True in auto)
      finally show ?thesis .
    next
      case ge: False
      have "find_block index key lo hi ans = find_block index key lo (?mid - 1) ans"
        using True ge by (subst find_block.simps) (simp add: Let_def)
      also have "\<dots> = int (length (takeWhile (\<lambda>ie. ie_first_key ie < key) index)) - 1"
      proof (rule "1.IH"(2) [OF True refl ge])
        show "\<forall>j. nat (?mid - 1 + 1) \<le> j \<longrightarrow> j < length index \<longrightarrow> \<not> ie_first_key (index ! j) < key"
        proof (intro allI impI)
          fix j assume "nat (?mid - 1 + 1) \<le> j" "j < length index"
          then have "ie_first_key (index ! nat ?mid) \<le> ie_first_key (index ! j)"
            using 1(3) sorted_nth_mono [of "map ie_first_key index" "nat ?mid" j] by simp
          with ge show "\<not> ie_first_key (index ! j) < key" by simp
        qed
      qed (use 1 mid True in auto)
      finally show ?thesis .
    qed
  next
    case False
    then have lh: "lo = hi + 1" using 1(6) by simp
    have "takeWhile (\<lambda>ie. ie_first_key ie < key) index = take (nat lo) index"
      by (rule takeWhile_eq_take_P_nth) (use 1(8,9) lh in auto)
    moreover have "nat lo \<le> length index" using lh 1(4,5) by linarith
    ultimately show ?thesis using False 1(4,7) by (subst find_block.simps) simp
  qed
qed

lemma FindBlock_spec:
  assumes "sorted (map ie_first_key (tb_index t))"
  shows "FindBlock t key = int (length (takeWhile (\<lambda>ie. ie_first_key ie < key) (tb_index t))) - 1"
  unfolding FindBlock_def by (rule find_block_spec) (use assms in auto)

subsection \<open>A table as blocks of entries\<close>

definition block_bytes :: "Entry list \<Rightarrow> bytes" where
  "block_bytes es = concat (map AppendEntry es)"

lemma block_bytes_simps [simp]:
  "block_bytes [] = []" "block_bytes (e # es) = AppendEntry e @ block_bytes es"
  "block_bytes (xs @ ys) = block_bytes xs @ block_bytes ys"
  by (simp_all add: block_bytes_def)

definition kv_fits :: "Entry \<Rightarrow> bool" where
  "kv_fits e \<longleftrightarrow> size32 (en_key e) \<and> size32 (en_value e)"

text \<open>
  The blocks \<open>bs\<close> of the table \<open>t\<close> can be read: the index names them in order, and reading where
  an index entry points gives the bytes of its block.  Either they are all the blocks of the
  table, or the next one cannot be read.
\<close>

definition readable :: "Table \<Rightarrow> Entry list list \<Rightarrow> bool" where
  "readable t bs \<longleftrightarrow>
     length bs \<le> length (tb_index t) \<and>
     (\<forall>j<length bs. bs ! j \<noteq> [] \<and> list_all kv_fits (bs ! j) \<and>
        ie_first_key (tb_index t ! j) = en_key (hd (bs ! j)) \<and>
        ReadBlock t (ie_offset (tb_index t ! j)) (ie_size (tb_index t ! j)) = Inr (block_bytes (bs ! j))) \<and>
     (length bs < length (tb_index t) \<longrightarrow>
        (\<exists>s. ReadBlock t (ie_offset (tb_index t ! length bs)) (ie_size (tb_index t ! length bs)) = Inl s))"

definition table_blocks :: "Table \<Rightarrow> Entry list list \<Rightarrow> bool" where
  "table_blocks t bs \<longleftrightarrow> readable t bs \<and> length (tb_index t) = length bs \<and> sorted_entries (concat bs)"

definition table_holds :: "Table \<Rightarrow> Entry list \<Rightarrow> bool" where
  "table_holds t es \<longleftrightarrow> (\<exists>bs. table_blocks t bs \<and> es = concat bs) \<and>
     (\<forall>e\<in>set es. BloomMayContain (tb_bloom t) (en_key e))"

text \<open>The iterator stands in the readable part of its table with \<open>xs\<close> ahead.\<close>

definition scan_at :: "table_iter \<Rightarrow> Entry list list \<Rightarrow> Entry list \<Rightarrow> bool" where
  "scan_at it bs xs \<longleftrightarrow>
     readable (ti_table it) bs \<and>
        (if ti_valid it
         then ti_block_idx it < length bs \<and>
              (\<exists>us e vs. bs ! ti_block_idx it = us @ e # vs \<and> ti_block it = block_bytes (us @ e # vs) \<and>
                 ti_pos it = length (block_bytes (us @ [e])) \<and> ti_entry it = e \<and>
                 xs = e # vs @ concat (drop (Suc (ti_block_idx it)) bs))
         else xs = [])"

definition table_at :: "table_iter \<Rightarrow> Entry list \<Rightarrow> Entry list \<Rightarrow> bool" where
  "table_at it es xs \<longleftrightarrow> (\<exists>bs. table_blocks (ti_table it) bs \<and> es = concat bs \<and> scan_at it bs xs)"

lemma ParseEntry_at:
  "kv_fits e \<Longrightarrow> ParseEntry (dec_at pre (AppendEntry e @ rest)) = (Some e, dec_at (pre @ AppendEntry e) rest)"
  by (simp add: ParseEntry_def AppendEntry_def kv_fits_def codec)

lemma AppendEntry_not_Nil [simp]: "AppendEntry e \<noteq> []"
  by (simp add: AppendEntry_def PutLengthPrefixed_def PutFixed32_def le_bytes_def upt_rec)

lemma ParseNext_entry:
  assumes "ti_block it = pre @ AppendEntry e @ rest" and "ti_pos it = length pre" and "kv_fits e"
  shows "ParseNext it = (True, it\<lparr>ti_entry := e, ti_pos := length (pre @ AppendEntry e), ti_valid := True\<rparr>)"
proof -
  have d: "Decoder (drop (ti_pos it) (ti_block it)) = dec_at [] (AppendEntry e @ rest)"
    using assms by (simp add: Decoder_dec_at)
  have "ti_pos it < length (ti_block it)" using assms by simp
  then show ?thesis
    unfolding ParseNext_def d Let_def ParseEntry_at [OF assms(3)]
    using assms(2) by (simp add: remaining_at)
qed

lemma load_block:
  assumes "readable (ti_table it) bs" and "j \<le> length bs"
  shows "scan_at (LoadBlockAndParse j (it\<lparr>ti_block_idx := j\<rparr>)) bs (concat (drop j bs)) \<and>
         ti_table (LoadBlockAndParse j (it\<lparr>ti_block_idx := j\<rparr>)) = ti_table it"
proof (cases "j < length bs")
  case True
  then obtain e vs where b: "bs ! j = e # vs" using assms by (cases "bs ! j") (auto simp: readable_def)
  have fit: "kv_fits e" and
    rd: "ReadBlock (ti_table it) (ie_offset (tb_index (ti_table it) ! j)) (ie_size (tb_index (ti_table it) ! j)) =
       Inr (block_bytes (e # vs))" and len: "j < length (tb_index (ti_table it))"
    using assms True b unfolding readable_def by (auto dest: spec [of _ j])
  let ?it = "it\<lparr>ti_block_idx := j, ti_valid := False, ti_block := block_bytes (e # vs), ti_pos := 0\<rparr>"
  have "ParseNext ?it = (True, ?it\<lparr>ti_entry := e, ti_pos := length ([] @ AppendEntry e), ti_valid := True\<rparr>)"
    by (rule ParseNext_entry [where rest = "block_bytes vs"]) (simp_all add: fit)
  then have l: "LoadBlockAndParse j (it\<lparr>ti_block_idx := j\<rparr>) =
      ?it\<lparr>ti_entry := e, ti_pos := length (AppendEntry e), ti_valid := True\<rparr>"
    using len rd by (simp add: LoadBlockAndParse_def Let_def)
  have "concat (drop j bs) = e # vs @ concat (drop (Suc j) bs)"
    using True b by (simp add: Cons_nth_drop_Suc [symmetric])
  then show ?thesis
    unfolding scan_at_def l using assms True b by (auto intro!: exI [of _ "[]"])
next
  case False
  then have j: "j = length bs" using assms(2) by simp
  then have "\<not> ti_valid (LoadBlockAndParse j (it\<lparr>ti_block_idx := j\<rparr>))"
    using assms(1) unfolding readable_def by (auto simp: LoadBlockAndParse_def Let_def)
  then show ?thesis
    using assms(1) j LoadBlockAndParse_frame [of j "it\<lparr>ti_block_idx := j\<rparr>"] unfolding scan_at_def by simp
qed

lemma scan_at_next:
  assumes "scan_at it bs (x # xs)"
  shows "ti_valid it" and "ti_entry it = x" and "scan_at (table_Next it) bs xs \<and> ti_table (table_Next it) = ti_table it"
proof -
  show v: "ti_valid it" using assms by (auto simp: scan_at_def split: if_splits)
  obtain us vs where t: "readable (ti_table it) bs" "ti_block_idx it < length bs"
    and b: "bs ! ti_block_idx it = us @ x # vs" "ti_block it = block_bytes (us @ x # vs)"
      "ti_pos it = length (block_bytes (us @ [x]))" "ti_entry it = x"
    and xs: "xs = vs @ concat (drop (Suc (ti_block_idx it)) bs)"
    using assms v by (auto simp: scan_at_def)
  show "ti_entry it = x" by (rule b(4))
  show "scan_at (table_Next it) bs xs \<and> ti_table (table_Next it) = ti_table it"
  proof (cases vs)
    case Nil
    then have "ParseNext it = (False, it)" using b by (simp add: ParseNext_def)
    then have "table_Next it = LoadBlockAndParse (ti_block_idx it + 1) (it\<lparr>ti_block_idx := ti_block_idx it + 1\<rparr>)"
      using v by (simp add: table_Next_def)
    then show ?thesis using load_block [OF t(1), of "Suc (ti_block_idx it)"] t(2) xs Nil by simp
  next
    case (Cons y ys)
    have "kv_fits y"
      using t b(1) Cons unfolding readable_def by (auto dest: spec [of _ "ti_block_idx it"])
    then have "ParseNext it =
        (True, it\<lparr>ti_entry := y, ti_pos := length (block_bytes (us @ [x]) @ AppendEntry y), ti_valid := True\<rparr>)"
      using b Cons by (intro ParseNext_entry [where rest = "block_bytes ys"]) auto
    then have n: "table_Next it =
        it\<lparr>ti_entry := y, ti_pos := length (block_bytes (us @ [x]) @ AppendEntry y), ti_valid := True\<rparr>"
      using v by (simp add: table_Next_def)
    show ?thesis
      unfolding scan_at_def n using t b xs Cons by (auto intro!: exI [of _ "us @ [x]"])
  qed
qed

lemma scan_at_valid: "scan_at it bs xs \<Longrightarrow> ti_valid it \<longleftrightarrow> xs \<noteq> []"
  by (auto simp: scan_at_def split: if_splits)

lemma table_at_next:
  assumes "table_at it es (x # xs)"
  shows "ti_valid it" and "ti_entry it = x" and "table_at (table_Next it) es xs"
  using assms scan_at_next unfolding table_at_def by metis+

lemma table_at_valid: "table_at it es xs \<Longrightarrow> ti_valid it \<longleftrightarrow> xs \<noteq> []"
  using scan_at_valid by (auto simp: table_at_def)

lemma seek_loop_at:
  "table_at it es xs \<Longrightarrow> table_at (table_seek_loop key it) es (dropWhile (\<lambda>e. en_key e < key) xs)"
proof (induction xs arbitrary: it)
  case Nil
  then show ?case using table_at_valid [OF Nil] by (subst table_seek_loop.simps) simp
next
  case (Cons x xs)
  note n = table_at_next [OF Cons.prems]
  show ?case
  proof (cases "en_key x < key")
    case True
    then have "table_seek_loop key it = table_seek_loop key (table_Next it)"
      using n by (subst table_seek_loop.simps) simp
    then show ?thesis using Cons.IH [OF n(3)] True by simp
  next
    case False
    then have "table_seek_loop key it = it" using n by (subst table_seek_loop.simps) simp
    then show ?thesis using Cons.prems False by simp
  qed
qed

text \<open>Starting at the block that binary search finds skips only entries below the key.\<close>

lemma skip_blocks:
  assumes "sorted_entries (concat bs)" and "\<forall>b\<in>set bs. b \<noteq> []" and "j \<le> length bs"
    and "j = 0 \<or> (j < length bs \<and> en_key (hd (bs ! j)) < key)"
  shows "dropWhile (\<lambda>e. en_key e < key) (concat (drop j bs)) = dropWhile (\<lambda>e. en_key e < key) (concat bs)"
proof (cases "j = 0")
  case False
  then have j: "j < length bs" "en_key (hd (bs ! j)) < key" using assms(4) by auto
  have split: "concat bs = concat (take j bs) @ concat (drop j bs)"
    by (metis append_take_drop_id concat_append)
  have mem: "hd (bs ! j) \<in> set (concat (drop j bs))"
    using j(1) assms(2) by (auto simp: Cons_nth_drop_Suc [symmetric])
  have "en_key e < key" if "e \<in> set (concat (take j bs))" for e
  proof -
    have "ikey_of e \<le> ikey_of (hd (bs ! j))"
      using assms(1) that mem unfolding split by (auto simp: sorted_append)
    then have "en_key e \<le> en_key (hd (bs ! j))" by (auto simp: ikey_of_def le_IKey)
    then show ?thesis using j(2) by simp
  qed
  then show ?thesis unfolding split by (intro dropWhile_append2 [symmetric]) blast
qed simp

lemma sorted_hds:
  assumes "sorted_entries (concat bs)" and "\<forall>b\<in>set bs. b \<noteq> []"
  shows "sorted (map (\<lambda>b. en_key (hd b)) bs)"
  using assms
proof (induction bs)
  case (Cons b bs)
  have "en_key (hd b) \<le> en_key (hd c)" if "c \<in> set bs" for c
  proof -
    have "hd b \<in> set b" "hd c \<in> set (concat bs)" using Cons.prems(2) that hd_in_set by auto
    then have "ikey_of (hd b) \<le> ikey_of (hd c)" using Cons.prems(1) by (auto simp: sorted_append)
    then show ?thesis by (auto simp: ikey_of_def le_IKey)
  qed
  then show ?case using Cons by (auto simp: sorted_append)
qed simp

lemma table_seek_at:
  assumes "table_blocks (ti_table it) bs"
  shows "table_at (table_Seek key it) (concat bs) (dropWhile (\<lambda>e. en_key e < key) (concat bs))"
proof -
  let ?ix = "tb_index (ti_table it)"
  have len: "length ?ix = length bs" and ne: "\<forall>b\<in>set bs. b \<noteq> []" and srt: "sorted_entries (concat bs)"
    and fk: "\<forall>j<length bs. ie_first_key (?ix ! j) = en_key (hd (bs ! j))"
    using assms by (auto simp: table_blocks_def readable_def in_set_conv_nth)
  have mp: "map ie_first_key ?ix = map (\<lambda>b. en_key (hd b)) bs"
    using len fk by (auto intro: nth_equalityI)
  have sx: "sorted (map ie_first_key ?ix)" unfolding mp by (rule sorted_hds [OF srt ne])
  define n where "n = length (takeWhile (\<lambda>ie. ie_first_key ie < key) ?ix)"
  have fb: "FindBlock (ti_table it) key = int n - 1" using FindBlock_spec [OF sx] by (simp add: n_def)
  define j where "j = (if int n - 1 < 0 then 0 else nat (int n - 1))"
  have nl: "n \<le> length bs" using length_takeWhile_le [of _ ?ix] len by (simp add: n_def)
  have "j = 0 \<or> (j < length bs \<and> en_key (hd (bs ! j)) < key)"
  proof (cases "n = 0")
    case False
    then have "j < n" "j < length bs" using nl by (auto simp: j_def)
    moreover from this have "ie_first_key (?ix ! j) < key"
      unfolding n_def using nth_mem set_takeWhileD takeWhile_nth by metis
    ultimately show ?thesis using fk by simp
  qed (simp add: j_def)
  moreover have "j \<le> length bs" using nl by (auto simp: j_def)
  ultimately have skip: "dropWhile (\<lambda>e. en_key e < key) (concat (drop j bs)) = dropWhile (\<lambda>e. en_key e < key) (concat bs)"
    using skip_blocks [OF srt ne] by blast
  have "table_Seek key it = table_seek_loop key (LoadBlockAndParse j (it\<lparr>ti_block_idx := j\<rparr>))"
    by (simp add: table_Seek_def fb j_def Let_def)
  then show ?thesis
    using seek_loop_at [of "LoadBlockAndParse j (it\<lparr>ti_block_idx := j\<rparr>)" "concat bs" "concat (drop j bs)" key]
      load_block [of it bs j] assms \<open>j \<le> length bs\<close> skip
    by (auto simp: table_at_def table_blocks_def)
qed

interpretation table_iterator: internal_iterator table_ops table_at
proof
  fix it es xs k
  assume a: "table_at it es xs"
  then obtain bs where bs: "table_blocks (ti_table it) bs" "es = concat bs" by (auto simp: table_at_def)
  show "it_Valid table_ops it \<longleftrightarrow> xs \<noteq> []" using table_at_valid [OF a] by (simp add: table_ops_def)
  show "table_at (it_SeekToFirst table_ops it) es es"
    using load_block [of it bs 0] bs by (auto simp: table_ops_def table_SeekToFirst_def table_at_def table_blocks_def)
  show "table_at (it_Seek table_ops k it) es (dropWhile (\<lambda>e. en_key e < k) es)"
    using table_seek_at [OF bs(1)] bs(2) by (simp add: table_ops_def)
qed (simp_all add: table_ops_def table_at_next)

lemma table_holds_iter: "table_holds t es \<Longrightarrow> table_at (table_NewIterator t) es []"
  by (auto simp: table_holds_def table_at_def scan_at_def table_blocks_def table_NewIterator_def)

lemma table_holds_sorted: "table_holds t es \<Longrightarrow> sorted_entries es"
  by (auto simp: table_holds_def table_blocks_def)

lemma find_key_dropWhile:
  assumes "sorted_entries es"
  shows "find_key key es =
     (case dropWhile (\<lambda>e. en_key e < key) es of [] \<Rightarrow> None | e # _ \<Rightarrow> if en_key e = key then Some e else None)"
  using assms
proof (induction es)
  case (Cons x xs)
  have "find_key key xs = None" if "key < en_key x"
    using Cons.prems that by (force simp: find_None_iff ikey_of_def le_IKey)
  with Cons show ?case by (auto split: list.splits)
qed simp

lemma table_holds_Get:
  assumes "table_holds t es"
  shows "Table_Get t key = find_key key es"
proof -
  have at: "table_at (table_Seek key (table_NewIterator t)) es (dropWhile (\<lambda>e. en_key e < key) es)"
    using table_iterator.seek [OF table_holds_iter [OF assms], of key] by (simp add: table_ops_def)
  have bloom: "find_key key es = None" if "\<not> BloomMayContain (tb_bloom t) key"
    using assms that by (auto simp: table_holds_def find_None_iff)
  show ?thesis
  proof (cases "dropWhile (\<lambda>e. en_key e < key) es")
    case Nil
    then have "\<not> ti_valid (table_Seek key (table_NewIterator t))" using table_at_valid [OF at] by simp
    then show ?thesis
      unfolding find_key_dropWhile [OF table_holds_sorted [OF assms]] Nil by (simp add: Table_Get_def Let_def)
  next
    case (Cons e rest)
    note n = table_at_next [OF at [unfolded Cons]]
    show ?thesis
      using bloom n(1,2) unfolding Table_Get_def find_key_dropWhile [OF table_holds_sorted [OF assms]] Cons
      by (auto simp: Let_def)
  qed
qed

subsection \<open>Unreadable blocks\<close>

lemma scan_collect:
  "scan_at it bs xs \<Longrightarrow> \<exists>it'. iter_loop table_ops (\<lambda>e acc. (acc @ [e], True)) it acc = Some (acc @ xs, it') \<and> \<not> ti_valid it'"
proof (induction xs arbitrary: it acc)
  case Nil
  then show ?case using scan_at_valid [OF Nil] by (subst iter_loop.simps) (auto simp: table_ops_def)
next
  case (Cons x xs)
  note n = scan_at_next [OF Cons.prems]
  have "iter_loop table_ops (\<lambda>e acc. (acc @ [e], True)) it acc =
      iter_loop table_ops (\<lambda>e acc. (acc @ [e], True)) (table_Next it) (acc @ [x])"
    using n by (subst iter_loop.simps) (simp add: table_ops_def)
  then show ?case using Cons.IH [of "table_Next it" "acc @ [x]"] n(3) by simp
qed

subsection \<open>Properties\<close>

text \<open>
  (C30) A read error ends an iteration silently.  If the blocks \<open>bs\<close> of a table can be read and the
  next one cannot, a full iteration returns the entries of \<open>bs\<close> and stops in the same state as
  at the end of a table: \<open>LoadBlockAndParse\<close> drops the status of \<open>ReadBlock\<close>, and an iterator has
  no way to report it.  A compaction that reads its input this way loses the entries behind
  the unreadable block when it deletes the input.
\<close>
theorem read_error_ends_iteration:
  assumes "readable t bs" and "length bs < length (tb_index t)"
  shows "\<exists>it'. iter_loop table_ops (\<lambda>e acc. (acc @ [e], True)) (table_SeekToFirst (table_NewIterator t)) [] =
           Some (concat bs, it') \<and> \<not> ti_valid it'"
proof -
  have "scan_at (LoadBlockAndParse 0 (table_NewIterator t\<lparr>ti_block_idx := 0\<rparr>)) bs (concat (drop 0 bs))"
    using load_block [of "table_NewIterator t" bs 0] assms(1) by (simp add: table_NewIterator_def)
  from scan_collect [OF this, of "[]"] show ?thesis by (simp add: table_SeekToFirst_def)
qed

text \<open>A table of two blocks whose second block cannot be read.\<close>

definition half_table :: Table where
  "half_table =
     (let e = \<lparr>en_key = [97], en_seqno = 1, en_op = kPut, en_value = [1]\<rparr>
      in \<lparr>tb_path = [], tb_view = (\<lambda>off n. if off = 0 then Inr (take n (AppendEntry e)) else Inl (str ''EIO'')),
          tb_index = [\<lparr>ie_first_key = [97], ie_offset = 0, ie_size = 19\<rparr>,
                      \<lparr>ie_first_key = [98], ie_offset = 19, ie_size = 19\<rparr>],
          tb_bloom = [], tb_num_entries = 2\<rparr>)"

theorem read_error_ends_iteration_witness:
  "\<exists>it'. iter_loop table_ops (\<lambda>e acc. (acc @ [e], True)) (table_SeekToFirst (table_NewIterator half_table)) [] =
     Some (concat [[\<lparr>en_key = [97], en_seqno = 1, en_op = kPut, en_value = [1]\<rparr>]], it') \<and> \<not> ti_valid it'"
proof (rule read_error_ends_iteration)
  let ?e = "\<lparr>en_key = [97], en_seqno = 1, en_op = kPut, en_value = [1]\<rparr> :: Entry"
  have len: "length (AppendEntry ?e) = 19" by (simp add: AppendEntry_def)
  then have "pread_loop [] (tb_view half_table) 0 19 = Inr (AppendEntry ?e)"
    by (subst pread_loop.simps) (auto simp: half_table_def Let_def pread_loop.simps [of _ _ _ 0])
  moreover have "pread_loop [] (tb_view half_table) 19 19 = Inl (Errno (str ''pread sst '' @ []) (str ''EIO''))"
    by (subst pread_loop.simps) (simp add: half_table_def Let_def)
  moreover have ix: "tb_path half_table = []" "tb_index half_table = [\<lparr>ie_first_key = [97], ie_offset = 0, ie_size = 19\<rparr>,
      \<lparr>ie_first_key = [98], ie_offset = 19, ie_size = 19\<rparr>]" by (simp_all add: half_table_def Let_def)
  ultimately show "readable half_table [[?e]]"
    unfolding readable_def ReadBlock_def ix by (simp add: kv_fits_def)
  show "length [[?e]] < length (tb_index half_table)" by (simp add: ix)
qed

end
