(* ===== verification/Manifest.thy ===== *)
theory Manifest
  imports SSTable
begin

text \<open>
  The manifest of the storage engine (\<open>src/storage/manifest.cc\<close>): a text file of the counters and
  the live tables, rewritten as a whole.  Reading it goes through formatted extraction from an
  \<open>istringstream\<close>, which is modelled by what is left of the line and the fail bit: leading white
  space is skipped, a string ends at white space, a number is an optional sign and digits; an
  extraction that finds nothing leaves its target alone, one that finds no digits stores 0, and
  after a failure nothing more is extracted.

  A manifest that is saved and loaded is unchanged.
\<close>

subsection \<open>Formatted extraction\<close>

record istream =
  is_rest :: bytes
  is_fail :: bool

definition istringstream :: "bytes \<Rightarrow> istream" where
  "istringstream s = \<lparr>is_rest = s, is_fail = False\<rparr>"

definition is_space :: "byte \<Rightarrow> bool" where
  "is_space c \<longleftrightarrow> c = 32 \<or> (9 \<le> c \<and> c \<le> 13)"

text \<open>The lines that \<open>std::getline\<close> returns.\<close>

function get_lines :: "bytes \<Rightarrow> bytes list" where
  "get_lines s =
     (if s = [] then [] else takeWhile (\<lambda>c. c \<noteq> 10) s # get_lines (drop 1 (dropWhile (\<lambda>c. c \<noteq> 10) s)))"
  by pat_completeness auto
termination
proof (relation "measure length")
  fix s :: bytes assume "s \<noteq> []"
  then show "(drop 1 (dropWhile (\<lambda>c. c \<noteq> 10) s), s) \<in> measure length"
    using length_dropWhile_le [of "\<lambda>c. c \<noteq> 10" s] by (cases s) (auto simp: less_Suc_eq_le)
qed simp

declare get_lines.simps [simp del]

definition read_string :: "bytes \<Rightarrow> istream \<Rightarrow> bytes \<times> istream" where
  "read_string old st =
     (if is_fail st then (old, st)
      else let r = dropWhile is_space (is_rest st)
           in if r = [] then (old, st\<lparr>is_rest := [], is_fail := True\<rparr>)
              else (takeWhile (\<lambda>c. \<not> is_space c) r, st\<lparr>is_rest := dropWhile (\<lambda>c. \<not> is_space c) r\<rparr>))"

text \<open>Sign, digits and what follows them.\<close>

definition scan_number :: "bytes \<Rightarrow> bool \<times> bytes \<times> bytes" where
  "scan_number r =
     (let neg = (hd r = 45); r1 = (if hd r = 45 \<or> hd r = 43 then tl r else r)
      in (neg, takeWhile is_digit r1, dropWhile is_digit r1))"

definition read_u64 :: "nat \<Rightarrow> istream \<Rightarrow> nat \<times> istream" where
  "read_u64 old st =
     (if is_fail st then (old, st)
      else let r = dropWhile is_space (is_rest st)
           in if r = [] then (old, st\<lparr>is_rest := [], is_fail := True\<rparr>)
              else let (neg, ds, rest) = scan_number r; v = digits_value ds; st = st\<lparr>is_rest := rest\<rparr>
                   in if ds = [] then (0, st\<lparr>is_fail := True\<rparr>)
                      else if v \<ge> 2 ^ 64 then (2 ^ 64 - 1, st\<lparr>is_fail := True\<rparr>)
                      else (if neg \<and> v \<noteq> 0 then 2 ^ 64 - v else v, st))"

definition read_int :: "int \<Rightarrow> istream \<Rightarrow> int \<times> istream" where
  "read_int old st =
     (if is_fail st then (old, st)
      else let r = dropWhile is_space (is_rest st)
           in if r = [] then (old, st\<lparr>is_rest := [], is_fail := True\<rparr>)
              else let (neg, ds, rest) = scan_number r; v = (if neg then - int (digits_value ds) else int (digits_value ds));
                       st = st\<lparr>is_rest := rest\<rparr>
                   in if ds = [] then (0, st\<lparr>is_fail := True\<rparr>)
                      else if v > 2 ^ 31 - 1 then (2 ^ 31 - 1, st\<lparr>is_fail := True\<rparr>)
                      else if v < - (2 ^ 31) then (- (2 ^ 31), st\<lparr>is_fail := True\<rparr>)
                      else (v, st))"

subsection \<open>Hexadecimal keys and file names\<close>

definition hex_digit :: "byte \<Rightarrow> byte" where
  "hex_digit d = str ''0123456789abcdef'' ! unat d"

definition ToHex :: "bytes \<Rightarrow> bytes" where
  "ToHex s =
     (let out = concat (map (\<lambda>c. [hex_digit (drop_bit 4 c), hex_digit (c AND 0xF)]) s)
      in if out = [] then str ''-'' else out)"

definition hex_val :: "byte \<Rightarrow> byte option" where
  "hex_val c =
     (if 48 \<le> c \<and> c \<le> 57 then Some (c - 48) else if 97 \<le> c \<and> c \<le> 102 then Some (c - 97 + 10) else None)"

fun from_hex :: "bytes \<Rightarrow> bytes option" where
  "from_hex [] = Some []"
| "from_hex [c] = None"
| "from_hex (a # b # rest) =
     (case (hex_val a, hex_val b) of
        (Some hi, Some lo) \<Rightarrow> map_option (\<lambda>r. (push_bit 4 hi OR lo) # r) (from_hex rest)
      | _ \<Rightarrow> None)"

definition FromHex :: "bytes \<Rightarrow> bytes option" where
  "FromHex hex = (if hex = str ''-'' then Some [] else if length hex mod 2 \<noteq> 0 then None else from_hex hex)"

definition pad6 :: "nat \<Rightarrow> bytes" where
  "pad6 n = replicate (6 - length (to_string n)) 48 @ to_string n"

definition join_path :: "bytes \<Rightarrow> bytes \<Rightarrow> bytes" where
  "join_path dir name = (if dir = [] \<or> last dir = 47 then dir @ name else dir @ [47] @ name)"

definition SstPath :: "bytes \<Rightarrow> nat \<Rightarrow> bytes" where
  "SstPath dir number = join_path dir (pad6 number @ str ''.sst'')"

definition WalPath :: "bytes \<Rightarrow> nat \<Rightarrow> bytes" where
  "WalPath dir number = join_path dir (pad6 number @ str ''.wal'')"

subsection \<open>Loading and saving\<close>

record ManifestData =
  md_next_file :: nat
  md_last_seq :: nat
  md_files :: "TableMeta list"

definition empty_manifest :: ManifestData where
  "empty_manifest = \<lparr>md_next_file = 1, md_last_seq = 0, md_files = []\<rparr>"

definition read_meta :: "istream \<Rightarrow> TableMeta option" where
  "read_meta ls =
     (let (number, ls) = read_u64 0 ls; (level, ls) = read_int 0 ls; (smallest_hex, ls) = read_string [] ls;
          (largest_hex, ls) = read_string [] ls; (entries, ls) = read_u64 0 ls; (file_bytes, ls) = read_u64 0 ls
      in if is_fail ls then None
         else case (FromHex smallest_hex, FromHex largest_hex) of
           (Some smallest, Some largest) \<Rightarrow>
             Some \<lparr>tm_number = number, tm_level = level, tm_smallest = smallest, tm_largest = largest,
                   tm_entries = entries, tm_file_bytes = file_bytes\<rparr>
         | _ \<Rightarrow> None)"

definition manifest_line :: "ManifestData \<Rightarrow> bytes \<Rightarrow> (status, ManifestData) sum" where
  "manifest_line out line =
     (if line = [] then Inr out
      else let (tag, ls) = read_string [] (istringstream line)
           in if tag = str ''next_file'' then Inr (out\<lparr>md_next_file := fst (read_u64 (md_next_file out) ls)\<rparr>)
              else if tag = str ''last_seq'' then Inr (out\<lparr>md_last_seq := fst (read_u64 (md_last_seq out) ls)\<rparr>)
              else if tag = str ''file'' then
                (case read_meta ls of
                   None \<Rightarrow> Inl (Corruption (str ''bad manifest line: '' @ line))
                 | Some m \<Rightarrow> Inr (out\<lparr>md_files := md_files out @ [m]\<rparr>))
              else Inl (Corruption (str ''unknown manifest tag: '' @ tag)))"

fun manifest_lines :: "ManifestData \<Rightarrow> bytes list \<Rightarrow> (status, ManifestData) sum" where
  "manifest_lines out [] = Inr out"
| "manifest_lines out (line # lines) =
     (case manifest_line out line of Inl s \<Rightarrow> Inl s | Inr out' \<Rightarrow> manifest_lines out' lines)"

definition LoadManifest :: "bytes \<Rightarrow> world \<Rightarrow> (status, ManifestData) sum \<times> world" where
  "LoadManifest dir w =
     (case ReadFileToString (join_path dir (str ''MANIFEST'')) w of
        (Inl s, w1) \<Rightarrow> (Inl s, w1)
      | (Inr content, w1) \<Rightarrow> (manifest_lines empty_manifest (get_lines content), w1))"

definition int_to_string :: "int \<Rightarrow> bytes" where
  "int_to_string i = (if i < 0 then 45 # to_string (nat (- i)) else to_string (nat i))"

definition file_line :: "TableMeta \<Rightarrow> bytes" where
  "file_line m =
     str ''file '' @ to_string (tm_number m) @ str '' '' @ int_to_string (tm_level m) @ str '' '' @
     ToHex (tm_smallest m) @ str '' '' @ ToHex (tm_largest m) @ str '' '' @ to_string (tm_entries m) @
     str '' '' @ to_string (tm_file_bytes m)"

definition manifest_text :: "ManifestData \<Rightarrow> bytes" where
  "manifest_text data =
     str ''next_file '' @ to_string (md_next_file data) @ [10] @
     str ''last_seq '' @ to_string (md_last_seq data) @ [10] @
     concat (map (\<lambda>m. file_line m @ [10]) (md_files data))"

definition SaveManifest :: "bytes \<Rightarrow> ManifestData \<Rightarrow> world \<Rightarrow> status \<times> world" where
  "SaveManifest dir data w = WriteFileAtomic (join_path dir (str ''MANIFEST'')) (manifest_text data) w"

subsection \<open>Tokens\<close>

definition token :: "bytes \<Rightarrow> bool" where
  "token t \<longleftrightarrow> t \<noteq> [] \<and> (\<forall>c\<in>set t. \<not> is_space c)"

lemma space_facts [simp]: "is_space 32" "is_space 10" "\<not> is_space 45"
  by (simp_all add: is_space_def)

lemma digit_not_space: "is_digit c \<Longrightarrow> \<not> is_space c"
proof -
  assume "is_digit c"
  then have "48 \<le> unat c" by (simp add: is_digit_def word_le_nat_alt)
  then show ?thesis by (auto simp: is_space_def word_le_nat_alt)
qed

lemma token_to_string: "token (to_string n)"
  using to_string_digits [of n] digit_not_space by (auto simp: token_def list_all_iff)

lemma token_int: "token (int_to_string i)"
  using token_to_string by (auto simp: int_to_string_def token_def)

lemma read_string_token:
  assumes "token t" and "rest = [] \<or> is_space (hd rest)"
  shows "read_string old \<lparr>is_rest = 32 # t @ rest, is_fail = False\<rparr> = (t, \<lparr>is_rest = rest, is_fail = False\<rparr>)"
    and "read_string old \<lparr>is_rest = t @ rest, is_fail = False\<rparr> = (t, \<lparr>is_rest = rest, is_fail = False\<rparr>)"
proof -
  obtain c cs where t: "t = c # cs" "\<not> is_space c" using assms(1) by (cases t) (auto simp: token_def)
  have "takeWhile (\<lambda>c. \<not> is_space c) (t @ rest) = t" "dropWhile (\<lambda>c. \<not> is_space c) (t @ rest) = rest"
    using assms by (cases rest; auto simp: token_def takeWhile_append2 dropWhile_append2)+
  with t show "read_string old \<lparr>is_rest = 32 # t @ rest, is_fail = False\<rparr> = (t, \<lparr>is_rest = rest, is_fail = False\<rparr>)"
    "read_string old \<lparr>is_rest = t @ rest, is_fail = False\<rparr> = (t, \<lparr>is_rest = rest, is_fail = False\<rparr>)"
    by (simp_all add: read_string_def Let_def)
qed

lemma scan_digits:
  assumes "ds \<noteq> []" and "list_all is_digit ds" and "rest = [] \<or> \<not> is_digit (hd rest)"
  shows "scan_number (ds @ rest) = (False, ds, rest)" and "scan_number (45 # ds @ rest) = (True, ds, rest)"
proof -
  have "takeWhile is_digit (ds @ rest) = ds" "dropWhile is_digit (ds @ rest) = rest"
    using assms by (cases rest; auto simp: list_all_iff takeWhile_append2 dropWhile_append2)+
  moreover have "\<not> is_digit 45" "\<not> is_digit 43" by (simp_all add: is_digit_def)
  then have "hd ds \<noteq> 45" "hd ds \<noteq> 43" using assms(1,2) by (cases ds; auto)+
  ultimately show "scan_number (ds @ rest) = (False, ds, rest)" "scan_number (45 # ds @ rest) = (True, ds, rest)"
    using assms(1) by (simp_all add: scan_number_def Let_def)
qed

lemma skip_one:
  assumes "token t"
  shows "dropWhile is_space (32 # t @ rest) = t @ rest"
  using assms by (cases t) (auto simp: token_def)

lemma space_not_digit: "rest = [] \<or> is_space (hd rest) \<Longrightarrow> rest = [] \<or> \<not> is_digit (hd rest)"
  using digit_not_space by blast

lemma read_u64_token:
  assumes "n < 2 ^ 64" and "rest = [] \<or> is_space (hd rest)"
  shows "read_u64 old \<lparr>is_rest = 32 # to_string n @ rest, is_fail = False\<rparr> = (n, \<lparr>is_rest = rest, is_fail = False\<rparr>)"
  using skip_one [OF token_to_string, of n rest] scan_digits(1) [OF _ to_string_digits space_not_digit [OF assms(2)], of n] assms(1)
  by (simp add: read_u64_def Let_def)

lemma read_int_token:
  assumes "- (2 ^ 31) \<le> i" and "i < 2 ^ 31" and "rest = [] \<or> is_space (hd rest)"
  shows "read_int old \<lparr>is_rest = 32 # int_to_string i @ rest, is_fail = False\<rparr> = (i, \<lparr>is_rest = rest, is_fail = False\<rparr>)"
proof (cases "i < 0")
  case True
  then have s: "int_to_string i = 45 # to_string (nat (- i))" by (simp add: int_to_string_def)
  show ?thesis
    using skip_one [OF token_int, of i rest] scan_digits(2) [OF _ to_string_digits space_not_digit [OF assms(3)], of "nat (- i)"]
      assms True unfolding s by (simp add: read_int_def Let_def)
next
  case False
  then have s: "int_to_string i = to_string (nat i)" by (simp add: int_to_string_def)
  show ?thesis
    using skip_one [OF token_int, of i rest] scan_digits(1) [OF _ to_string_digits space_not_digit [OF assms(3)], of "nat i"]
      assms False unfolding s by (simp add: read_int_def Let_def)
qed

subsection \<open>Hexadecimal\<close>

lemma hex_digits:
  assumes "unat d < 16"
  shows "hex_val (hex_digit d) = Some d \<and> \<not> is_space (hex_digit d)"
proof -
  have u: "[0..<16] = [0, 1, 2, 3, 4, 5, 6, 7, 8, 9, 10, 11, 12, 13, 14, 15]" by (simp add: upt_rec)
  have "list_all (\<lambda>n. hex_val (hex_digit (of_nat n)) = Some (of_nat n) \<and> \<not> is_space (hex_digit (of_nat n))) [0..<16]"
    unfolding u by (simp add: hex_digit_def hex_val_def is_space_def str_def)
  then have "hex_val (hex_digit (of_nat (unat d))) = Some (of_nat (unat d)) \<and> \<not> is_space (hex_digit (of_nat (unat d)))"
    using assms unfolding list_all_length by (metis (no_types, lifting) add_0 diff_zero length_upt nth_upt)
  then show ?thesis by simp
qed

lemma nibbles:
  "unat (drop_bit 4 c) < 16" "unat (c AND 0xF) < 16" "push_bit 4 (drop_bit 4 c) OR (c AND 0xF) = c" for c :: byte
proof -
  have "unat (drop_bit 4 c) = drop_bit 4 (take_bit 8 (unat c))" unfolding unsigned_drop_bit_eq by simp
  then have "unat (drop_bit 4 c) = unat c mod 256 div 16" by (simp add: drop_bit_eq_div take_bit_eq_mod)
  moreover have "unat c < 256" using unsigned_less [where 'a = nat, of c] by simp
  ultimately show "unat (drop_bit 4 c) < 16" by linarith
  have f: "(0xF :: byte) = mask 4" by (simp add: mask_eq_exp_minus_1)
  have "unat (c AND 0xF) = take_bit 4 (unat c)" unfolding f by (simp only: take_bit_eq_mask [symmetric] unsigned_take_bit_eq)
  then show "unat (c AND 0xF) < 16" by (simp add: take_bit_eq_mod)
  show "push_bit 4 (drop_bit 4 c) OR (c AND 0xF) = c"
    unfolding f by (rule bit_word_eqI) (auto simp: bit_simps)
qed

lemma FromHex_ToHex: "FromHex (ToHex s) = Some s"
proof -
  let ?h = "\<lambda>s. concat (map (\<lambda>c. [hex_digit (drop_bit 4 c), hex_digit (c AND 0xF)]) s)"
  have f: "from_hex (?h s) = Some s" for s
    by (induction s) (simp_all add: hex_digits [OF nibbles(1)] hex_digits [OF nibbles(2)] nibbles(3))
  have e: "length (?h s) = 2 * length s" for s by (induction s) simp_all
  show ?thesis
  proof (cases "s = []")
    case False
    then have "?h s \<noteq> []" by (cases s) auto
    moreover have "?h s \<noteq> str ''-''" using e [of s] by (metis even_mult_iff even_numeral length_str odd_one One_nat_def list.size(3,4) add_0)
    ultimately show ?thesis using f e [of s] by (simp add: ToHex_def FromHex_def Let_def)
  qed (simp add: ToHex_def FromHex_def)
qed

lemma token_ToHex: "token (ToHex s)"
  using hex_digits [OF nibbles(1)] hex_digits [OF nibbles(2)]
  by (auto simp: token_def ToHex_def Let_def str_def)

subsection \<open>Saving and loading\<close>

definition meta_fits :: "TableMeta \<Rightarrow> bool" where
  "meta_fits m \<longleftrightarrow> tm_number m < 2 ^ 64 \<and> tm_entries m < 2 ^ 64 \<and> tm_file_bytes m < 2 ^ 64 \<and>
     - (2 ^ 31) \<le> tm_level m \<and> tm_level m < 2 ^ 31"

definition manifest_fits :: "ManifestData \<Rightarrow> bool" where
  "manifest_fits md \<longleftrightarrow> md_next_file md < 2 ^ 64 \<and> md_last_seq md < 2 ^ 64 \<and> list_all meta_fits (md_files md)"

lemma space_str: "str '' '' = [32]"
  by (simp add: str_def)

lemma read_meta_line:
  assumes "meta_fits m"
  shows "read_meta \<lparr>is_rest = 32 # to_string (tm_number m) @ str '' '' @ int_to_string (tm_level m) @ str '' '' @
     ToHex (tm_smallest m) @ str '' '' @ ToHex (tm_largest m) @ str '' '' @ to_string (tm_entries m) @
     str '' '' @ to_string (tm_file_bytes m), is_fail = False\<rparr> = Some m"
proof -
  have last: "read_u64 0 \<lparr>is_rest = 32 # to_string (tm_file_bytes m), is_fail = False\<rparr> =
      (tm_file_bytes m, \<lparr>is_rest = [], is_fail = False\<rparr>)"
    using read_u64_token [of "tm_file_bytes m" "[]"] assms by (simp add: meta_fits_def)
  show ?thesis
    using assms
    by (simp add: read_meta_def space_str read_u64_token read_int_token read_string_token(1) [OF token_ToHex]
        FromHex_ToHex last meta_fits_def)
qed

lemma manifest_line_file:
  assumes "meta_fits m"
  shows "manifest_line out (file_line m) = Inr (out\<lparr>md_files := md_files out @ [m]\<rparr>)"
proof -
  let ?r = "32 # to_string (tm_number m) @ str '' '' @ int_to_string (tm_level m) @ str '' '' @
     ToHex (tm_smallest m) @ str '' '' @ ToHex (tm_largest m) @ str '' '' @ to_string (tm_entries m) @
     str '' '' @ to_string (tm_file_bytes m)"
  have l: "file_line m = str ''file'' @ ?r" by (simp add: file_line_def str_def)
  have t: "token (str ''file'')" by (simp add: token_def str_def is_space_def)
  have "read_string [] (istringstream (file_line m)) = (str ''file'', \<lparr>is_rest = ?r, is_fail = False\<rparr>)"
    unfolding l istringstream_def by (rule read_string_token(2) [OF t]) simp
  moreover have "file_line m \<noteq> []" by (simp add: l)
  ultimately show ?thesis using read_meta_line [OF assms] by (simp add: manifest_line_def)
qed

lemma manifest_line_counter:
  assumes "n < 2 ^ 64"
  shows "manifest_line out (str ''next_file '' @ to_string n) = Inr (out\<lparr>md_next_file := n\<rparr>)"
    and "manifest_line out (str ''last_seq '' @ to_string n) = Inr (out\<lparr>md_last_seq := n\<rparr>)"
proof -
  have r: "read_u64 old \<lparr>is_rest = 32 # to_string n, is_fail = False\<rparr> = (n, \<lparr>is_rest = [], is_fail = False\<rparr>)" for old
    using read_u64_token [OF assms, of "[]"] by simp
  have t: "token (str ''next_file'')" "token (str ''last_seq'')" by (simp_all add: token_def str_def is_space_def)
  have l: "str ''next_file '' @ to_string n = str ''next_file'' @ 32 # to_string n"
    "str ''last_seq '' @ to_string n = str ''last_seq'' @ 32 # to_string n" by (simp_all add: str_def)
  show "manifest_line out (str ''next_file '' @ to_string n) = Inr (out\<lparr>md_next_file := n\<rparr>)"
    "manifest_line out (str ''last_seq '' @ to_string n) = Inr (out\<lparr>md_last_seq := n\<rparr>)"
    unfolding l manifest_line_def istringstream_def using read_string_token(2) [OF t(1), of "32 # to_string n"]
      read_string_token(2) [OF t(2), of "32 # to_string n"] r by simp_all
qed

lemma get_lines_line:
  assumes "10 \<notin> set l" and "l \<noteq> []"
  shows "get_lines (l @ 10 # rest) = l # get_lines rest"
proof -
  have "takeWhile (\<lambda>c. c \<noteq> 10) (l @ 10 # rest) = l" "dropWhile (\<lambda>c. c \<noteq> 10) (l @ 10 # rest) = 10 # rest"
    using assms(1) by (induction l) auto
  then show ?thesis by (subst get_lines.simps) simp
qed

lemma token_no_newline: "token t \<Longrightarrow> 10 \<notin> set t"
  by (auto simp: token_def)

lemma file_line_no_newline: "10 \<notin> set (file_line m)" "file_line m \<noteq> []"
  using token_no_newline [OF token_to_string] token_no_newline [OF token_int] token_no_newline [OF token_ToHex]
  by (auto simp: file_line_def str_def)

lemma manifest_roundtrip:
  assumes "manifest_fits md"
  shows "manifest_lines empty_manifest (get_lines (manifest_text md)) = Inr md"
proof -
  have files: "list_all meta_fits ms \<Longrightarrow> manifest_lines out (get_lines (concat (map (\<lambda>m. file_line m @ [10]) ms))) =
      Inr (out\<lparr>md_files := md_files out @ ms\<rparr>)" for ms out
  proof (induction ms arbitrary: out)
    case Nil
    then show ?case by (simp add: get_lines.simps [of "[]"])
  next
    case (Cons m ms)
    then show ?case
      by (simp add: get_lines_line file_line_no_newline manifest_line_file)
  qed
  have nl: "10 \<notin> set (str ''next_file '' @ to_string n)" "10 \<notin> set (str ''last_seq '' @ to_string n)" for n
    using token_no_newline [OF token_to_string] by (auto simp: str_def)
  let ?f = "concat (map (\<lambda>m. file_line m @ [10]) (md_files md))"
  have "get_lines (manifest_text md) =
      (str ''next_file '' @ to_string (md_next_file md)) # (str ''last_seq '' @ to_string (md_last_seq md)) # get_lines ?f"
    using get_lines_line [OF nl(1), of "md_next_file md"] get_lines_line [OF nl(2), of "md_last_seq md" ?f]
    by (simp add: manifest_text_def)
  then show ?thesis
    using assms files [of "md_files md"]
    by (simp add: manifest_fits_def manifest_line_counter empty_manifest_def)
qed

subsection \<open>Properties\<close>

text \<open>
  (C26) The manifest survives a restart, and is replaced atomically.  A manifest whose numbers fit
  their machine types and that \<open>SaveManifest\<close> reports as saved is what \<open>LoadManifest\<close> returns;
  and when \<open>SaveManifest\<close> fails at any step, the file still holds the old text or already the
  new one.
\<close>
theorem manifest_survives:
  assumes "manifest_fits md" and "SaveManifest dir md w = (s, w')"
  shows "(is_ok s \<longrightarrow> LoadManifest dir (w'\<lparr>w_io := []\<rparr>) = (Inr md, w'\<lparr>w_io := []\<rparr>)) \<and>
         (w_files w' (join_path dir (str ''MANIFEST'')) = w_files w (join_path dir (str ''MANIFEST'')) \<or>
          w_files w' (join_path dir (str ''MANIFEST'')) = Some (manifest_text md))"
  using WriteFileAtomic_files [OF assms(2) [unfolded SaveManifest_def]] manifest_roundtrip [OF assms(1)]
  by (auto simp: LoadManifest_def ReadFileToString_no_fault)

definition demo_manifest :: ManifestData where
  "demo_manifest = \<lparr>md_next_file = 7, md_last_seq = 12,
     md_files = [\<lparr>tm_number = 3, tm_level = 1, tm_smallest = [0, 97], tm_largest = [255], tm_entries = 2, tm_file_bytes = 90\<rparr>]\<rparr>"

theorem manifest_survives_witness:
  "\<exists>s w'. SaveManifest [47, 100] demo_manifest \<lparr>w_files = Map.empty, w_io = []\<rparr> = (s, w') \<and> is_ok s \<and>
     LoadManifest [47, 100] (w'\<lparr>w_io := []\<rparr>) = (Inr demo_manifest, w'\<lparr>w_io := []\<rparr>)"
proof -
  obtain w' where w: "SaveManifest [47, 100] demo_manifest \<lparr>w_files = Map.empty, w_io = []\<rparr> = (OK, w')"
    using WriteFileAtomic_ok [of "\<lparr>w_files = Map.empty, w_io = []\<rparr>"] unfolding SaveManifest_def by fastforce
  have "manifest_fits demo_manifest" by (simp add: manifest_fits_def demo_manifest_def meta_fits_def)
  from manifest_survives [OF this w] w show ?thesis by auto
qed

end
