(* ===== verification/DB.thy ===== *)
theory DB
  imports Wal Memtable SSTable Manifest
begin

text \<open>
  The storage engine (\<open>src/storage/db.h\<close>, \<open>db.cc\<close>): a log-structured merge tree of a memtable
  with its write-ahead log, immutable memtables waiting to be flushed, and levels of sorted
  tables.  The state is the record of the fields of \<open>DB\<close>; the mutex makes each operation a step
  on it.  The background thread is the only one to change the version, so that a flush or a
  compaction is one step although it works without the mutex in between.  A caller that waits
  for the background thread waits for flushes, which the thread prefers to compactions:
  \<open>wait_below\<close> runs them.

  Sums of \<open>uint64_t\<close> are taken modulo \<open>2 ^ 64\<close>.  A compaction trigger of 0, with which the code reads
  the first of no files, is not a valid option.  The random numbers of the memtables are the parameter \<open>rng\<close>, and the names that
  \<open>directory_iterator\<close> returns the parameter \<open>names\<close>.  Removing a file always succeeds here; in the
  code a failure throws and ends the process.
\<close>

subsection \<open>State\<close>

record Options =
  opt_write_buffer_size :: nat
  opt_block_size :: nat
  opt_bloom_bits_per_key :: nat
  opt_l0_compaction_trigger :: nat
  opt_level_base_bytes :: nat
  opt_max_output_file_bytes :: nat
  opt_fsync_writes :: bool

definition default_options :: Options where
  "default_options =
     \<lparr>opt_write_buffer_size = 4 * 2 ^ 20, opt_block_size = 4096, opt_bloom_bits_per_key = 10,
      opt_l0_compaction_trigger = 4, opt_level_base_bytes = 8 * 2 ^ 20,
      opt_max_output_file_bytes = 2 * 2 ^ 20, opt_fsync_writes = True\<rparr>"

definition kNumLevels :: nat where
  "kNumLevels = 7"

record TableHandle =
  th_meta :: TableMeta
  th_table :: Table

type_synonym Version = "TableHandle list list"

record DB =
  db_options :: Options
  db_dir :: bytes
  db_bg_error :: status
  db_shutdown :: bool
  db_next_file :: nat
  db_last_seq :: u64
  db_mem :: MemTable
  db_wal_number :: nat
  db_imm :: "(MemTable \<times> nat) list"
  db_version :: Version
  db_compact_ptr :: "nat list"

definition DB_new :: "Options \<Rightarrow> bytes \<Rightarrow> DB" where
  "DB_new options dir =
     \<lparr>db_options = options, db_dir = dir, db_bg_error = OK, db_shutdown = False, db_next_file = 1,
      db_last_seq = 0, db_mem = MemTable_new, db_wal_number = 0, db_imm = [],
      db_version = replicate kNumLevels [], db_compact_ptr = replicate 8 0\<rparr>"

definition ParseFileName :: "bytes \<Rightarrow> (nat \<times> bytes) option" where
  "ParseFileName name =
     (let digits = takeWhile (\<lambda>c. c \<noteq> 46) name
      in if length digits = length name \<or> digits = [] \<or> \<not> list_all is_digit digits then None
         else Some (min (digits_value digits) (2 ^ 64 - 1), drop (length digits + 1) name))"

definition SortLevel :: "nat \<Rightarrow> TableHandle list \<Rightarrow> TableHandle list" where
  "SortLevel level files =
     (if level = 0 then sort_key (\<lambda>h. - int (tm_number (th_meta h))) files
      else sort_key (\<lambda>h. tm_smallest (th_meta h)) files)"

definition manifest_of :: "nat \<Rightarrow> u64 \<Rightarrow> Version \<Rightarrow> ManifestData" where
  "manifest_of next_file last_seq v =
     \<lparr>md_next_file = next_file, md_last_seq = unat last_seq, md_files = map th_meta (concat v)\<rparr>"

definition CurrentManifestData :: "DB \<Rightarrow> ManifestData" where
  "CurrentManifestData db = manifest_of (db_next_file db) (db_last_seq db) (db_version db)"

subsection \<open>Iterators over memtables and tables\<close>

text \<open>The children of the merging iterator of \<open>NewIterator\<close>: the two implementations of \<open>InternalIterator\<close>.\<close>

datatype source_iter = MemSource mem_iter | TableSource table_iter

definition source_ops :: "source_iter iter_ops" where
  "source_ops =
     \<lparr>it_Valid = case_source_iter (it_Valid mem_ops) (it_Valid table_ops),
      it_SeekToFirst = case_source_iter (MemSource \<circ> it_SeekToFirst mem_ops) (TableSource \<circ> it_SeekToFirst table_ops),
      it_Seek = (\<lambda>k. case_source_iter (MemSource \<circ> it_Seek mem_ops k) (TableSource \<circ> it_Seek table_ops k)),
      it_Next = case_source_iter (MemSource \<circ> it_Next mem_ops) (TableSource \<circ> it_Next table_ops),
      it_entry = case_source_iter (it_entry mem_ops) (it_entry table_ops)\<rparr>"

definition source_at :: "source_iter \<Rightarrow> Entry list \<Rightarrow> Entry list \<Rightarrow> bool" where
  "source_at i es xs = (case i of MemSource m \<Rightarrow> mem_at m es xs | TableSource t \<Rightarrow> table_at t es xs)"

interpretation source_iterator: internal_iterator source_ops source_at
  by unfold_locales
    (auto simp: source_at_def source_ops_def split: source_iter.splits
      intro: mem_iterator.valid table_iterator.valid mem_iterator.entry table_iterator.entry
        mem_iterator.move table_iterator.move mem_iterator.first table_iterator.first
        mem_iterator.seek table_iterator.seek
      dest: mem_iterator.valid table_iterator.valid)

interpretation source_children: iterator_children source_ops source_at
  by unfold_locales

interpretation table_children: iterator_children table_ops table_at
  by unfold_locales

subsection \<open>Building tables\<close>

definition KeyMayExistBelow :: "Version \<Rightarrow> nat \<Rightarrow> bytes \<Rightarrow> bool" where
  "KeyMayExistBelow v below_level key =
     list_ex (list_ex (\<lambda>h. tm_smallest (th_meta h) \<le> key \<and> key \<le> tm_largest (th_meta h)))
       (drop (below_level + 1) v)"

definition table_options :: "Options \<Rightarrow> TableOptions" where
  "table_options opts = \<lparr>to_block_size = opt_block_size opts, to_bloom_bits_per_key = opt_bloom_bits_per_key opts\<rparr>"

text \<open>The local variables of \<open>BuildTableFromIterator\<close>, with the counter it draws file numbers from.\<close>

record build_state =
  bs_builder :: "TableBuilder option"
  bs_number :: nat
  bs_last_key :: "bytes option"
  bs_outputs :: "TableHandle list"
  bs_next_file :: nat
  bs_world :: world
  bs_status :: status

definition finish_current :: "bytes \<Rightarrow> nat \<Rightarrow> build_state \<Rightarrow> build_state" where
  "finish_current dir output_level st =
     (case bs_builder st of
        None \<Rightarrow> st
      | Some b \<Rightarrow>
          if bd_entries b = 0 then st\<lparr>bs_builder := None, bs_world := Abandon b (bs_world st)\<rparr>
          else (case Finish b (bs_world st) of
                  (Inl s, _, w1) \<Rightarrow> st\<lparr>bs_builder := None, bs_world := w1, bs_status := s\<rparr>
                | (Inr meta, _, w1) \<Rightarrow>
                    (let meta = meta\<lparr>tm_number := bs_number st, tm_level := int output_level\<rparr>
                     in case Table_Open (SstPath dir (bs_number st)) w1 of
                          (Inl s, w2) \<Rightarrow> st\<lparr>bs_builder := None, bs_world := w2, bs_status := s\<rparr>
                        | (Inr t, w2) \<Rightarrow>
                            st\<lparr>bs_builder := None, bs_world := w2,
                               bs_outputs := bs_outputs st @ [\<lparr>th_meta = meta, th_table = t\<rparr>]\<rparr>)))"

text \<open>Opening a builder when there is none.\<close>

definition ensure_builder :: "Options \<Rightarrow> bytes \<Rightarrow> build_state \<Rightarrow> build_state \<times> TableBuilder" where
  "ensure_builder opts dir st =
     (case bs_builder st of
        Some b \<Rightarrow> (st, b)
      | None \<Rightarrow>
          (let number = bs_next_file st
           in case TableBuilder_new (SstPath dir number) (table_options opts) (bs_world st) of
                (b, w1) \<Rightarrow> (st\<lparr>bs_number := number, bs_next_file := number + 1, bs_world := w1\<rparr>, b)))"

definition build_body ::
  "Options \<Rightarrow> bytes \<Rightarrow> nat \<Rightarrow> Version \<Rightarrow> nat \<Rightarrow> Entry \<Rightarrow> build_state \<Rightarrow> build_state \<times> bool" where
  "build_body opts dir output_level base max_bytes e st =
     (if bs_last_key st = Some (en_key e) then (st, True)
      else let st = st\<lparr>bs_last_key := Some (en_key e)\<rparr>
           in if en_op e = kDelete \<and> output_level > 0 \<and> \<not> KeyMayExistBelow base output_level (en_key e)
              then (st, True)
              else case ensure_builder opts dir st of (st, b) \<Rightarrow>
                (case builder_Add e b (bs_world st) of (s, b1, w1) \<Rightarrow>
                   if \<not> is_ok s
                   then (st\<lparr>bs_builder := None, bs_world := Abandon b1 w1, bs_status := s\<rparr>, False)
                   else let st = st\<lparr>bs_builder := Some b1, bs_world := w1\<rparr>
                        in if BytesWritten b1 \<ge> max_bytes
                           then (let st = finish_current dir output_level st in (st, is_ok (bs_status st)))
                           else (st, True)))"

definition BuildTableFromIterator ::
  "'i iter_ops \<Rightarrow> Options \<Rightarrow> bytes \<Rightarrow> 'i \<Rightarrow> nat \<Rightarrow> Version \<Rightarrow> nat \<Rightarrow> nat \<Rightarrow> world \<Rightarrow> build_state option" where
  "BuildTableFromIterator ops opts dir iter output_level base max_bytes next_file w =
     map_option (\<lambda>(st, _). if is_ok (bs_status st) then finish_current dir output_level st else st)
       (iter_loop ops (build_body opts dir output_level base max_bytes) (it_SeekToFirst ops iter)
          \<lparr>bs_builder = None, bs_number = 0, bs_last_key = None, bs_outputs = [],
           bs_next_file = next_file, bs_world = w, bs_status = OK\<rparr>)"

subsection \<open>The background thread\<close>

definition remove_file :: "bytes \<Rightarrow> world \<Rightarrow> world" where
  "remove_file path w = drop_file path w"

definition FlushOne :: "DB \<Rightarrow> world \<Rightarrow> (DB \<times> world) option" where
  "FlushOne db w =
     (case db_imm db of
        [] \<Rightarrow> None
      | (mem, wal_number) # imm \<Rightarrow>
          Option.bind (BuildTableFromIterator mem_ops (db_options db) (db_dir db) (mem_NewIterator mem) 0
               (db_version db) (2 ^ 64 - 1) (db_next_file db) w)
            (\<lambda>st. let db1 = db\<lparr>db_next_file := bs_next_file st\<rparr>
               in if \<not> is_ok (bs_status st) then Some (db1\<lparr>db_bg_error := bs_status st\<rparr>, bs_world st)
                  else let nv = (db_version db)[0 := SortLevel 0 (db_version db ! 0 @ bs_outputs st)]
                       in case SaveManifest (db_dir db) (manifest_of (db_next_file db1) (db_last_seq db) nv) (bs_world st) of
                            (s, w2) \<Rightarrow>
                              if \<not> is_ok s then Some (db1\<lparr>db_bg_error := s\<rparr>, w2)
                              else Some (db1\<lparr>db_version := nv, db_imm := imm\<rparr>,
                                         remove_file (WalPath (db_dir db) wal_number) w2)))"

definition MaxLevelBytes :: "Options \<Rightarrow> nat \<Rightarrow> nat" where
  "MaxLevelBytes opts level = opt_level_base_bytes opts * 10 ^ (level - 1) mod 2 ^ 64"

record Compaction =
  cp_output_level :: nat
  cp_inputs :: "TableHandle list"

definition overlapping :: "bytes \<Rightarrow> bytes \<Rightarrow> TableHandle list \<Rightarrow> TableHandle list" where
  "overlapping smallest largest files =
     filter (\<lambda>h. tm_largest (th_meta h) \<ge> smallest \<and> tm_smallest (th_meta h) \<le> largest) files"

text \<open>The second loop of \<open>PickCompaction\<close>, over the levels from \<open>level\<close> on.\<close>

function pick_level :: "Options \<Rightarrow> Version \<Rightarrow> nat list \<Rightarrow> nat \<Rightarrow> (Compaction \<times> nat list) option" where
  "pick_level opts v ptr level =
     (if level < kNumLevels - 1
      then let files = v ! level; total = sum_list (map (\<lambda>h. tm_file_bytes (th_meta h)) files) mod 2 ^ 64
           in if total \<le> MaxLevelBytes opts level \<or> files = [] then pick_level opts v ptr (level + 1)
              else let pick = files ! (ptr ! level mod length files)
                   in Some (\<lparr>cp_output_level = level + 1,
                        cp_inputs = pick # overlapping (tm_smallest (th_meta pick)) (tm_largest (th_meta pick)) (v ! (level + 1))\<rparr>,
                        ptr[level := (ptr ! level + 1) mod 2 ^ 64])
      else None)"
  by pat_completeness auto
termination
  by (relation "measure (\<lambda>(opts, v, ptr, level). kNumLevels - level)") auto

declare pick_level.simps [simp del]

definition PickCompaction :: "DB \<Rightarrow> (Compaction \<times> DB) option" where
  "PickCompaction db =
     (let v = db_version db
      in if length (v ! 0) \<ge> opt_l0_compaction_trigger (db_options db)
         then let inputs = v ! 0;
                  smallest = fold (\<lambda>h s. min s (tm_smallest (th_meta h))) inputs (tm_smallest (th_meta (hd inputs)));
                  largest = fold (\<lambda>h s. max s (tm_largest (th_meta h))) inputs (tm_largest (th_meta (hd inputs)))
              in Some (\<lparr>cp_output_level = 1, cp_inputs = inputs @ overlapping smallest largest (v ! 1)\<rparr>, db)
         else map_option (\<lambda>(c, ptr). (c, db\<lparr>db_compact_ptr := ptr\<rparr>))
                (pick_level (db_options db) v (db_compact_ptr db) 1))"

definition install_outputs :: "Version \<Rightarrow> Compaction \<Rightarrow> TableHandle list \<Rightarrow> Version" where
  "install_outputs v c outputs =
     (let gone = map (\<lambda>h. tm_number (th_meta h)) (cp_inputs c);
          kept = map (filter (\<lambda>h. tm_number (th_meta h) \<notin> set gone)) v;
          grown = kept[cp_output_level c := kept ! cp_output_level c @ outputs]
      in map (\<lambda>i. SortLevel i (grown ! i)) [0..<length grown])"

definition DoCompaction :: "Compaction \<Rightarrow> DB \<Rightarrow> world \<Rightarrow> (DB \<times> world) option" where
  "DoCompaction c db w =
     Option.bind (BuildTableFromIterator (merging_ops table_ops) (db_options db) (db_dir db)
          (NewMergingIterator (map (\<lambda>h. table_NewIterator (th_table h)) (cp_inputs c)))
          (cp_output_level c) (db_version db) (opt_max_output_file_bytes (db_options db)) (db_next_file db) w)
       (\<lambda>st. let db1 = db\<lparr>db_next_file := bs_next_file st\<rparr>
          in if \<not> is_ok (bs_status st) then Some (db1\<lparr>db_bg_error := bs_status st\<rparr>, bs_world st)
             else let nv = install_outputs (db_version db) c (bs_outputs st)
                  in case SaveManifest (db_dir db) (manifest_of (db_next_file db1) (db_last_seq db) nv) (bs_world st) of
                       (s, w2) \<Rightarrow>
                         if \<not> is_ok s then Some (db1\<lparr>db_bg_error := s\<rparr>, w2)
                         else Some (db1\<lparr>db_version := nv\<rparr>,
                              fold (\<lambda>h. remove_file (SstPath (db_dir db) (tm_number (th_meta h)))) (cp_inputs c) w2))"

text \<open>One turn of \<open>BackgroundLoop\<close> that does not wait.\<close>

definition background_step :: "DB \<Rightarrow> world \<Rightarrow> (DB \<times> world) option" where
  "background_step db w =
     (if db_shutdown db \<or> \<not> is_ok (db_bg_error db) then None
      else if db_imm db \<noteq> [] then FlushOne db w
      else case PickCompaction db of
             None \<Rightarrow> None
           | Some (c, db1) \<Rightarrow> DoCompaction c db1 w)"

subsection \<open>Writing\<close>

text \<open>
  A caller that waits with \<open>cv_.wait\<close> until fewer than \<open>n\<close> memtables wait for their flush; the
  background thread flushes meanwhile.
\<close>

partial_function (option) wait_below :: "nat \<Rightarrow> DB \<Rightarrow> world \<Rightarrow> (DB \<times> world) option" where
  "wait_below n db w =
     (if length (db_imm db) \<ge> n \<and> is_ok (db_bg_error db) \<and> \<not> db_shutdown db
      then Option.bind (FlushOne db w) (\<lambda>r. wait_below n (fst r) (snd r))
      else Some (db, w))"

definition SwitchMemtable :: "DB \<Rightarrow> world \<Rightarrow> status \<times> DB \<times> world" where
  "SwitchMemtable db w =
     (let new_wal = db_next_file db; db = db\<lparr>db_next_file := new_wal + 1\<rparr>
      in case WalWriter_Open (WalPath (db_dir db) new_wal) w of
           (s, w1) \<Rightarrow>
             if \<not> is_ok s then (s, db, w1)
             else (OK, db\<lparr>db_imm := db_imm db @ [(db_mem db, db_wal_number db)], db_mem := MemTable_new,
                          db_wal_number := new_wal\<rparr>, w1))"

text \<open>\<open>WriteImpl\<close> behind its waiting loop.\<close>

definition write_entry :: "(nat \<Rightarrow> u32) \<Rightarrow> Op \<Rightarrow> bytes \<Rightarrow> bytes \<Rightarrow> DB \<Rightarrow> world \<Rightarrow> (status \<times> DB \<times> world) option" where
  "write_entry rng op key val db w =
     (if \<not> is_ok (db_bg_error db) then Some (db_bg_error db, db, w)
      else if db_shutdown db then Some (Aborted (str ''db closing''), db, w)
      else let e = \<lparr>en_key = key, en_seqno = db_last_seq db + 1, en_op = op, en_value = val\<rparr>;
               path = WalPath (db_dir db) (db_wal_number db)
           in case WalWriter_Append path e w of (s, w1) \<Rightarrow>
             (case (if is_ok s \<and> opt_fsync_writes (db_options db) then WalWriter_Sync path w1 else (s, w1)) of (s, w2) \<Rightarrow>
                if \<not> is_ok s then Some (s, db, w2)
                else map_option
                  (\<lambda>m. let db = db\<lparr>db_last_seq := en_seqno e, db_mem := m\<rparr>
                     in if mt_bytes m \<ge> opt_write_buffer_size (db_options db)
                        then (case SwitchMemtable db w2 of (s, db, w3) \<Rightarrow> if is_ok s then (OK, db, w3) else (s, db, w3))
                        else (OK, db, w2))
                  (MemTable_Add rng (en_seqno e) op key val (db_mem db))))"

definition WriteImpl :: "(nat \<Rightarrow> u32) \<Rightarrow> Op \<Rightarrow> bytes \<Rightarrow> bytes \<Rightarrow> DB \<Rightarrow> world \<Rightarrow> (status \<times> DB \<times> world) option" where
  "WriteImpl rng op key val db w =
     Option.bind (wait_below 2 db w) (\<lambda>(db, w). write_entry rng op key val db w)"

definition DB_Put :: "(nat \<Rightarrow> u32) \<Rightarrow> bytes \<Rightarrow> bytes \<Rightarrow> DB \<Rightarrow> world \<Rightarrow> (status \<times> DB \<times> world) option" where
  "DB_Put rng key val = WriteImpl rng kPut key val"

definition DB_Delete :: "(nat \<Rightarrow> u32) \<Rightarrow> bytes \<Rightarrow> DB \<Rightarrow> world \<Rightarrow> (status \<times> DB \<times> world) option" where
  "DB_Delete rng key = WriteImpl rng kDelete key []"

definition wait_flushed :: "DB \<Rightarrow> world \<Rightarrow> (status \<times> DB \<times> world) option" where
  "wait_flushed db w =
     map_option (\<lambda>(db, w). (if \<not> is_ok (db_bg_error db) then db_bg_error db
         else if db_shutdown db then Aborted (str ''db closing'') else OK, db, w))
       (wait_below 1 db w)"

definition DB_Flush :: "DB \<Rightarrow> world \<Rightarrow> (status \<times> DB \<times> world) option" where
  "DB_Flush db w =
     (if mt_count (db_mem db) > 0
      then case SwitchMemtable db w of (s, db, w) \<Rightarrow> if \<not> is_ok s then Some (s, db, w) else wait_flushed db w
      else wait_flushed db w)"

definition LastSequence :: "DB \<Rightarrow> u64" where
  "LastSequence db = db_last_seq db"

record Stats =
  stat_last_seq :: u64
  stat_memtable_bytes :: nat
  stat_immutable_count :: nat
  stat_files_per_level :: "nat list"

definition GetStats :: "DB \<Rightarrow> Stats" where
  "GetStats db =
     \<lparr>stat_last_seq = db_last_seq db, stat_memtable_bytes = mt_bytes (db_mem db),
      stat_immutable_count = length (db_imm db), stat_files_per_level = map length (db_version db)\<rparr>"

subsection \<open>Reading\<close>

definition resolve :: "Entry \<Rightarrow> (status, bytes) sum" where
  "resolve e = (if en_op e = kDelete then Inl (NotFound []) else Inr (en_value e))"

function level_search :: "TableHandle list \<Rightarrow> bytes \<Rightarrow> nat \<Rightarrow> nat \<Rightarrow> nat" where
  "level_search files key lo hi =
     (if lo < hi
      then let mid = (lo + hi) div 2
           in if tm_largest (th_meta (files ! mid)) < key then level_search files key (mid + 1) hi
              else level_search files key lo mid
      else lo)"
  by pat_completeness auto
termination
  by (relation "measure (\<lambda>(files, key, lo, hi). hi - lo)") auto

declare level_search.simps [simp del]

definition level_lookup :: "TableHandle list \<Rightarrow> bytes \<Rightarrow> Entry option" where
  "level_lookup files key =
     (let lo = level_search files key 0 (length files)
      in if lo < length files \<and> tm_smallest (th_meta (files ! lo)) \<le> key
         then Table_Get (th_table (files ! lo)) key else None)"

text \<open>The first hit of a list of lookups.\<close>

fun first_hit :: "'a option list \<Rightarrow> 'a option" where
  "first_hit [] = None"
| "first_hit (x # xs) = (case x of None \<Rightarrow> first_hit xs | Some e \<Rightarrow> Some e)"

definition db_lookup :: "bytes \<Rightarrow> DB \<Rightarrow> Entry option" where
  "db_lookup key db =
     first_hit ([MemTable_Get key (db_mem db)] @ map (\<lambda>(m, _). MemTable_Get key m) (rev (db_imm db)) @
       map (\<lambda>h. Table_Get (th_table h) key) (db_version db ! 0) @
       map (\<lambda>files. level_lookup files key) (drop 1 (db_version db)))"

definition DB_Get :: "bytes \<Rightarrow> DB \<Rightarrow> (status, bytes) sum" where
  "DB_Get key db =
     (if \<not> is_ok (db_bg_error db) then Inl (db_bg_error db)
      else case db_lookup key db of None \<Rightarrow> Inl (NotFound []) | Some e \<Rightarrow> resolve e)"

text \<open>\<open>DBIterator\<close> over any inner iterator.\<close>

record 'i db_iter =
  di_inner :: 'i
  di_key :: bytes
  di_value :: bytes
  di_valid :: bool

partial_function (option) skip_key :: "'i iter_ops \<Rightarrow> bytes \<Rightarrow> 'i \<Rightarrow> 'i option" where
  "skip_key ops key i =
     (if it_Valid ops i \<and> en_key (it_entry ops i) = key then skip_key ops key (it_Next ops i) else Some i)"

definition SkipCurrentKey :: "'i iter_ops \<Rightarrow> 'i db_iter \<Rightarrow> 'i db_iter option" where
  "SkipCurrentKey ops d = map_option (\<lambda>i. d\<lparr>di_inner := i\<rparr>) (skip_key ops (di_key d) (di_inner d))"

partial_function (option) find_visible :: "'i iter_ops \<Rightarrow> 'i db_iter \<Rightarrow> 'i db_iter option" where
  "find_visible ops d =
     (if it_Valid ops (di_inner d)
      then let e = it_entry ops (di_inner d); d = d\<lparr>di_key := en_key e\<rparr>
           in if en_op e = kPut then Some (d\<lparr>di_value := en_value e, di_valid := True\<rparr>)
              else Option.bind (SkipCurrentKey ops d) (\<lambda>d. find_visible ops d)
      else Some d)"

definition FindNextVisible :: "'i iter_ops \<Rightarrow> 'i db_iter \<Rightarrow> 'i db_iter option" where
  "FindNextVisible ops d = find_visible ops (d\<lparr>di_valid := False\<rparr>)"

definition dbi_SeekToFirst :: "'i iter_ops \<Rightarrow> 'i db_iter \<Rightarrow> 'i db_iter option" where
  "dbi_SeekToFirst ops d = FindNextVisible ops (d\<lparr>di_inner := it_SeekToFirst ops (di_inner d)\<rparr>)"

definition dbi_Seek :: "'i iter_ops \<Rightarrow> bytes \<Rightarrow> 'i db_iter \<Rightarrow> 'i db_iter option" where
  "dbi_Seek ops key d = FindNextVisible ops (d\<lparr>di_inner := it_Seek ops key (di_inner d)\<rparr>)"

definition dbi_Next :: "'i iter_ops \<Rightarrow> 'i db_iter \<Rightarrow> 'i db_iter option" where
  "dbi_Next ops d = Option.bind (SkipCurrentKey ops d) (FindNextVisible ops)"

definition DB_NewIterator :: "DB \<Rightarrow> source_iter merging db_iter" where
  "DB_NewIterator db =
     \<lparr>di_inner = NewMergingIterator
        ([MemSource (mem_NewIterator (db_mem db))] @ map (\<lambda>(m, _). MemSource (mem_NewIterator m)) (db_imm db) @
         map (\<lambda>h. TableSource (table_NewIterator (th_table h))) (concat (db_version db))),
      di_key = [], di_value = [], di_valid = False\<rparr>"

subsection \<open>Opening and checkpoints\<close>

text \<open>Opening the tables of the manifest, into their levels.\<close>

fun load_tables :: "bytes \<Rightarrow> TableMeta list \<Rightarrow> Version \<Rightarrow> world \<Rightarrow> (status, Version) sum \<times> world" where
  "load_tables dir [] v w = (Inr v, w)"
| "load_tables dir (meta # files) v w =
     (if tm_level meta < 0 \<or> tm_level meta \<ge> int kNumLevels then (Inl (Corruption (str ''bad level in manifest'')), w)
      else case Table_Open (SstPath dir (tm_number meta)) w of
             (Inl s, w1) \<Rightarrow> (Inl s, w1)
           | (Inr t, w1) \<Rightarrow>
               (let level = nat (tm_level meta)
                in load_tables dir files (v[level := v ! level @ [\<lparr>th_meta = meta, th_table = t\<rparr>]]) w1))"

definition ends_with :: "bytes \<Rightarrow> bytes \<Rightarrow> bool" where
  "ends_with name suffix \<longleftrightarrow> length suffix \<le> length name \<and> drop (length name - length suffix) name = suffix"

text \<open>One directory entry: the logs found, the largest number, and the files that are left.\<close>

definition scan_name :: "bytes \<Rightarrow> nat set \<Rightarrow> bytes \<Rightarrow> nat list \<times> nat \<times> world \<Rightarrow> nat list \<times> nat \<times> world" where
  "scan_name dir live name = (\<lambda>(wals, max_number, w).
     if name = str ''MANIFEST'' then (wals, max_number, w)
     else case ParseFileName name of
            None \<Rightarrow> (wals, max_number, if ends_with name (str ''.tmp'') then remove_file (join_path dir name) w else w)
          | Some (number, ext) \<Rightarrow>
              (if ext = str ''wal'' then wals @ [number] else wals, max max_number number,
               if ext = str ''sst'' \<and> number \<notin> live then remove_file (join_path dir name) w else w))"

fun replay_wals :: "(nat \<Rightarrow> u32) \<Rightarrow> nat list \<Rightarrow> DB \<Rightarrow> world \<Rightarrow> (status \<times> DB \<times> world) option" where
  "replay_wals rng [] db w = Some (OK, db, w)"
| "replay_wals rng (number # wals) db w =
     (case RecoverWal (WalPath (db_dir db) number) [] w of (s, entries, w1) \<Rightarrow>
        if \<not> is_ok s then Some (s, db, w1)
        else Option.bind (add_all rng entries (db_mem db))
          (\<lambda>m. replay_wals rng wals
             (db\<lparr>db_mem := m, db_last_seq := fold (\<lambda>e s. max s (en_seqno e)) entries (db_last_seq db)\<rparr>) w1))"

text \<open>Flushing the replayed entries to level 0.\<close>

definition flush_replayed :: "DB \<Rightarrow> world \<Rightarrow> (status \<times> DB \<times> world) option" where
  "flush_replayed db w =
     (if mt_count (db_mem db) > 0
      then map_option
        (\<lambda>st. let db = db\<lparr>db_next_file := bs_next_file st\<rparr>
           in if \<not> is_ok (bs_status st) then (bs_status st, db, bs_world st)
              else (OK, db\<lparr>db_version := (db_version db)[0 := SortLevel 0 (db_version db ! 0 @ bs_outputs st)],
                           db_mem := MemTable_new\<rparr>, bs_world st))
        (BuildTableFromIterator mem_ops (db_options db) (db_dir db) (mem_NewIterator (db_mem db)) 0
           (db_version db) (2 ^ 64 - 1) (db_next_file db) w)
      else Some (OK, db, w))"

definition start_wal :: "nat list \<Rightarrow> DB \<Rightarrow> world \<Rightarrow> status \<times> DB \<times> world" where
  "start_wal wals db w =
     (case SaveManifest (db_dir db) (CurrentManifestData db) w of (s, w1) \<Rightarrow>
        if \<not> is_ok s then (s, db, w1)
        else let w2 = fold (\<lambda>number. remove_file (WalPath (db_dir db) number)) wals w1;
                 number = db_next_file db;
                 db = db\<lparr>db_wal_number := number, db_next_file := number + 1\<rparr>
             in case WalWriter_Open (WalPath (db_dir db) number) w2 of (s, w3) \<Rightarrow> (s, db, w3))"

definition load_version :: "DB \<Rightarrow> world \<Rightarrow> (status, ManifestData \<times> Version) sum \<times> world" where
  "load_version db w =
     (case LoadManifest (db_dir db) w of (r, w1) \<Rightarrow>
        (case (case r of Inl s \<Rightarrow> if IsNotFound s then Inr empty_manifest else Inl s | Inr md \<Rightarrow> Inr md) of
           Inl s \<Rightarrow> (Inl s, w1)
         | Inr md \<Rightarrow>
             (case load_tables (db_dir db) (md_files md) (replicate kNumLevels []) w1 of
                (Inl s, w2) \<Rightarrow> (Inl s, w2)
              | (Inr v, w2) \<Rightarrow> (Inr (md, map (\<lambda>i. SortLevel i (v ! i)) [0..<kNumLevels]), w2))))"

definition Recover :: "(nat \<Rightarrow> u32) \<Rightarrow> bytes list \<Rightarrow> DB \<Rightarrow> world \<Rightarrow> (status \<times> DB \<times> world) option" where
  "Recover rng names db w =
     (case sys_call id w of
        (Some e, w1) \<Rightarrow> Some (IOError (str ''create dir '' @ db_dir db @ str '': '' @ e), db, w1)
      | (None, w1) \<Rightarrow>
          (case load_version db w1 of
             (Inl s, w2) \<Rightarrow> Some (s, db, w2)
           | (Inr (md, v), w2) \<Rightarrow>
               (case fold (scan_name (db_dir db) (tm_number ` set (md_files md))) names ([], 0, w2) of
                  (wals, max_number, w3) \<Rightarrow>
                    (let wals = sort wals;
                         db = db\<lparr>db_next_file := max (md_next_file md) (max_number + 1),
                                 db_last_seq := of_nat (md_last_seq md), db_version := v\<rparr>
                     in Option.bind (replay_wals rng wals db w3) (\<lambda>(s, db, w4).
                          if \<not> is_ok s then Some (s, db, w4)
                          else Option.bind (flush_replayed db w4) (\<lambda>(s, db, w5).
                            if \<not> is_ok s then Some (s, db, w5)
                            else Some (start_wal wals db w5)))))))"

definition DB_Open :: "(nat \<Rightarrow> u32) \<Rightarrow> bytes list \<Rightarrow> Options \<Rightarrow> bytes \<Rightarrow> world \<Rightarrow> ((status, DB) sum \<times> world) option" where
  "DB_Open rng names options dir w =
     map_option (\<lambda>(s, db, w). (if is_ok s then Inr db else Inl s, w)) (Recover rng names (DB_new options dir) w)"

text \<open>The destructor: the flag that ends the background thread.\<close>

definition DB_close :: "DB \<Rightarrow> DB" where
  "DB_close db = db\<lparr>db_shutdown := True\<rparr>"

text \<open>
  A link shares the immutable file, so that it is a copy here.  Whether the target directory
  exists is an argument, since directories are not part of the files.
\<close>

fun link_tables :: "bytes \<Rightarrow> bytes \<Rightarrow> TableHandle list \<Rightarrow> world \<Rightarrow> status \<times> world" where
  "link_tables from_dir dir [] w = (OK, w)"
| "link_tables from_dir dir (h # hs) w =
     (let src = SstPath from_dir (tm_number (th_meta h)); dst = SstPath dir (tm_number (th_meta h));
          copy = (\<lambda>w. set_file dst (file_data src w) w)
      in case sys_call copy w of
           (None, w1) \<Rightarrow> link_tables from_dir dir hs w1
         | (Some _, w1) \<Rightarrow>
             (case sys_call copy w1 of
                (None, w2) \<Rightarrow> link_tables from_dir dir hs w2
              | (Some e, w2) \<Rightarrow> (IOError (str ''copy '' @ src @ str '': '' @ e), w2)))"

definition Checkpoint :: "bytes \<Rightarrow> bool \<Rightarrow> DB \<Rightarrow> world \<Rightarrow> (status \<times> DB \<times> world) option" where
  "Checkpoint dir dir_exists db w =
     map_option (\<lambda>(s, db, w).
        if \<not> is_ok s then (s, db, w)
        else if dir_exists then (InvalidArgument (str ''checkpoint dir exists: '' @ dir), db, w)
        else case sys_call id w of
               (Some e, w1) \<Rightarrow> (IOError (str ''create dir '' @ dir @ str '': '' @ e), db, w1)
             | (None, w1) \<Rightarrow>
                 (case link_tables (db_dir db) dir (concat (db_version db)) w1 of (s, w2) \<Rightarrow>
                    if \<not> is_ok s then (s, db, w2)
                    else (case SaveManifest dir (CurrentManifestData db) w2 of (s, w3) \<Rightarrow> (s, db, w3))))
       (DB_Flush db w)"

end
