(* ===== verification/TableBuild.thy ===== *)
theory TableBuild
  imports SSTable
begin

text \<open>
  The round trip of sorted tables: what \<open>TableBuilder\<close> writes, whatever partial writes the system
  reports, \<open>Table::Open\<close> reads as a table over exactly the entries added, whatever short
  reads it meets.
\<close>

subsection \<open>Reading back what the builder wrote\<close>

text \<open>A file that reads as its data: every read inside it transfers at least one byte.\<close>

definition healthy :: "file_view \<Rightarrow> bytes \<Rightarrow> bool" where
  "healthy view data \<longleftrightarrow>
     (\<forall>off n. 0 < n \<and> off < length data \<longrightarrow> (\<exists>m. 0 < m \<and> m \<le> n \<and> view off n = Inr (take m (drop off data))))"

lemma healthy_view_of: "length data \<le> 2 ^ 63 \<Longrightarrow> healthy (view_of data) data"
  by (auto simp: healthy_def view_of_def)

lemma pread_loop_healthy:
  assumes "healthy view data" and "off + n \<le> length data"
  shows "pread_loop path view off n = Inr (take n (drop off data))"
  using assms
proof (induction n arbitrary: off rule: less_induct)
  case (less n)
  show ?case
  proof (cases "n = 0")
    case True
    then show ?thesis by (subst pread_loop.simps) simp
  next
    case False
    then obtain m where m: "0 < m" "m \<le> n" "view off n = Inr (take m (drop off data))"
      using less.prems unfolding healthy_def by (metis add_leE le_neq_implies_less less_add_same_cancel1 neq0_conv not_add_less1)
    have len: "length (take m (drop off data)) = m" using less.prems m by simp
    have t: "take n (take m (drop off data)) = take m (drop off data)" using m by simp
    have IH: "pread_loop path view (off + m) (n - m) = Inr (take (n - m) (drop (off + m) data))"
      by (rule less.IH) (use m less.prems in auto)
    have "take m (drop off data) \<noteq> []" using len m(1) by (metis less_numeral_extra(3) list.size(3))
    then have "pread_loop path view off n = Inr (take m (drop off data) @ take (n - m) (drop (off + m) data))"
      using False m(3) IH t len by (subst pread_loop.simps) simp
    also have "\<dots> = Inr (take n (drop off data))"
      using m take_add [of m "n - m" "drop off data"] by (simp add: add.commute)
    finally show ?thesis .
  qed
qed

lemma ReadBlock_part:
  assumes "healthy (tb_view t) (pre @ blk @ post)"
  shows "ReadBlock t (length pre) (length blk) = Inr blk"
  unfolding ReadBlock_def by (subst pread_loop_healthy [OF assms]) simp_all

fun index_from :: "nat \<Rightarrow> Entry list list \<Rightarrow> IndexEntry list" where
  "index_from off [] = []"
| "index_from off (b # bs) =
     \<lparr>ie_first_key = en_key (hd b), ie_offset = off, ie_size = length (block_bytes b)\<rparr> #
     index_from (off + length (block_bytes b)) bs"

definition put_index :: "IndexEntry \<Rightarrow> bytes" where
  "put_index ie = PutLengthPrefixed (ie_first_key ie) @ PutFixed64 (of_nat (ie_offset ie)) @ PutFixed32 (of_nat (ie_size ie))"

definition index_fits :: "IndexEntry \<Rightarrow> bool" where
  "index_fits ie \<longleftrightarrow> size32 (ie_first_key ie) \<and> ie_offset ie < 2 ^ 64 \<and> ie_size ie < 2 ^ 32"

abbreviation blocks_bytes :: "Entry list list \<Rightarrow> bytes" where
  "blocks_bytes bs \<equiv> concat (map block_bytes bs)"

lemma parse_index_put:
  "list_all index_fits ies \<Longrightarrow> parse_index (dec_at pre (concat (map put_index ies))) = Some ies"
proof (induction ies arbitrary: pre)
  case Nil
  then show ?case by (subst parse_index.simps) (simp add: remaining_at)
next
  case (Cons ie ies)
  let ?rest = "concat (map put_index ies)"
  have s: "Str (dec_at pre (put_index ie @ ?rest)) =
      (ie_first_key ie, dec_at (pre @ PutLengthPrefixed (ie_first_key ie))
         (PutFixed64 (of_nat (ie_offset ie)) @ PutFixed32 (of_nat (ie_size ie)) @ ?rest))"
    using Cons.prems by (simp add: put_index_def index_fits_def codec)
  have "parse_index (dec_at (((pre @ PutLengthPrefixed (ie_first_key ie)) @ PutFixed64 (of_nat (ie_offset ie))) @
      PutFixed32 (of_nat (ie_size ie))) ?rest) = Some ies"
    using Cons by simp
  moreover have "remaining (dec_at pre (put_index ie @ ?rest)) \<noteq> 0"
    by (simp add: remaining_at put_index_def)
  ultimately show ?case
    using Cons.prems s
    by (subst parse_index.simps) (simp add: U64_at U32_at dec_ok_at index_fits_def unat_of_nat_u32 unat_of_nat_u64 Let_def)
qed

lemma index_from_append:
  "index_from off (as @ bs) = index_from off as @ index_from (off + length (blocks_bytes as)) bs"
  by (induction as arbitrary: off) (simp_all add: add.assoc)

lemma length_index_from [simp]: "length (index_from off bs) = length bs"
  by (induction bs arbitrary: off) simp_all

lemma index_from_nth:
  "j < length bs \<Longrightarrow> index_from off bs ! j =
     \<lparr>ie_first_key = en_key (hd (bs ! j)), ie_offset = off + length (blocks_bytes (take j bs)),
      ie_size = length (block_bytes (bs ! j))\<rparr>"
proof (induction bs arbitrary: off j)
  case (Cons b bs)
  then show ?case by (cases j) auto
qed simp

subsection \<open>The invariant of the builder\<close>

definition builder_inv :: "TableBuilder \<Rightarrow> world \<Rightarrow> Entry list list \<Rightarrow> Entry list \<Rightarrow> bool" where
  "builder_inv b w bs cur \<longleftrightarrow>
     bd_status b = OK \<and> w_files w (bd_path b) = Some (blocks_bytes bs) \<and>
     bd_offset b = length (blocks_bytes bs) \<and> (\<forall>c\<in>set bs. c \<noteq> []) \<and>
     bd_index b = concat (map put_index (index_from 0 bs)) \<and> bd_block b = block_bytes cur \<and>
     (cur \<noteq> [] \<longrightarrow> bd_block_first_key b = en_key (hd cur)) \<and>
     (\<forall>e\<in>set (concat bs @ cur). en_key e \<in> set (bd_keys b)) \<and>
     length (bd_keys b) \<le> length (concat bs @ cur) \<and>
     bd_entries b = length (concat bs @ cur) \<and>
     (concat bs @ cur \<noteq> [] \<longrightarrow> bd_smallest b = en_key (hd (concat bs @ cur)) \<and>
        bd_largest b = en_key (last (concat bs @ cur)))"

definition same_files :: "bytes \<Rightarrow> world \<Rightarrow> world \<Rightarrow> bool" where
  "same_files path w w' \<longleftrightarrow> (\<forall>p. p \<noteq> path \<longrightarrow> w_files w' p = w_files w p)"

lemma same_files_refl [simp]: "same_files path w w"
  by (simp add: same_files_def)

lemma same_files_trans: "same_files p a b \<Longrightarrow> same_files p b c \<Longrightarrow> same_files p a c"
  by (simp add: same_files_def)

lemma WriteRaw_ok:
  assumes "WriteRaw data b w = (s, b', w')" and "is_ok s" and "w_files w (bd_path b) = Some old"
  shows "b' = b\<lparr>bd_offset := bd_offset b + length data\<rparr> \<and> s = OK \<and>
         w_files w' (bd_path b) = Some (old @ data) \<and> same_files (bd_path b) w w'"
proof -
  obtain r w1 where l: "write_loop (bd_path b) data w = (r, w1)" by fastforce
  with assms have "r = None" by (cases r) (auto simp: WriteRaw_def Errno_def)
  with l assms write_loop_ok [of "bd_path b" data w w1 old] show ?thesis
    by (auto simp: WriteRaw_def same_files_def)
qed

lemma FlushBlock_ok:
  assumes "FlushBlock b w = (s, b', w')" and "is_ok s" and "builder_inv b w bs cur"
  shows "\<exists>bs'. builder_inv b' w' bs' [] \<and> concat bs' = concat bs @ cur \<and> same_files (bd_path b) w w' \<and>
           bd_path b' = bd_path b \<and> bd_opts b' = bd_opts b \<and> bd_keys b' = bd_keys b \<and> s = OK"
proof (cases "cur = []")
  case True
  then have "bd_block b = []" using assms(3) by (simp add: builder_inv_def)
  then show ?thesis using assms True by (intro exI [of _ bs]) (auto simp: FlushBlock_def)
next
  case False
  then have blk: "bd_block b = block_bytes cur" "bd_block b \<noteq> []"
    using assms(3) by (cases cur; auto simp: builder_inv_def)+
  let ?ie = "\<lparr>ie_first_key = en_key (hd cur), ie_offset = length (blocks_bytes bs), ie_size = length (block_bytes cur)\<rparr>"
  let ?b1 = "b\<lparr>bd_index := bd_index b @ put_index ?ie\<rparr>"
  obtain s1 b2 w1 where wr: "WriteRaw (block_bytes cur) ?b1 w = (s1, b2, w1)" by (metis prod_cases3)
  have "b\<lparr>bd_index := bd_index b @ PutLengthPrefixed (bd_block_first_key b) @
      PutFixed64 (of_nat (bd_offset b)) @ PutFixed32 (of_nat (length (bd_block b)))\<rparr> = ?b1"
    using assms(3) False by (simp add: builder_inv_def put_index_def)
  then have f: "FlushBlock b w = (s1, b2\<lparr>bd_block := [], bd_block_first_key := []\<rparr>, w1)"
    using blk wr by (simp add: FlushBlock_def Let_def)
  then have ok: "is_ok s1" using assms(1,2) by simp
  have "w_files w (bd_path ?b1) = Some (blocks_bytes bs)" using assms(3) by (simp add: builder_inv_def)
  note wok = WriteRaw_ok [OF wr ok this]
  have eqs: "s = s1" "b' = b2\<lparr>bd_block := [], bd_block_first_key := []\<rparr>" "w' = w1" using f assms(1) by simp_all
  have "builder_inv b' w' (bs @ [cur]) []"
    unfolding eqs builder_inv_def using wok assms(3) False
    by (auto simp: builder_inv_def index_from_append)
  then show ?thesis using wok eqs by (intro exI [of _ "bs @ [cur]"]) auto
qed

lemma builder_Add_ok:
  assumes "builder_Add e b w = (s, b', w')" and "is_ok s" and "builder_inv b w bs cur"
  shows "\<exists>bs' cur'. builder_inv b' w' bs' cur' \<and> concat bs' @ cur' = concat bs @ cur @ [e] \<and>
           same_files (bd_path b) w w' \<and> bd_path b' = bd_path b \<and> bd_opts b' = bd_opts b"
proof -
  define b1 where "b1 = note_entry e b"
  have ok: "is_ok (bd_status b)" using assms(3) by (simp add: builder_inv_def)
  have add: "builder_Add e b w =
      (if length (bd_block b1) \<ge> to_block_size (bd_opts b1)
       then (case FlushBlock b1 w of (s, b2, w1) \<Rightarrow> (s, b2\<lparr>bd_status := s\<rparr>, w1)) else (bd_status b1, b1, w))"
    using ok unfolding builder_Add_def b1_def Let_def by simp
  note b1_def = b1_def [unfolded note_entry_def]
  have keys: "en_key e \<in> set (bd_keys b1) \<and> set (bd_keys b) \<subseteq> set (bd_keys b1)"
  proof (cases "bd_keys b = [] \<or> last (bd_keys b) \<noteq> en_key e")
    case False
    then have "en_key e \<in> set (bd_keys b)" using last_in_set [of "bd_keys b"] by metis
    then show ?thesis by (auto simp: b1_def)
  qed (auto simp: b1_def)
  have fk: "bd_block_first_key b1 = en_key (hd (cur @ [e]))"
    using assms(3) by (cases cur) (auto simp: b1_def builder_inv_def)
  have sm: "bd_smallest b1 = en_key (hd (concat bs @ cur @ [e]))"
  proof (cases "concat bs @ cur = []")
    case True
    then show ?thesis using assms(3) by (simp add: b1_def builder_inv_def)
  next
    case False
    then have "hd (concat bs @ cur @ [e]) = hd (concat bs @ cur)" using hd_append2 [of "concat bs @ cur" "[e]"] by simp
    moreover have "bd_entries b \<noteq> 0" "bd_smallest b = en_key (hd (concat bs @ cur))"
      using assms(3) False unfolding builder_inv_def by (metis length_0_conv, blast)
    ultimately show ?thesis by (simp add: b1_def)
  qed
  have inv1: "builder_inv b1 w bs (cur @ [e])"
    unfolding builder_inv_def
  proof (intro conjI)
    show "\<forall>x\<in>set (concat bs @ cur @ [e]). en_key x \<in> set (bd_keys b1)"
      using assms(3) keys unfolding builder_inv_def by auto
    show "length (bd_keys b1) \<le> length (concat bs @ cur @ [e])"
      using assms(3) unfolding builder_inv_def by (simp add: b1_def)
    show "cur @ [e] \<noteq> [] \<longrightarrow> bd_block_first_key b1 = en_key (hd (cur @ [e]))" using fk by simp
    show "concat bs @ cur @ [e] \<noteq> [] \<longrightarrow> bd_smallest b1 = en_key (hd (concat bs @ cur @ [e])) \<and>
        bd_largest b1 = en_key (last (concat bs @ cur @ [e]))"
      using sm by (simp add: b1_def)
  qed (use assms(3) in \<open>simp_all add: builder_inv_def b1_def\<close>)
  have same: "bd_path b1 = bd_path b" "bd_opts b1 = bd_opts b" by (simp_all add: b1_def)
  show ?thesis
  proof (cases "length (bd_block b1) \<ge> to_block_size (bd_opts b1)")
    case True
    obtain s2 b2 w2 where fl: "FlushBlock b1 w = (s2, b2, w2)" by (metis prod_cases3)
    then have eqs: "s = s2" "b' = b2\<lparr>bd_status := s2\<rparr>" "w' = w2" using add True assms(1) by simp_all
    obtain bs' where "builder_inv b2 w2 bs' []" "concat bs' = concat bs @ cur @ [e]" "same_files (bd_path b1) w w2"
        "bd_path b2 = bd_path b1" "bd_opts b2 = bd_opts b1" "s2 = OK"
      using FlushBlock_ok [OF fl _ inv1] assms(2) eqs by auto
    then show ?thesis
      unfolding eqs using same by (intro exI [of _ bs'] exI [of _ "[]"]) (auto simp: builder_inv_def)
  next
    case False
    then have "b' = b1" "w' = w" using add assms(1) by simp_all
    then show ?thesis using inv1 same by (intro exI [of _ bs] exI [of _ "cur @ [e]"]) simp
  qed
qed

subsection \<open>Finishing and opening\<close>

lemma builder_new_ok:
  assumes "TableBuilder_new path opts w = (b, w')" and "is_ok (bd_status b)"
  shows "builder_inv b w' [] [] \<and> bd_path b = path \<and> bd_opts b = opts \<and> same_files path w w'"
proof -
  obtain r w1 where c: "sys_call (set_file path []) w = (r, w1)" by fastforce
  with assms have "r = None" by (cases r) (auto simp: TableBuilder_new_def Errno_def)
  with c assms show ?thesis
    by (auto simp: TableBuilder_new_def builder_inv_def same_files_def elim!: sys_callD)
qed

definition table_file :: "Entry list list \<Rightarrow> bytes list \<Rightarrow> nat \<Rightarrow> bytes" where
  "table_file bs keys bits =
     (let data = blocks_bytes bs; index = concat (map put_index (index_from 0 bs)); bloom = BuildBloom keys bits
      in data @ index @ bloom @
         table_footer (length data) (length index) (length data + length index) (length bloom) (length (concat bs)))"

lemma write_part_ok:
  assumes "write_part data b w = (s, b', w')" and "is_ok (bd_status b')" and "w_files w (bd_path b) = Some old"
  shows "is_ok (bd_status b) \<and> b' = b\<lparr>bd_offset := bd_offset b + length data, bd_status := OK\<rparr> \<and>
         w_files w' (bd_path b) = Some (old @ data) \<and> same_files (bd_path b) w w'"
proof -
  have ok: "is_ok (bd_status b)" using assms(1,2) by (auto simp: write_part_def split: if_splits)
  obtain s1 b1 w1 where wr: "WriteRaw data b w = (s1, b1, w1)" by (metis prod_cases3)
  then have eqs: "s = s1" "b' = b1\<lparr>bd_status := s1\<rparr>" "w' = w1" using assms(1) ok by (auto simp: write_part_def)
  then have "is_ok s1" using assms(2) by simp
  from WriteRaw_ok [OF wr this assms(3)] show ?thesis using ok eqs by simp
qed

lemma Finish_ok:
  assumes "Finish b w = (Inr meta, b', w')" and inv: "builder_inv b w bs cur"
  shows "\<exists>bs'. concat bs' = concat bs @ cur \<and> (\<forall>c\<in>set bs'. c \<noteq> []) \<and> same_files (bd_path b) w w' \<and>
           w_files w' (bd_path b) = Some (table_file bs' (bd_keys b) (to_bloom_bits_per_key (bd_opts b))) \<and>
           tm_file_bytes meta = length (table_file bs' (bd_keys b) (to_bloom_bits_per_key (bd_opts b))) \<and>
           tm_entries meta = length (concat bs @ cur) \<and>
           (concat bs @ cur \<noteq> [] \<longrightarrow> tm_smallest meta = en_key (hd (concat bs @ cur)) \<and>
              tm_largest meta = en_key (last (concat bs @ cur))) \<and>
           tm_number meta = 0 \<and> tm_level meta = 0"
proof -
  have ok: "is_ok (bd_status b)" using inv by (simp add: builder_inv_def)
  obtain s1 b1 w1 where fl: "FlushBlock b w = (s1, b1, w1)" by (metis prod_cases3)
  define c1 where "c1 = b1\<lparr>bd_status := s1\<rparr>"
  obtain s2 b2 w2 where p1: "write_part (bd_index b1) c1 w1 = (s2, b2, w2)" by (metis prod_cases3)
  define bloom where "bloom = BuildBloom (bd_keys b2) (to_bloom_bits_per_key (bd_opts b2))"
  obtain s3 b3 w3 where p2: "write_part bloom b2 w2 = (s3, b3, w3)" by (metis prod_cases3)
  define foot where "foot = table_footer (bd_offset b1) (length (bd_index b1)) (bd_offset b2) (length bloom) (bd_entries b3)"
  obtain s4 b4 w4 where p3: "write_part foot b3 w3 = (s4, b4, w4)" by (metis prod_cases3)
  obtain r w5 where sy: "sys_call id w4 = (r, w5)" by fastforce
  have F: "Finish b w = (if \<not> is_ok (bd_status b4) then (Inl (bd_status b4), b4, w4)
      else (case r of Some e \<Rightarrow> (let s = Errno (str ''fsync sst '' @ bd_path b4) e in (Inl s, b4\<lparr>bd_status := s\<rparr>, w5))
            | None \<Rightarrow> (Inr (builder_meta b4), b4\<lparr>bd_finished := True\<rparr>, w5)))"
    unfolding Finish_def using ok fl p1 p2 p3 sy
    by (simp add: Let_def c1_def [symmetric] bloom_def [symmetric] foot_def [symmetric])
  have ok4: "is_ok (bd_status b4)" and r: "r = None" and eqs: "meta = builder_meta b4" "b' = b4\<lparr>bd_finished := True\<rparr>" "w' = w5"
    using F assms(1) by (auto simp: Let_def split: if_splits option.splits)
  have ok3: "is_ok (bd_status b3)" using p3 ok4 by (auto simp: write_part_def split: if_splits)
  have ok2: "is_ok (bd_status b2)" using p2 ok3 by (auto simp: write_part_def split: if_splits)
  have ok1: "is_ok s1" using p1 ok2 by (auto simp: write_part_def c1_def split: if_splits)
  obtain bs' where f: "builder_inv b1 w1 bs' []" "concat bs' = concat bs @ cur" "same_files (bd_path b) w w1"
      "bd_path b1 = bd_path b" "bd_opts b1 = bd_opts b" "bd_keys b1 = bd_keys b" "s1 = OK"
    using FlushBlock_ok [OF fl ok1 inv] by blast
  have file1: "w_files w1 (bd_path c1) = Some (blocks_bytes bs')" using f(1) by (simp add: builder_inv_def c1_def)
  note q1 = write_part_ok [OF p1 ok2 file1]
  have file2: "w_files w2 (bd_path b2) = Some (blocks_bytes bs' @ bd_index b1)" using q1 by auto
  note q2 = write_part_ok [OF p2 ok3 file2]
  have file3: "w_files w3 (bd_path b3) = Some ((blocks_bytes bs' @ bd_index b1) @ bloom)" using q2 by auto
  note q3 = write_part_ok [OF p3 ok4 file3]
  have w5: "w_files w5 = w_files w4" using sy by (auto elim: sys_callD)
  have ix: "bd_index b1 = concat (map put_index (index_from 0 bs'))" and off: "bd_offset b1 = length (blocks_bytes bs')"
    and ents: "bd_entries b3 = length (concat bs')"
    using f(1) q1 q2 by (auto simp: builder_inv_def c1_def)
  have paths: "bd_path b2 = bd_path b" "bd_path b3 = bd_path b" "bd_keys b2 = bd_keys b" "bd_opts b2 = bd_opts b"
    "bd_offset b2 = length (blocks_bytes bs') + length (bd_index b1)"
    using q1 q2 f off by (auto simp: c1_def)
  have tf: "table_file bs' (bd_keys b) (to_bloom_bits_per_key (bd_opts b)) = ((blocks_bytes bs' @ bd_index b1) @ bloom) @ foot"
    unfolding table_file_def Let_def foot_def bloom_def ix [symmetric] off ents paths by (simp only: append_assoc)
  have filew: "w_files w' (bd_path b) = Some (table_file bs' (bd_keys b) (to_bloom_bits_per_key (bd_opts b)))"
    unfolding tf eqs(3) w5 using q3 paths(2) by metis
  have same: "same_files (bd_path b) w w'"
  proof -
    have "same_files (bd_path b) w1 w2" using q1 f(4) by (simp add: c1_def)
    moreover have "same_files (bd_path b) w2 w3" using q2 paths(1) by metis
    moreover have "same_files (bd_path b) w3 w4" using q3 paths(2) by metis
    ultimately have "same_files (bd_path b) w w4" using f(3) same_files_trans by blast
    then show ?thesis by (simp add: same_files_def eqs(3) w5)
  qed
  have b4: "bd_entries b4 = bd_entries b1" "bd_smallest b4 = bd_smallest b1" "bd_largest b4 = bd_largest b1"
    using q1 q2 q3 by (simp_all add: c1_def)
  have m4: "tm_entries meta = bd_entries b4" "tm_smallest meta = bd_smallest b4" "tm_largest meta = bd_largest b4"
    unfolding eqs(1) by (simp_all add: builder_meta_def)
  have cc: "concat bs' @ [] = concat bs @ cur" using f(2) by simp
  have meta: "tm_entries meta = length (concat bs @ cur)"
    "concat bs @ cur \<noteq> [] \<longrightarrow> tm_smallest meta = en_key (hd (concat bs @ cur)) \<and>
              tm_largest meta = en_key (last (concat bs @ cur))"
    using f(1) unfolding m4 b4 builder_inv_def cc by blast+
  have "tm_file_bytes meta = length (table_file bs' (bd_keys b) (to_bloom_bits_per_key (bd_opts b)))"
    unfolding eqs(1) tf using q2 q3 paths(5) by (simp add: builder_meta_def)
  moreover have "tm_number meta = 0" "tm_level meta = 0"
    unfolding eqs by (simp_all add: builder_meta_def empty_meta_def)
  ultimately show ?thesis using f(1,2) same filew meta unfolding builder_inv_def by blast
qed

text \<open>A file below half a gibibyte has room for every field of its footer, index and filter.\<close>

lemma in_concat_part:
  assumes "b \<in> set bs"
  shows "length (f b) \<le> length (concat (map f bs))"
  using assms by (induction bs) auto

lemma block_fits:
  assumes "e \<in> set b" and "length (block_bytes b) < 2 ^ 32"
  shows "kv_fits e"
proof -
  have "length (AppendEntry e) \<le> length (block_bytes b)"
    using in_concat_part [OF assms(1), of AppendEntry] by (simp add: block_bytes_def)
  then show ?thesis using assms(2) by (simp add: kv_fits_def AppendEntry_def)
qed

lemma length_BuildBloom: "length (BuildBloom keys bits) = 8 + bloom_bytes (length keys) bits"
proof -
  have "length (fold (add_key k (8 * n)) ks (replicate n 0)) = n" if "0 < n" for k n ks
    using fold_add_key [of "replicate n 0" "8 * n" k ks] that by simp
  then show ?thesis using bloom_bytes_pos [of "length keys" bits] by (simp add: BuildBloom_def Let_def mult.commute)
qed

lemma open_table_file:
  assumes h: "healthy view (table_file bs keys bits)" and small: "length (table_file bs keys bits) < 2 ^ 29"
    and ne: "\<forall>b\<in>set bs. b \<noteq> []" and srt: "sorted_entries (concat bs)"
    and keys: "\<forall>e\<in>set (concat bs). en_key e \<in> set keys"
  shows "\<exists>t. open_view path view (length (table_file bs keys bits)) = Inr t \<and> table_holds t (concat bs) \<and>
           tb_num_entries t = length (concat bs)"
proof -
  define data index bloom where "data = blocks_bytes bs" and "index = concat (map put_index (index_from 0 bs))"
    and "bloom = BuildBloom keys bits"
  define foot where "foot = table_footer (length data) (length index) (length data + length index) (length bloom) (length (concat bs))"
  have F: "table_file bs keys bits = data @ index @ bloom @ foot"
    by (simp add: table_file_def data_def index_def bloom_def foot_def Let_def)
  have lf: "length foot = kFooterSize" by (simp add: foot_def table_footer_def kFooterSize_def)
  have sizes: "length data < 2 ^ 29" "length index < 2 ^ 29" "length bloom < 2 ^ 29"
    using small F by simp_all
  have le: "length (concat bs) \<le> length data"
  proof -
    have "length (concat cs) \<le> length (blocks_bytes cs)" for cs
    proof (induction cs)
      case (Cons c cs)
      have "length c \<le> length (block_bytes c)" by (induction c) (simp_all add: AppendEntry_def)
      then show ?case using Cons by simp
    qed simp
    then show ?thesis by (simp add: data_def)
  qed
  let ?t = "\<lparr>tb_path = path, tb_view = view, tb_index = [], tb_bloom = [], tb_num_entries = 0\<rparr>"
  let ?u = "\<lparr>tb_path = path, tb_view = view, tb_index = index_from 0 bs, tb_bloom = bloom, tb_num_entries = length (concat bs)\<rparr>"
  have r1: "ReadBlock ?t (length (data @ index @ bloom)) (length foot) = Inr foot"
    by (rule ReadBlock_part [where post = "[]"]) (use h F in simp)
  have r2: "ReadBlock ?t (length data) (length index) = Inr index"
    by (rule ReadBlock_part [where post = "bloom @ foot"]) (use h F in simp)
  have r3: "ReadBlock ?t (length (data @ index)) (length bloom) = Inr bloom"
    by (rule ReadBlock_part [where post = foot]) (use h F in simp)
  have fits: "list_all index_fits (index_from 0 bs)"
    unfolding list_all_length
  proof (intro allI impI)
    fix j assume j: "j < length (index_from 0 bs)"
    then have jb: "bs ! j \<in> set bs" by simp
    have "length (block_bytes (bs ! j)) \<le> length data" using in_concat_part [OF jb] by (simp add: data_def)
    moreover from jb ne have "hd (bs ! j) \<in> set (bs ! j)" by simp
    ultimately have "kv_fits (hd (bs ! j))" "length (block_bytes (bs ! j)) < 2 ^ 32"
      using sizes block_fits by fastforce+
    moreover have "length (blocks_bytes (take j bs)) \<le> length data"
      unfolding data_def by (metis append_take_drop_id concat_append le_add1 length_append map_append)
    ultimately show "index_fits (index_from 0 bs ! j)"
      using index_from_nth [of j bs 0] j sizes by (simp add: index_fits_def kv_fits_def)
  qed
  have px: "parse_index (Decoder index) = Some (index_from 0 bs)"
    using parse_index_put [OF fits, of "[]"] by (simp add: index_def Decoder_dec_at)
  have off: "length (table_file bs keys bits) - kFooterSize = length (data @ index @ bloom)"
    "\<not> length (table_file bs keys bits) < kFooterSize" using F lf by simp_all
  have nums: "unat (of_nat (length data) :: u64) = length data" "unat (of_nat (length index) :: u32) = length index"
    "unat (of_nat (length data + length index) :: u64) = length (data @ index)"
    "unat (of_nat (length bloom) :: u32) = length bloom" "unat (of_nat (length (concat bs)) :: u64) = length (concat bs)"
    using sizes le by (auto intro!: unat_of_nat_u32 unat_of_nat_u64 simp del: of_nat_add)
  have op: "open_view path view (length (table_file bs keys bits)) = Inr ?u"
    unfolding open_view_def Let_def off(1) r1 [unfolded lf] using off(2) r2 r3 px
    by (simp add: foot_def table_footer_def codec nums del: length_append of_nat_add)
  have "table_blocks ?u bs"
    unfolding table_blocks_def readable_def
  proof (intro conjI allI impI)
    show "length (tb_index ?u) = length bs" "length bs \<le> length (tb_index ?u)" by simp_all
    show "\<exists>s. ReadBlock ?u (ie_offset (tb_index ?u ! length bs)) (ie_size (tb_index ?u ! length bs)) = Inl s"
      if "length bs < length (tb_index ?u)" using that by simp
    show "sorted_entries (concat bs)" by (rule srt)
    fix j assume j: "j < length bs"
    then have jb: "bs ! j \<in> set bs" by simp
    show "bs ! j \<noteq> []" using ne jb by blast
    have "length (block_bytes (bs ! j)) \<le> length data" using in_concat_part [OF jb] by (simp add: data_def)
    then have "length (block_bytes (bs ! j)) < 2 ^ 32" using sizes(1) by simp
    then show "list_all kv_fits (bs ! j)" using block_fits by (auto simp: list_all_iff)
    show "ie_first_key (tb_index ?u ! j) = en_key (hd (bs ! j))" using index_from_nth [OF j] by simp
    have "data = blocks_bytes (take j bs) @ block_bytes (bs ! j) @ blocks_bytes (drop (Suc j) bs)"
      unfolding data_def using id_take_nth_drop [OF j] by (metis concat.simps(2) concat_append list.simps(9) map_append)
    then have "ReadBlock ?u (length (blocks_bytes (take j bs))) (length (block_bytes (bs ! j))) = Inr (block_bytes (bs ! j))"
      using h F by (intro ReadBlock_part [where post = "blocks_bytes (drop (Suc j) bs) @ index @ bloom @ foot"]) simp
    then show "ReadBlock ?u (ie_offset (tb_index ?u ! j)) (ie_size (tb_index ?u ! j)) = Inr (block_bytes (bs ! j))"
      using index_from_nth [OF j, of 0] by simp
  qed
  moreover have "bloom_bytes (length keys) bits * 8 < 2 ^ 32"
    using sizes(3) unfolding bloom_def length_BuildBloom by simp
  then have "\<forall>e\<in>set (concat bs). BloomMayContain bloom (en_key e)"
    using keys BloomMayContain_Build by (auto simp: bloom_def)
  ultimately have "table_holds ?u (concat bs)" unfolding table_holds_def by auto
  then show ?thesis using op by simp
qed

lemma table_file_size:
  assumes "\<forall>b\<in>set bs. b \<noteq> []" and "length keys \<le> length (concat bs)"
  shows "length (table_file bs keys bits) \<le> 2 * length (block_bytes (concat bs)) + length (concat bs) * bits + 64"
proof -
  have data: "block_bytes (concat cs) = blocks_bytes cs" for cs by (induction cs) simp_all
  have "length (concat (map put_index (index_from off cs))) \<le> length (blocks_bytes cs)" if "\<forall>b\<in>set cs. b \<noteq> []" for off cs
    using that
  proof (induction cs arbitrary: off)
    case (Cons c cs)
    obtain e es where "c = e # es" using Cons.prems by (cases c) auto
    then have "length (put_index \<lparr>ie_first_key = en_key (hd c), ie_offset = off, ie_size = length (block_bytes c)\<rparr>) \<le>
        length (block_bytes c)" by (simp add: put_index_def AppendEntry_def)
    then show ?case using Cons.IH [of "off + length (block_bytes c)"] Cons.prems by simp
  qed simp
  note ix = this [OF assms(1), of 0]
  have "bloom_bytes (length keys) bits \<le> 8 + length keys * bits"
    by (simp add: bloom_bytes_def)
  also have "\<dots> \<le> 8 + length (concat bs) * bits" using assms(2) by simp
  finally have bl: "length (BuildBloom keys bits) \<le> 16 + length (concat bs) * bits" by (simp add: length_BuildBloom)
  have "length (table_file bs keys bits) = length (blocks_bytes bs) + length (concat (map put_index (index_from 0 bs))) +
      length (BuildBloom keys bits) + 44"
    unfolding table_file_def Let_def by (simp add: table_footer_def)
  then show ?thesis using ix bl unfolding data by linarith
qed

definition table_small :: "TableOptions \<Rightarrow> Entry list \<Rightarrow> bool" where
  "table_small opts es \<longleftrightarrow> 2 * length (block_bytes es) + length es * to_bloom_bits_per_key opts + 64 < 2 ^ 29"

subsection \<open>Properties\<close>

text \<open>A table written in one go: the builder is opened, fed and finished.\<close>

fun add_entries :: "Entry list \<Rightarrow> TableBuilder \<Rightarrow> world \<Rightarrow> status \<times> TableBuilder \<times> world" where
  "add_entries [] b w = (OK, b, w)"
| "add_entries (e # es) b w =
     (case builder_Add e b w of (s, b1, w1) \<Rightarrow> if is_ok s then add_entries es b1 w1 else (s, b1, w1))"

definition build_table :: "bytes \<Rightarrow> TableOptions \<Rightarrow> Entry list \<Rightarrow> world \<Rightarrow> (status, TableMeta) sum \<times> world" where
  "build_table path opts es w =
     (case TableBuilder_new path opts w of (b, w1) \<Rightarrow>
        (case add_entries es b w1 of (s, b2, w2) \<Rightarrow>
           if is_ok s then (case Finish b2 w2 of (r, _, w3) \<Rightarrow> (r, w3)) else (Inl s, Abandon b2 w2)))"

lemma add_entries_ok:
  "add_entries es b w = (s, b', w') \<Longrightarrow> is_ok s \<Longrightarrow> builder_inv b w bs cur \<Longrightarrow>
   \<exists>bs' cur'. builder_inv b' w' bs' cur' \<and> concat bs' @ cur' = (concat bs @ cur) @ es \<and> same_files (bd_path b) w w' \<and>
     bd_path b' = bd_path b \<and> bd_opts b' = bd_opts b"
proof (induction es arbitrary: b w bs cur)
  case Nil
  then show ?case by auto
next
  case (Cons e es)
  obtain s1 b1 w1 where a: "builder_Add e b w = (s1, b1, w1)" by (metis prod_cases3)
  have ok: "is_ok s1" and rest: "add_entries es b1 w1 = (s, b', w')" using Cons.prems(1,2) a by (auto split: if_splits)
  obtain bs1 cur1 where i: "builder_inv b1 w1 bs1 cur1" "concat bs1 @ cur1 = concat bs @ cur @ [e]"
      "same_files (bd_path b) w w1" "bd_path b1 = bd_path b" "bd_opts b1 = bd_opts b"
    using builder_Add_ok [OF a ok Cons.prems(3)] by blast
  from Cons.IH [OF rest Cons.prems(2) i(1)] i(2-5) show ?case
    using same_files_trans [of "bd_path b" w w1 w'] by auto
qed

lemma build_table_ok:
  assumes "build_table path opts es w = (Inr meta, w')"
  shows "\<exists>bs keys. concat bs = es \<and> (\<forall>b\<in>set bs. b \<noteq> []) \<and> (\<forall>e\<in>set es. en_key e \<in> set keys) \<and>
           length keys \<le> length es \<and> same_files path w w' \<and>
           w_files w' path = Some (table_file bs keys (to_bloom_bits_per_key opts)) \<and>
           tm_entries meta = length es \<and> tm_number meta = 0 \<and> tm_level meta = 0 \<and>
           (es \<noteq> [] \<longrightarrow> tm_smallest meta = en_key (hd es) \<and> tm_largest meta = en_key (last es))"
proof -
  obtain b w1 where n: "TableBuilder_new path opts w = (b, w1)" by fastforce
  obtain s b2 w2 where a: "add_entries es b w1 = (s, b2, w2)" by (metis prod_cases3)
  have ok: "is_ok s" using assms n a by (auto simp: build_table_def split: if_splits)
  obtain b3 where f: "Finish b2 w2 = (Inr meta, b3, w')"
    using assms n a ok by (auto simp: build_table_def split: prod.splits)
  show ?thesis
  proof (cases "is_ok (bd_status b)")
    case True
    note nb = builder_new_ok [OF n True]
    obtain bs cur where i: "builder_inv b2 w2 bs cur" "concat bs @ cur = es" "same_files (bd_path b) w1 w2"
        "bd_path b2 = bd_path b" "bd_opts b2 = bd_opts b"
      using add_entries_ok [OF a ok] nb by fastforce
    obtain bs' where g: "concat bs' = concat bs @ cur" "\<forall>c\<in>set bs'. c \<noteq> []" "same_files (bd_path b2) w2 w'"
        "w_files w' (bd_path b2) = Some (table_file bs' (bd_keys b2) (to_bloom_bits_per_key (bd_opts b2)))"
        "tm_entries meta = length (concat bs @ cur)"
        "concat bs @ cur \<noteq> [] \<longrightarrow> tm_smallest meta = en_key (hd (concat bs @ cur)) \<and>
              tm_largest meta = en_key (last (concat bs @ cur))" "tm_number meta = 0" "tm_level meta = 0"
      using Finish_ok [OF f i(1)] by blast
    have p: "bd_path b2 = path" "bd_opts b2 = opts" using nb i by simp_all
    have "same_files path w w1" "same_files path w1 w2" using nb i(3) by simp_all
    then have "same_files path w w'" using g(3) p(1) same_files_trans by metis
    moreover have "\<forall>e\<in>set es. en_key e \<in> set (bd_keys b2)" "length (bd_keys b2) \<le> length es"
      using i(1) unfolding builder_inv_def i(2) by blast+
    ultimately show ?thesis
      using g unfolding i(2) p by (intro exI [of _ bs'] exI [of _ "bd_keys b2"]) blast
  next
    case False
    then have "is_ok (bd_status b2) \<longrightarrow> es = [] \<and> b2 = b" using a ok
      by (cases es) (auto simp: builder_Add_def split: if_splits)
    then have "\<not> is_ok (bd_status b2)" using False by (cases es) (use a ok in \<open>auto simp: builder_Add_def\<close>)
    then show ?thesis using f by (simp add: Finish_def)
  qed
qed

text \<open>Without faults every step succeeds.\<close>

lemma WriteRaw_no_fault:
  assumes "w_io w = []" and "w_files w (bd_path b) \<noteq> None"
  shows "\<exists>b' w'. WriteRaw data b w = (OK, b', w') \<and> w_io w' = []"
  using write_loop_no_fault [of w data "bd_path b"] assms by (auto simp: WriteRaw_def)

lemma FlushBlock_no_fault:
  assumes "w_io w = []" and "w_files w (bd_path b) \<noteq> None"
  shows "\<exists>b' w'. FlushBlock b w = (OK, b', w') \<and> w_io w' = []"
proof (cases "bd_block b = []")
  case False
  let ?b = "b\<lparr>bd_index := bd_index b @ PutLengthPrefixed (bd_block_first_key b) @
      PutFixed64 (of_nat (bd_offset b)) @ PutFixed32 (of_nat (length (bd_block b)))\<rparr>"
  obtain b1 w1 where "WriteRaw (bd_block b) ?b w = (OK, b1, w1)" "w_io w1 = []"
    using WriteRaw_no_fault [of w ?b "bd_block b"] assms by auto
  then show ?thesis using False by (simp add: FlushBlock_def Let_def)
qed (use assms in \<open>simp add: FlushBlock_def\<close>)

lemma builder_Add_no_fault:
  assumes "w_io w = []" and "builder_inv b w bs cur"
  shows "\<exists>b' w'. builder_Add e b w = (OK, b', w') \<and> w_io w' = []"
proof -
  have st: "bd_status b = OK" and f: "w_files w (bd_path b) \<noteq> None" using assms(2) by (simp_all add: builder_inv_def)
  have stn: "bd_status (note_entry e b) = OK" for e using st by (simp add: note_entry_def)
  have path: "\<exists>b2 w2. FlushBlock (note_entry e b) w = (OK, b2, w2) \<and> w_io w2 = []" for e
    using FlushBlock_no_fault [of w "note_entry e b"] assms(1) f by (simp add: note_entry_def)
  show ?thesis
    using st assms(1) unfolding builder_Add_def Let_def
    by (cases "to_block_size (bd_opts (note_entry e b)) \<le> length (bd_block (note_entry e b))")
      (use path [of e] in \<open>fastforce simp: stn [of e]\<close>)+
qed

lemma add_entries_no_fault:
  "w_io w = [] \<Longrightarrow> builder_inv b w bs cur \<Longrightarrow> \<exists>b' w'. add_entries es b w = (OK, b', w') \<and> w_io w' = []"
proof (induction es arbitrary: b w bs cur)
  case (Cons e es)
  obtain b1 w1 where a: "builder_Add e b w = (OK, b1, w1)" "w_io w1 = []"
    using builder_Add_no_fault [OF Cons.prems] by blast
  moreover obtain bs1 cur1 where "builder_inv b1 w1 bs1 cur1"
    using builder_Add_ok [OF a(1) _ Cons.prems(2)] by auto
  ultimately show ?case using Cons.IH [of w1 b1] by simp
qed simp

lemma write_part_no_fault:
  assumes "w_io w = []" and "w_files w (bd_path b) \<noteq> None" and "is_ok (bd_status b)"
  shows "\<exists>b' w'. write_part data b w = (OK, b', w') \<and> w_io w' = [] \<and> bd_status b' = OK \<and>
           bd_path b' = bd_path b \<and> w_files w' (bd_path b) \<noteq> None"
proof -
  obtain b' w' where wr: "WriteRaw data b w = (OK, b', w')" "w_io w' = []" using WriteRaw_no_fault [OF assms(1,2)] by blast
  obtain old where "w_files w (bd_path b) = Some old" using assms(2) by blast
  from WriteRaw_ok [OF wr(1) _ this] wr assms(3) show ?thesis by (auto simp: write_part_def)
qed

lemma Finish_no_fault:
  assumes "w_io w = []" and "builder_inv b w bs cur"
  shows "\<exists>meta b' w'. Finish b w = (Inr meta, b', w') \<and> w_io w' = []"
proof -
  have st: "bd_status b = OK" and f: "w_files w (bd_path b) \<noteq> None" using assms(2) by (simp_all add: builder_inv_def)
  obtain b1 w1 where fl: "FlushBlock b w = (OK, b1, w1)" "w_io w1 = []" using FlushBlock_no_fault [OF assms(1) f] by blast
  then obtain bs1 where i: "builder_inv b1 w1 bs1 []" using FlushBlock_ok [OF fl(1) _ assms(2)] by auto
  let ?c = "b1\<lparr>bd_status := OK\<rparr>"
  have c: "w_files w1 (bd_path ?c) \<noteq> None" "is_ok (bd_status ?c)" using i by (simp_all add: builder_inv_def)
  obtain b2 w2 where p1: "write_part (bd_index b1) ?c w1 = (OK, b2, w2)" "w_io w2 = []" "bd_status b2 = OK"
      "w_files w2 (bd_path b2) \<noteq> None"
    using write_part_no_fault [OF fl(2) c, of "bd_index b1"] by metis
  let ?bl = "BuildBloom (bd_keys b2) (to_bloom_bits_per_key (bd_opts b2))"
  obtain b3 w3 where p2: "write_part ?bl b2 w2 = (OK, b3, w3)" "w_io w3 = []" "bd_status b3 = OK"
      "w_files w3 (bd_path b3) \<noteq> None"
    using write_part_no_fault [of w2 b2 ?bl] p1 by (metis status_simps(7) is_ok_def status.select_convs(1))
  let ?ft = "table_footer (bd_offset b1) (length (bd_index b1)) (bd_offset b2) (length ?bl) (bd_entries b3)"
  obtain b4 w4 where p3: "write_part ?ft b3 w3 = (OK, b4, w4)" "w_io w4 = []" "bd_status b4 = OK"
    using write_part_no_fault [of w3 b3 ?ft] p2 by (metis status_simps(7) is_ok_def status.select_convs(1))
  show ?thesis
    unfolding Finish_def using st fl(1) p1(1) p2(1) p3 sys_call_no_fault [of w4 id] by (simp add: Let_def)
qed

lemma build_table_no_fault:
  assumes "w_io w = []"
  shows "\<exists>meta w'. build_table path opts es w = (Inr meta, w')"
proof -
  obtain b w1 where n: "TableBuilder_new path opts w = (b, w1)" by fastforce
  have io: "w_io w1 = []" "is_ok (bd_status b)"
    using n sys_call_no_fault [OF assms, of "set_file path []"] assms by (auto simp: TableBuilder_new_def)
  have inv: "builder_inv b w1 [] []" using builder_new_ok [OF n io(2)] by simp
  obtain b2 w2 where a: "add_entries es b w1 = (OK, b2, w2)" "w_io w2 = []" using add_entries_no_fault [OF io(1) inv] by blast
  then obtain bs cur where "builder_inv b2 w2 bs cur" using add_entries_ok [OF a(1) _ inv] by auto
  from Finish_no_fault [OF a(2) this] show ?thesis using n a by (auto simp: build_table_def)
qed

text \<open>
  (C24) The round trip of sorted tables.  When \<open>TableBuilder\<close> has been fed entries in internal-key
  order and \<open>Finish\<close> reports success, whatever partial writes there were, then a table opened
  on the file, whatever short reads it meets, returns for every key the first and so newest
  of the added versions, and \<open>Seek\<close> followed by \<open>Next\<close> visits exactly the added entries from
  the first key not below the target on.
\<close>
theorem table_roundtrip:
  assumes "sorted_entries es" and "table_small opts es" and "build_table path opts es w = (Inr meta, w')"
  shows "\<exists>data. w_files w' path = Some data \<and>
           (\<forall>view. healthy view data \<longrightarrow>
              (\<exists>t. open_view path view (length data) = Inr t \<and> (\<forall>key. Table_Get t key = find_key key es) \<and>
                 (\<forall>key. \<exists>i. iter_loop table_ops (\<lambda>e acc. (acc @ [e], True)) (table_Seek key (table_NewIterator t)) [] =
                    Some (dropWhile (\<lambda>e. en_key e < key) es, i))))"
proof -
  obtain bs keys where b: "concat bs = es" "\<forall>b\<in>set bs. b \<noteq> []" "\<forall>e\<in>set es. en_key e \<in> set keys" "length keys \<le> length es"
      "w_files w' path = Some (table_file bs keys (to_bloom_bits_per_key opts))"
    using build_table_ok [OF assms(3)] by blast
  have small: "length (table_file bs keys (to_bloom_bits_per_key opts)) < 2 ^ 29"
    using table_file_size [OF b(2), of keys "to_bloom_bits_per_key opts"] b(1,4) assms(2) by (simp add: table_small_def)
  show ?thesis
  proof (rule exI, rule conjI, rule b(5), intro allI impI)
    fix view assume h: "healthy view (table_file bs keys (to_bloom_bits_per_key opts))"
    obtain t where t: "open_view path view (length (table_file bs keys (to_bloom_bits_per_key opts))) = Inr t" "table_holds t es"
      using open_table_file [OF h small b(2)] b(1,3) assms(1) by auto
    have "\<exists>i. iter_loop table_ops (\<lambda>e acc. (acc @ [e], True)) (table_Seek key (table_NewIterator t)) [] =
        Some (dropWhile (\<lambda>e. en_key e < key) es, i)" for key
    proof -
      have "table_at (it_Seek table_ops key (table_NewIterator t)) es (dropWhile (\<lambda>e. en_key e < key) es)"
        by (rule table_iterator.seek [OF table_holds_iter [OF t(2)]])
      from table_iterator.loop [OF this, of "\<lambda>e acc. (acc @ [e], True)" "[]"] show ?thesis
        using list_loop_collect [of "\<lambda>e. e"] by (auto simp: table_ops_def)
    qed
    with t table_holds_Get [OF t(2)]
    show "\<exists>t. open_view path view (length (table_file bs keys (to_bloom_bits_per_key opts))) = Inr t \<and>
        (\<forall>key. Table_Get t key = find_key key es) \<and>
        (\<forall>key. \<exists>i. iter_loop table_ops (\<lambda>e acc. (acc @ [e], True)) (table_Seek key (table_NewIterator t)) [] =
           Some (dropWhile (\<lambda>e. en_key e < key) es, i))" by blast
  qed
qed

definition demo_entries :: "Entry list" where
  "demo_entries = [\<lparr>en_key = [97], en_seqno = 2, en_op = kDelete, en_value = []\<rparr>,
     \<lparr>en_key = [97], en_seqno = 1, en_op = kPut, en_value = [1]\<rparr>, \<lparr>en_key = [98], en_seqno = 3, en_op = kPut, en_value = [2]\<rparr>]"

theorem table_roundtrip_witness:
  "\<exists>meta w' data. build_table [1] \<lparr>to_block_size = 30, to_bloom_bits_per_key = 10\<rparr> demo_entries
       \<lparr>w_files = Map.empty, w_io = []\<rparr> = (Inr meta, w') \<and> w_files w' [1] = Some data \<and>
     (\<forall>view. healthy view data \<longrightarrow>
        (\<exists>t. open_view [1] view (length data) = Inr t \<and> (\<forall>key. Table_Get t key = find_key key demo_entries) \<and>
           (\<forall>key. \<exists>i. iter_loop table_ops (\<lambda>e acc. (acc @ [e], True)) (table_Seek key (table_NewIterator t)) [] =
              Some (dropWhile (\<lambda>e. en_key e < key) demo_entries, i))))"
proof -
  let ?o = "\<lparr>to_block_size = 30, to_bloom_bits_per_key = 10\<rparr>"
  obtain meta w' where b: "build_table [1] ?o demo_entries \<lparr>w_files = Map.empty, w_io = []\<rparr> = (Inr meta, w')"
    using build_table_no_fault [of "\<lparr>w_files = Map.empty, w_io = []\<rparr>" "[1]" ?o demo_entries] by auto
  have s: "sorted_entries demo_entries" by (simp add: demo_entries_def ikey_of_def le_IKey)
  have f: "table_small ?o demo_entries" by (simp add: table_small_def demo_entries_def AppendEntry_def)
  show ?thesis using b table_roundtrip [OF s f b] by blast
qed

end
