(* ===== verification/DBBuild.thy ===== *)
theory DBBuild
  imports DB TableBuild "HOL-Library.Sublist"
begin

text \<open>
  What \<open>BuildTableFromIterator\<close> makes of an iteration.  From the entries in internal-key order it
  keeps the newest version of every key, without the tombstones that hide nothing
  (\<open>survivors\<close>); when it reports success, its outputs are tables that hold the survivors, cut
  into pieces, on files with new numbers; and it touches no other file, success or not.
\<close>

subsection \<open>File names\<close>

lemma digits_value_zeros: "digits_value (replicate k 48 @ ds) = digits_value ds"
proof (induction ds rule: rev_induct)
  case Nil
  show ?case
  proof (induction k)
    case (Suc k)
    then show ?case using digits_value_snoc [of "replicate k 48" 48] by (simp add: replicate_append_same digits_value_def)
  qed simp
next
  case (snoc c ds)
  then show ?case using digits_value_snoc [of "replicate k 48 @ ds" c] by (simp add: digits_value_snoc)
qed

lemma digits_value_pad6 [simp]: "digits_value (pad6 n) = n"
  by (simp add: pad6_def digits_value_zeros)

lemma pad6_digits: "list_all is_digit (pad6 n)"
  using to_string_digits [of n] by (auto simp: pad6_def list_all_iff is_digit_def)

lemma pad6_not_Nil [simp]: "pad6 n \<noteq> []"
  by (simp add: pad6_def)

lemma pad6_inject [simp]: "pad6 m = pad6 n \<longleftrightarrow> m = n"
  by (metis digits_value_pad6)

lemma join_path_inject [simp]: "join_path dir a = join_path dir b \<longleftrightarrow> a = b"
  by (simp add: join_path_def)

lemma last_names:
  "last (pad6 n @ str ''.sst'') = 116" "last (pad6 n @ str ''.wal'') = 108" "last (str ''MANIFEST'') = 84"
  "last (str ''MANIFEST'' @ str ''.tmp'') = 112"
  by (simp_all add: str_def)

lemma paths_inject [simp]:
  "SstPath dir m = SstPath dir n \<longleftrightarrow> m = n" "WalPath dir m = WalPath dir n \<longleftrightarrow> m = n"
  by (simp_all add: SstPath_def WalPath_def)

lemma paths_distinct [simp]: "SstPath dir m \<noteq> WalPath dir n" "WalPath dir n \<noteq> SstPath dir m"
  using last_names(1) [of m] last_names(2) [of n] by (auto simp: SstPath_def WalPath_def)

abbreviation manifest_path :: "bytes \<Rightarrow> bytes" where
  "manifest_path dir \<equiv> join_path dir (str ''MANIFEST'')"

lemma manifest_name [simp]: "pad6 m @ str ''.sst'' \<noteq> str ''MANIFEST''" "pad6 m @ str ''.wal'' \<noteq> str ''MANIFEST''"
  by (auto simp: str_def dest: arg_cong [where f = last])

lemma manifest_distinct [simp]:
  "SstPath dir m \<noteq> manifest_path dir" "WalPath dir m \<noteq> manifest_path dir"
  "manifest_path dir \<noteq> SstPath dir m" "manifest_path dir \<noteq> WalPath dir m"
  using manifest_name [of m] by (auto simp: SstPath_def WalPath_def simp del: manifest_name)

lemma join_path_append: "join_path dir a @ b = join_path dir (a @ b)"
  by (simp add: join_path_def)

lemma manifest_tmp_distinct [simp]:
  "SstPath dir m \<noteq> manifest_path dir @ str ''.tmp''" "WalPath dir m \<noteq> manifest_path dir @ str ''.tmp''"
  using last_names(1,2) [of m] last_names(4) unfolding join_path_append by (auto simp: SstPath_def WalPath_def)

lemma SaveManifest_files:
  assumes "SaveManifest dir md w = (s, w')"
  shows "w_files w' (SstPath dir n) = w_files w (SstPath dir n)" "w_files w' (WalPath dir n) = w_files w (WalPath dir n)"
    "is_ok s \<Longrightarrow> w_files w' (manifest_path dir) = Some (manifest_text md)"
  using WriteFileAtomic_files [OF assms [unfolded SaveManifest_def]] by auto

subsection \<open>A builder touches only its own file\<close>

lemma TableBuilder_new_frame:
  "TableBuilder_new path opts w = (b, w') \<Longrightarrow> same_files path w w' \<and> bd_path b = path"
  by (auto simp: TableBuilder_new_def Let_def same_files_def split: prod.splits option.splits elim!: sys_callD)

lemma WriteRaw_frame:
  "WriteRaw data b w = (s, b', w') \<Longrightarrow> same_files (bd_path b) w w' \<and> bd_path b' = bd_path b"
  by (auto simp: WriteRaw_def same_files_def split: prod.splits option.splits dest!: write_loop_files)

lemma FlushBlock_frame:
  "FlushBlock b w = (s, b', w') \<Longrightarrow> same_files (bd_path b) w w' \<and> bd_path b' = bd_path b"
  by (auto simp: FlushBlock_def split: if_splits prod.splits dest!: WriteRaw_frame)

lemma builder_Add_frame:
  "builder_Add e b w = (s, b', w') \<Longrightarrow> same_files (bd_path b) w w' \<and> bd_path b' = bd_path b"
proof -
  assume a: "builder_Add e b w = (s, b', w')"
  have p: "bd_path (note_entry e b) = bd_path b" by (simp add: note_entry_def)
  from a show ?thesis
    using FlushBlock_frame [of "note_entry e b" w] p
    by (auto simp: builder_Add_def Let_def split: if_splits prod.splits)
qed

lemma write_part_frame:
  "write_part data b w = (s, b', w') \<Longrightarrow> same_files (bd_path b) w w' \<and> bd_path b' = bd_path b"
  by (auto simp: write_part_def split: if_splits prod.splits dest!: WriteRaw_frame)

lemma Abandon_frame: "same_files (bd_path b) w (Abandon b w)"
proof -
  obtain r w' where s: "sys_call (drop_file (bd_path b)) w = (r, w')" by fastforce
  then show ?thesis by (auto simp: Abandon_def same_files_def elim!: sys_callD)
qed

lemma Finish_frame:
  assumes "Finish b w = (r, b', w')"
  shows "same_files (bd_path b) w w'"
proof (cases "is_ok (bd_status b)")
  case True
  obtain s1 b1 w1 where 1: "FlushBlock b w = (s1, b1, w1)" by (metis prod_cases3)
  let ?b1 = "b1\<lparr>bd_status := s1\<rparr>"
  obtain s2 b2 w2 where 2: "write_part (bd_index ?b1) ?b1 w1 = (s2, b2, w2)" by (metis prod_cases3)
  define bloom where "bloom = BuildBloom (bd_keys b2) (to_bloom_bits_per_key (bd_opts b2))"
  obtain s3 b3 w3 where 3: "write_part bloom b2 w2 = (s3, b3, w3)" by (metis prod_cases3)
  obtain s4 b4 w4 where 4: "write_part (table_footer (bd_offset ?b1) (length (bd_index ?b1)) (bd_offset b2)
      (length bloom) (bd_entries b3)) b3 w3 = (s4, b4, w4)" by (metis prod_cases3)
  obtain r5 w5 where 5: "sys_call id w4 = (r5, w5)" by fastforce
  have "w_files w5 = w_files w4" using 5 by (auto elim!: sys_callD)
  moreover have "w' = w4 \<or> w' = w5"
    using assms True 1 2 3 4 5 by (auto simp: Finish_def Let_def bloom_def split: if_splits option.splits)
  ultimately have "w_files w' = w_files w4" by auto
  moreover have "same_files (bd_path b) w w4"
    using FlushBlock_frame [OF 1] write_part_frame [OF 2] write_part_frame [OF 3] write_part_frame [OF 4]
    by (simp add: same_files_def)
  ultimately show ?thesis by (simp add: same_files_def)
qed (use assms in \<open>simp add: Finish_def\<close>)

lemma Table_Open_frame: "Table_Open path w = (r, w') \<Longrightarrow> w_files w' = w_files w"
  by (auto simp: Table_Open_def split: prod.splits io.splits option.splits dest: next_ioD(1))

subsection \<open>Table files\<close>

definition sst_data :: "bytes \<Rightarrow> Entry list \<Rightarrow> bool" where
  "sst_data data es \<longleftrightarrow> (\<exists>bs keys bits. data = table_file bs keys bits \<and> concat bs = es \<and> (\<forall>b\<in>set bs. b \<noteq> []) \<and>
     (\<forall>e\<in>set es. en_key e \<in> set keys) \<and> length data < 2 ^ 29 \<and> sorted_entries es)"

lemma sst_data_open:
  assumes "sst_data data es" and "w_files w path = Some data"
  shows "Table_Open path w = (Inr t, w') \<Longrightarrow> table_holds t es"
    and "Table_Open path w = (Inl s, w') \<Longrightarrow> \<not> is_ok s"
    and "w_io w = [] \<Longrightarrow> \<exists>t. Table_Open path w = (Inr t, w) \<and> table_holds t es"
proof -
  obtain bs keys bits where d: "data = table_file bs keys bits" "concat bs = es" "\<forall>b\<in>set bs. b \<noteq> []"
      "\<forall>e\<in>set es. en_key e \<in> set keys" "length data < 2 ^ 29" "sorted_entries es"
    using assms(1) by (auto simp: sst_data_def)
  have "healthy (view_of data) data" using d(5) by (intro healthy_view_of) simp
  then obtain t where t: "open_view path (view_of data) (length data) = Inr t" "table_holds t es"
    using open_table_file [of "view_of data" bs keys bits path] d by auto
  show "Table_Open path w = (Inr t', w') \<Longrightarrow> table_holds t' es" for t'
    using t assms(2)
    by (auto simp: Table_Open_def split: prod.splits io.splits option.splits dest!: next_ioD(1))
  show "Table_Open path w = (Inl s, w') \<Longrightarrow> \<not> is_ok s"
    using t assms(2)
    by (auto simp: Table_Open_def Errno_def split: prod.splits io.splits option.splits dest!: next_ioD(1))
  show "w_io w = [] \<Longrightarrow> \<exists>t. Table_Open path w = (Inr t, w) \<and> table_holds t es"
    using t assms(2) by (auto simp: Table_Open_def next_io_def)
qed

text \<open>A handle whose table holds \<open>es\<close>, with the range of \<open>es\<close> in its meta data.\<close>

definition handle_ok :: "TableHandle \<Rightarrow> Entry list \<Rightarrow> bool" where
  "handle_ok h es \<longleftrightarrow> table_holds (th_table h) es \<and> es \<noteq> [] \<and>
     tm_smallest (th_meta h) = en_key (hd es) \<and> tm_largest (th_meta h) = en_key (last es)"

text \<open>The meta data fits the manifest, and the file on disk holds the same entries.\<close>

definition disk_ok :: "bytes \<Rightarrow> world \<Rightarrow> TableHandle \<Rightarrow> Entry list \<Rightarrow> bool" where
  "disk_ok dir w h es \<longleftrightarrow> tm_entries (th_meta h) < 2 ^ 64 \<and> tm_file_bytes (th_meta h) < 2 ^ 64 \<and>
     (\<exists>data. w_files w (SstPath dir (tm_number (th_meta h))) = Some data \<and> sst_data data es)"

abbreviation number_of :: "TableHandle \<Rightarrow> nat" where
  "number_of h \<equiv> tm_number (th_meta h)"

subsection \<open>Survivors\<close>

fun survivors :: "(Entry \<Rightarrow> bool) \<Rightarrow> bytes option \<Rightarrow> Entry list \<Rightarrow> Entry list" where
  "survivors gone prev [] = []"
| "survivors gone prev (e # es) =
     (if prev = Some (en_key e) then survivors gone prev es
      else (if gone e then [] else [e]) @ survivors gone (Some (en_key e)) es)"

lemma subseq_survivors: "subseq (survivors gone prev es) es"
  by (induction gone prev es rule: survivors.induct) auto

definition droppable :: "nat \<Rightarrow> Version \<Rightarrow> Entry \<Rightarrow> bool" where
  "droppable output_level base e \<longleftrightarrow>
     en_op e = kDelete \<and> output_level > 0 \<and> \<not> KeyMayExistBelow base output_level (en_key e)"

subsection \<open>The loop\<close>

text \<open>Only files with the numbers of new tables differ.\<close>

definition frame :: "bytes \<Rightarrow> nat \<Rightarrow> world \<Rightarrow> world \<Rightarrow> bool" where
  "frame dir n w w' \<longleftrightarrow> (\<forall>p. (\<forall>m\<ge>n. p \<noteq> SstPath dir m) \<longrightarrow> w_files w' p = w_files w p)"

lemma frame_refl [simp]: "frame dir n w w"
  by (simp add: frame_def)

lemma frame_trans: "frame dir n a b \<Longrightarrow> frame dir n b c \<Longrightarrow> frame dir n a c"
  by (simp add: frame_def)

lemma same_files_frame: "same_files (SstPath dir m) w w' \<Longrightarrow> n \<le> m \<Longrightarrow> frame dir n w w'"
  by (auto simp: frame_def same_files_def)

lemma frame_other:
  "frame dir n w w' \<Longrightarrow> w_files w' (WalPath dir m) = w_files w (WalPath dir m)"
  "frame dir n w w' \<Longrightarrow> w_files w' (manifest_path dir) = w_files w (manifest_path dir)"
  "frame dir n w w' \<Longrightarrow> m < n \<Longrightarrow> w_files w' (SstPath dir m) = w_files w (SstPath dir m)"
  by (auto simp: frame_def)

lemma disk_ok_files: "w_files w' (SstPath dir (number_of h)) = w_files w (SstPath dir (number_of h)) \<Longrightarrow>
    disk_ok dir w' h es \<longleftrightarrow> disk_ok dir w h es"
  by (simp add: disk_ok_def)

definition output_ok :: "bytes \<Rightarrow> nat \<Rightarrow> world \<Rightarrow> TableHandle \<Rightarrow> Entry list \<Rightarrow> bool" where
  "output_ok dir level w h es \<longleftrightarrow> handle_ok h es \<and> disk_ok dir w h es \<and> tm_level (th_meta h) = int level"

definition numbered :: "nat \<Rightarrow> nat \<Rightarrow> TableHandle list \<Rightarrow> bool" where
  "numbered lo hi hs \<longleftrightarrow> sorted_wrt (<) (map number_of hs) \<and> (\<forall>h\<in>set hs. lo \<le> number_of h \<and> number_of h < hi)"

text \<open>
  The state of the loop: finished outputs that hold \<open>oss\<close>, and the entries \<open>cs\<close> in the open builder.
\<close>

definition build_inv ::
  "Options \<Rightarrow> bytes \<Rightarrow> nat \<Rightarrow> nat \<Rightarrow> nat \<Rightarrow> build_state \<Rightarrow> Entry list list \<Rightarrow> Entry list \<Rightarrow> bool" where
  "build_inv opts dir level max_bytes n st oss cs \<longleftrightarrow>
     bs_status st = OK \<and> list_all2 (output_ok dir level (bs_world st)) (bs_outputs st) oss \<and> n \<le> bs_next_file st \<and>
     (case bs_builder st of
        None \<Rightarrow> cs = [] \<and> numbered n (bs_next_file st) (bs_outputs st)
      | Some b \<Rightarrow> cs \<noteq> [] \<and> numbered n (bs_number st) (bs_outputs st) \<and> n \<le> bs_number st \<and>
          bs_number st < bs_next_file st \<and> bd_path b = SstPath dir (bs_number st) \<and>
          bd_opts b = table_options opts \<and> BytesWritten b < max_bytes \<and>
          (\<exists>bs cur. builder_inv b (bs_world st) bs cur \<and> concat bs @ cur = cs))"

lemma build_inv_last [simp]:
  "build_inv opts dir level max_bytes n (st\<lparr>bs_last_key := k\<rparr>) oss cs \<longleftrightarrow> build_inv opts dir level max_bytes n st oss cs"
  by (auto simp: build_inv_def split: option.splits)

lemma blocks_concat: "blocks_bytes bs = block_bytes (concat bs)"
  by (induction bs) simp_all

lemma BytesWritten_inv: "builder_inv b w bs cur \<Longrightarrow> BytesWritten b = length (block_bytes (concat bs @ cur))"
  by (simp add: BytesWritten_def builder_inv_def blocks_concat)

lemma output_ok_mono:
  assumes "list_all2 (output_ok dir level w) hs oss" and "numbered n m hs"
    and "same_files (SstPath dir k) w w'" and "m \<le> k"
  shows "list_all2 (output_ok dir level w') hs oss"
  using assms(1)
proof (rule list.rel_mono_strong)
  fix h es
  assume "h \<in> set hs" and o: "output_ok dir level w h es"
  then have "number_of h \<noteq> k" using assms(2,4) by (auto simp: numbered_def)
  then have "w_files w' (SstPath dir (number_of h)) = w_files w (SstPath dir (number_of h))"
    using assms(3) by (simp add: same_files_def)
  then show "output_ok dir level w' h es" using o by (simp add: output_ok_def disk_ok_def)
qed

lemma length_le_block: "length es \<le> length (block_bytes es)"
proof (induction es)
  case (Cons e es)
  have "0 < length (AppendEntry e)" by simp
  with Cons show ?case unfolding block_bytes_simps length_append list.size by linarith
qed simp

lemma finish_current_step:
  assumes st: "bs_builder st = Some b" "bs_status st = OK" "bd_path b = SstPath dir (bs_number st)"
    and inv: "builder_inv b (bs_world st) bs cur" "concat bs @ cur = cs" "cs \<noteq> []"
    and small: "table_small (bd_opts b) cs" "sorted_entries cs"
    and st': "st' = finish_current dir level st"
  shows "bs_next_file st' = bs_next_file st \<and> bs_last_key st' = bs_last_key st \<and> bs_builder st' = None \<and>
      same_files (SstPath dir (bs_number st)) (bs_world st) (bs_world st') \<and>
      (is_ok (bs_status st') \<longrightarrow> bs_status st' = OK \<and>
        (\<exists>h. bs_outputs st' = bs_outputs st @ [h] \<and> number_of h = bs_number st \<and> output_ok dir level (bs_world st') h cs)) \<and>
      (w_io (bs_world st) = [] \<longrightarrow> is_ok (bs_status st') \<and> w_io (bs_world st') = [])"
proof -
  have ne: "bd_entries b \<noteq> 0" using inv by (simp add: builder_inv_def)
  obtain r b1 w1 where f: "Finish b (bs_world st) = (r, b1, w1)" by (metis prod_cases3)
  note fr = Finish_frame [OF f, unfolded st(3)]
  show ?thesis
  proof (cases r)
    case (Inl s)
    have "\<not> is_ok s" if "w_io (bs_world st) \<noteq> []"
      using f Inl by (auto simp: Finish_def Let_def Errno_def split: if_splits prod.splits option.splits)
    moreover have "w_io (bs_world st) \<noteq> []" using Finish_no_fault [OF _ inv(1)] f Inl by auto
    ultimately show ?thesis using st ne f Inl fr by (simp add: st' finish_current_def)
  next
    case (Inr meta)
    note Inr' = this
    obtain bs' where F: "concat bs' = cs" "\<forall>c\<in>set bs'. c \<noteq> []"
      "w_files w1 (bd_path b) = Some (table_file bs' (bd_keys b) (to_bloom_bits_per_key (bd_opts b)))"
      "tm_file_bytes meta = length (table_file bs' (bd_keys b) (to_bloom_bits_per_key (bd_opts b)))"
      "tm_entries meta = length cs" "tm_smallest meta = en_key (hd cs)" "tm_largest meta = en_key (last cs)"
      using Finish_ok [OF f [unfolded Inr] inv(1)] inv(2,3) by auto
    define data where "data = table_file bs' (bd_keys b) (to_bloom_bits_per_key (bd_opts b))"
    have keys: "length (bd_keys b) \<le> length cs" "\<forall>e\<in>set cs. en_key e \<in> set (bd_keys b)"
      using inv by (auto simp: builder_inv_def)
    have len: "length data < 2 ^ 29"
      using table_file_size [OF F(2), of "bd_keys b" "to_bloom_bits_per_key (bd_opts b)"] keys(1) F(1) small(1)
      by (simp add: table_small_def data_def)
    have sst: "sst_data data cs"
      unfolding sst_data_def using F(1,2) keys(2) len small(2) data_def by blast
    have ents: "length cs < 2 ^ 29" using small(1) length_le_block [of cs] by (simp add: table_small_def)
    obtain ro w2 where o: "Table_Open (SstPath dir (bs_number st)) w1 = (ro, w2)" by fastforce
    have fd: "w_files w1 (SstPath dir (bs_number st)) = Some data" using F(3) st(3) by (simp add: data_def)
    have w2: "w_files w2 = w_files w1" by (rule Table_Open_frame [OF o])
    show ?thesis
    proof (cases ro)
      case (Inl s)
      have bad: "\<not> is_ok s" by (rule sst_data_open(2) [OF sst fd o [unfolded Inl]])
      have "w_io (bs_world st) \<noteq> []"
      proof
        assume "w_io (bs_world st) = []"
        then have "w_io w1 = []" using Finish_no_fault [OF _ inv(1)] f by auto
        then show False using sst_data_open(3) [OF sst fd] o Inl by auto
      qed
      then show ?thesis using st ne f Inr' o Inl fr bad w2 by (simp add: st' finish_current_def Let_def same_files_def)
    next
      case (Inr t)
      have t: "table_holds t cs" by (rule sst_data_open(1) [OF sst fd o [unfolded Inr]])
      have io: "w_io w2 = []" if "w_io (bs_world st) = []"
      proof -
        have "w_io w1 = []" using Finish_no_fault [OF that inv(1)] f by auto
        then show ?thesis using sst_data_open(3) [OF sst fd] o by auto
      qed
      define h where "h = \<lparr>th_meta = meta\<lparr>tm_number := bs_number st, tm_level := int level\<rparr>, th_table = t\<rparr>"
      have "output_ok dir level w2 h cs"
        using t inv(3) F(4-7) fd sst ents len
        by (auto simp: output_ok_def handle_ok_def disk_ok_def h_def w2 data_def [symmetric])
      moreover have "st' = st\<lparr>bs_builder := None, bs_world := w2, bs_outputs := bs_outputs st @ [h]\<rparr>"
        using st ne f Inr' o Inr by (simp add: st' finish_current_def Let_def h_def)
      ultimately show ?thesis using st(2) fr io w2 by (simp add: h_def same_files_def)
    qed
  qed
qed

lemma ensure_builder_step:
  assumes inv: "build_inv opts dir level max_bytes n st oss cs" and e: "ensure_builder opts dir st = (st1, b)"
  shows "bs_status st1 = OK" "bs_outputs st1 = bs_outputs st" "bs_last_key st1 = bs_last_key st"
    "bs_next_file st \<le> bs_next_file st1" "numbered n (bs_number st1) (bs_outputs st)"
    "n \<le> bs_number st1" "bs_number st1 < bs_next_file st1" "bd_path b = SstPath dir (bs_number st1)"
    "frame dir n (bs_world st) (bs_world st1)"
    "list_all2 (output_ok dir level (bs_world st1)) (bs_outputs st) oss"
    "is_ok (bd_status b) \<Longrightarrow> bd_opts b = table_options opts \<and>
       (\<exists>bs cur. builder_inv b (bs_world st1) bs cur \<and> concat bs @ cur = cs)"
    "w_io (bs_world st) = [] \<Longrightarrow> is_ok (bd_status b) \<and> w_io (bs_world st1) = []"
proof -
  have "bs_status st1 = OK \<and> bs_outputs st1 = bs_outputs st \<and> bs_last_key st1 = bs_last_key st \<and>
    bs_next_file st \<le> bs_next_file st1 \<and> numbered n (bs_number st1) (bs_outputs st) \<and>
    n \<le> bs_number st1 \<and> bs_number st1 < bs_next_file st1 \<and> bd_path b = SstPath dir (bs_number st1) \<and>
    frame dir n (bs_world st) (bs_world st1) \<and>
    list_all2 (output_ok dir level (bs_world st1)) (bs_outputs st) oss \<and>
    (is_ok (bd_status b) \<longrightarrow> bd_opts b = table_options opts \<and>
       (\<exists>bs cur. builder_inv b (bs_world st1) bs cur \<and> concat bs @ cur = cs)) \<and>
    (w_io (bs_world st) = [] \<longrightarrow> is_ok (bd_status b) \<and> w_io (bs_world st1) = [])"
  proof (cases "bs_builder st")
    case (Some b')
    then have eq: "st1 = st" "b = b'" using e by (simp_all add: ensure_builder_def)
    have "bd_status b' = OK" using inv Some by (auto simp: build_inv_def builder_inv_def)
    then show ?thesis using inv Some unfolding eq build_inv_def by auto
  next
    case None
    obtain w1 where nw: "TableBuilder_new (SstPath dir (bs_next_file st)) (table_options opts) (bs_world st) = (b, w1)"
      and st1: "st1 = st\<lparr>bs_number := bs_next_file st, bs_next_file := bs_next_file st + 1, bs_world := w1\<rparr>"
      using e None by (auto simp: ensure_builder_def Let_def split: prod.splits)
    note fr = TableBuilder_new_frame [OF nw]
    have i: "bs_status st = OK" "n \<le> bs_next_file st" "cs = []" "numbered n (bs_next_file st) (bs_outputs st)"
      "list_all2 (output_ok dir level (bs_world st)) (bs_outputs st) oss"
      using inv None by (auto simp: build_inv_def)
    have "w_io w1 = [] \<and> is_ok (bd_status b)" if "w_io (bs_world st) = []"
      using nw sys_call_no_fault [OF that, of "set_file (SstPath dir (bs_next_file st)) []"] that
      by (auto simp: TableBuilder_new_def Let_def)
    moreover have "list_all2 (output_ok dir level w1) (bs_outputs st) oss"
      by (rule output_ok_mono [OF i(5) i(4)]) (use fr in auto)
    moreover have "frame dir n (bs_world st) w1" using same_files_frame fr i(2) by blast
    moreover have "bd_opts b = table_options opts \<and> builder_inv b w1 [] []" if "is_ok (bd_status b)"
      using builder_new_ok [OF nw that] by blast
    ultimately show ?thesis using i fr unfolding st1 by fastforce
  qed
  then show "bs_status st1 = OK" "bs_outputs st1 = bs_outputs st" "bs_last_key st1 = bs_last_key st"
    "bs_next_file st \<le> bs_next_file st1" "numbered n (bs_number st1) (bs_outputs st)"
    "n \<le> bs_number st1" "bs_number st1 < bs_next_file st1" "bd_path b = SstPath dir (bs_number st1)"
    "frame dir n (bs_world st) (bs_world st1)"
    "list_all2 (output_ok dir level (bs_world st1)) (bs_outputs st) oss"
    "is_ok (bd_status b) \<Longrightarrow> bd_opts b = table_options opts \<and>
       (\<exists>bs cur. builder_inv b (bs_world st1) bs cur \<and> concat bs @ cur = cs)"
    "w_io (bs_world st) = [] \<Longrightarrow> is_ok (bd_status b) \<and> w_io (bs_world st1) = []"
    by blast+
qed

lemma numbered_snoc: "numbered n m hs \<Longrightarrow> number_of h = m \<Longrightarrow> n \<le> m \<Longrightarrow> m < k \<Longrightarrow> numbered n k (hs @ [h])"
  by (auto simp: numbered_def sorted_wrt_append)

text \<open>The step for an entry that survives.\<close>

definition step_ok :: "Options \<Rightarrow> bytes \<Rightarrow> nat \<Rightarrow> nat \<Rightarrow> nat \<Rightarrow> build_state \<Rightarrow> build_state \<Rightarrow> Entry list \<Rightarrow> bool" where
  "step_ok opts dir level max_bytes n st st' all \<longleftrightarrow>
     n \<le> bs_next_file st' \<and> frame dir n (bs_world st) (bs_world st') \<and>
     (is_ok (bs_status st') \<longrightarrow>
        (\<exists>oss cs. build_inv opts dir level max_bytes n st' oss cs \<and> concat oss @ cs = all)) \<and>
     (w_io (bs_world st) = [] \<longrightarrow> is_ok (bs_status st') \<and> w_io (bs_world st') = [])"

lemma finish_step:
  assumes st: "bs_builder st = Some b" "bs_status st = OK" "bd_path b = SstPath dir (bs_number st)"
      "bd_opts b = table_options opts"
    and nums: "numbered n (bs_number st) (bs_outputs st)" "n \<le> bs_number st" "bs_number st < bs_next_file st"
    and outs: "list_all2 (output_ok dir level (bs_world st)) (bs_outputs st) oss"
    and inv: "builder_inv b (bs_world st) bs cur" "concat bs @ cur = cs" "cs \<noteq> []"
    and small: "table_small (table_options opts) cs" "sorted_entries cs"
  shows "step_ok opts dir level max_bytes n st (finish_current dir level st) (concat oss @ cs) \<and>
    bs_builder (finish_current dir level st) = None \<and> bs_last_key (finish_current dir level st) = bs_last_key st"
proof -
  define st' where "st' = finish_current dir level st"
  note F = finish_current_step [OF st(1-3) inv _ small(2) st'_def, unfolded st(4), OF small(1)]
  have mono: "list_all2 (output_ok dir level (bs_world st')) (bs_outputs st) oss"
    by (rule output_ok_mono [OF outs nums(1)]) (use F in auto)
  have "\<exists>oss' cs'. build_inv opts dir level max_bytes n st' oss' cs' \<and> concat oss' @ cs' = concat oss @ cs"
    if ok: "is_ok (bs_status st')"
  proof -
    obtain h where h: "bs_outputs st' = bs_outputs st @ [h]" "number_of h = bs_number st"
        "output_ok dir level (bs_world st') h cs" "bs_status st' = OK"
      using F ok by blast
    have "numbered n (bs_next_file st') (bs_outputs st')"
      using numbered_snoc [OF nums(1) h(2) nums(2,3)] F h(1) by simp
    moreover have "list_all2 (output_ok dir level (bs_world st')) (bs_outputs st') (oss @ [cs])"
      using mono h by (simp add: list_all2_appendI)
    ultimately have "build_inv opts dir level max_bytes n st' (oss @ [cs]) []"
      using F h(4) nums by (simp add: build_inv_def)
    then show ?thesis by (intro exI [of _ "oss @ [cs]"] exI [of _ "[]"]) simp
  qed
  moreover have "frame dir n (bs_world st) (bs_world st')" using F same_files_frame nums(2) by blast
  ultimately show ?thesis using F nums unfolding step_ok_def st'_def [symmetric] by auto
qed

lemma build_body_add:
  assumes inv: "build_inv opts dir level max_bytes n st oss cs"
    and new: "bs_last_key st \<noteq> Some (en_key e)" "\<not> droppable level base e"
    and small: "table_small (table_options opts) (cs @ [e])" "sorted_entries (cs @ [e])"
    and body: "build_body opts dir level base max_bytes e st = (st', go)"
  shows "step_ok opts dir level max_bytes n st st' (concat oss @ cs @ [e]) \<and> go = is_ok (bs_status st') \<and>
    bs_last_key st' = Some (en_key e)"
proof -
  define s0 where "s0 = st\<lparr>bs_last_key := Some (en_key e)\<rparr>"
  have inv0: "build_inv opts dir level max_bytes n s0 oss cs" using inv by (simp add: s0_def)
  obtain st1 b where en: "ensure_builder opts dir s0 = (st1, b)" by fastforce
  obtain s b1 w1 where ad: "builder_Add e b (bs_world st1) = (s, b1, w1)" by (metis prod_cases3)
  note E = ensure_builder_step [OF inv0 en]
  note fa = builder_Add_frame [OF ad]
  define s2 where "s2 = st1\<lparr>bs_builder := Some b1, bs_world := w1\<rparr>"
  have body': "(st', go) = (if \<not> is_ok s then (st1\<lparr>bs_builder := None, bs_world := Abandon b1 w1, bs_status := s\<rparr>, False)
      else if BytesWritten b1 \<ge> max_bytes then (finish_current dir level s2, is_ok (bs_status (finish_current dir level s2)))
      else (s2, True))"
    using body new en ad unfolding build_body_def droppable_def s0_def [symmetric] Let_def s2_def by simp
  have nf: "n \<le> bs_next_file st1" using E(6,7) by simp
  have fr1: "frame dir n (bs_world st) w1"
    using frame_trans [OF E(9) same_files_frame [OF _ E(6), where w' = w1]] fa E(8) by (simp add: s0_def)
  show ?thesis
  proof (cases "is_ok s")
    case False
    have "same_files (SstPath dir (bs_number st1)) w1 (Abandon b1 w1)" using Abandon_frame [of b1 w1] fa E(8) by simp
    then have fr: "frame dir n (bs_world st) (Abandon b1 w1)" using frame_trans [OF fr1 same_files_frame [OF _ E(6)]] by blast
    have "w_io (bs_world st) \<noteq> []"
    proof
      assume "w_io (bs_world st) = []"
      then have io: "is_ok (bd_status b)" "w_io (bs_world st1) = []" using E(12) by (simp_all add: s0_def)
      then obtain bs cur where "builder_inv b (bs_world st1) bs cur" using E(11) by blast
      from builder_Add_no_fault [OF io(2) this, of e] show False using ad False by auto
    qed
    then show ?thesis using body' False nf fr E(3) by (simp add: step_ok_def s0_def)
  next
    case True
    have "is_ok (bd_status b)" using ad True by (auto simp: builder_Add_def split: if_splits)
    then obtain bs cur where b: "bd_opts b = table_options opts" "builder_inv b (bs_world st1) bs cur" "concat bs @ cur = cs"
      using E(11) by blast
    obtain bs' cur' where b1: "builder_inv b1 w1 bs' cur'" "concat bs' @ cur' = cs @ [e]" "bd_path b1 = bd_path b" "bd_opts b1 = bd_opts b"
      using builder_Add_ok [OF ad True b(2)] b(3) by auto
    have outs: "list_all2 (output_ok dir level (bs_world s2)) (bs_outputs s2) oss"
      using output_ok_mono [OF E(10) E(5), where k = "bs_number st1" and w' = w1] fa E(2,8) by (simp add: s2_def)
    have io: "w_io w1 = []" if "w_io (bs_world st) = []"
      using builder_Add_no_fault [OF _ b(2), of e] ad E(12) that by (auto simp: s0_def)
    have s2: "bs_builder s2 = Some b1" "bs_status s2 = OK" "bd_path b1 = SstPath dir (bs_number s2)" "bd_opts b1 = table_options opts"
      "numbered n (bs_number s2) (bs_outputs s2)" "n \<le> bs_number s2" "bs_number s2 < bs_next_file s2" "bs_world s2 = w1"
      "bs_last_key s2 = Some (en_key e)"
      using E b b1 by (simp_all add: s2_def s0_def)
    show ?thesis
    proof (cases "BytesWritten b1 \<ge> max_bytes")
      case True
      then have go: "st' = finish_current dir level s2" "go = is_ok (bs_status st')" using body' \<open>is_ok s\<close> by simp_all
      have "step_ok opts dir level max_bytes n s2 st' (concat oss @ cs @ [e]) \<and> bs_last_key st' = Some (en_key e)"
        using finish_step [OF s2(1-4) s2(5-7) outs _ b1(2) _ small, of max_bytes] b1(1) s2(8,9) go(1) by simp
      then show ?thesis using go(2) fr1 io s2(8) frame_trans unfolding step_ok_def by blast
    next
      case False
      then have go: "st' = s2" "go" using body' \<open>is_ok s\<close> by simp_all
      have "build_inv opts dir level max_bytes n s2 oss (cs @ [e])"
        using s2 outs b1(1,2) False nf unfolding build_inv_def by (auto simp: s2_def)
      then have "step_ok opts dir level max_bytes n st s2 (concat oss @ cs @ [e])"
        using fr1 io s2(2,8) nf unfolding step_ok_def by (auto simp: s2_def)
      then show ?thesis using go s2(2,9) by simp
    qed
  qed
qed

text \<open>
  Sorted entries, of which every part that a builder may hold when it is finished fits a table:
  without its last entry it is below the limit of the file size.
\<close>

definition pieces_ok :: "Options \<Rightarrow> nat \<Rightarrow> Entry list \<Rightarrow> bool" where
  "pieces_ok opts max_bytes es \<longleftrightarrow> sorted_entries es \<and>
     (\<forall>ys. sublist ys es \<and> (butlast ys = [] \<or> length (block_bytes (butlast ys)) < max_bytes) \<longrightarrow>
        table_small (table_options opts) ys)"

lemma pieces_okD:
  assumes "pieces_ok opts max_bytes (xs @ ys @ zs)"
    and "butlast ys = [] \<or> length (block_bytes (butlast ys)) < max_bytes"
  shows "table_small (table_options opts) ys" "sorted_entries ys"
  using assms unfolding pieces_ok_def by (blast intro: sublist_appendI, simp add: sorted_append)

lemma build_inv_bytes:
  "build_inv opts dir level max_bytes n st oss cs \<Longrightarrow> cs = [] \<or> length (block_bytes cs) < max_bytes"
  by (auto simp: build_inv_def BytesWritten_inv split: option.splits)

lemma step_ok_trans:
  assumes "step_ok opts dir level max_bytes n a b x" and "is_ok (bs_status b)" and "step_ok opts dir level max_bytes n b c y"
  shows "step_ok opts dir level max_bytes n a c y"
  using assms frame_trans unfolding step_ok_def by blast

lemma build_loop:
  assumes "build_inv opts dir level max_bytes n st oss cs"
    and "pieces_ok opts max_bytes (concat oss @ cs @ survivors (droppable level base) (bs_last_key st) es)"
  shows "step_ok opts dir level max_bytes n st (fst (list_loop (build_body opts dir level base max_bytes) es st))
      (concat oss @ cs @ survivors (droppable level base) (bs_last_key st) es)"
  using assms
proof (induction es arbitrary: st oss cs)
  case Nil
  then show ?case by (auto simp: step_ok_def build_inv_def)
next
  case (Cons e es)
  let ?body = "build_body opts dir level base max_bytes"
  have ok: "bs_status st = OK" using Cons.prems by (simp add: build_inv_def)
  consider "bs_last_key st = Some (en_key e)" | "bs_last_key st \<noteq> Some (en_key e)" "droppable level base e"
    | "bs_last_key st \<noteq> Some (en_key e)" "\<not> droppable level base e" by blast
  then show ?case
  proof cases
    case 1
    then have "?body e st = (st, True)" by (simp add: build_body_def)
    then show ?thesis using Cons.IH [OF Cons.prems(1)] Cons.prems(2) 1 by simp
  next
    case 2
    define s0 where "s0 = st\<lparr>bs_last_key := Some (en_key e)\<rparr>"
    have b: "?body e st = (s0, True)" using 2 by (simp add: build_body_def droppable_def s0_def)
    have i: "build_inv opts dir level max_bytes n s0 oss cs" using Cons.prems(1) by (simp add: s0_def)
    have "step_ok opts dir level max_bytes n s0 (fst (list_loop ?body es s0))
        (concat oss @ cs @ survivors (droppable level base) (Some (en_key e)) es)"
      using Cons.IH [OF i] Cons.prems(2) 2 by (simp add: s0_def)
    then show ?thesis using 2 b by (simp add: step_ok_def s0_def)
  next
    case 3
    let ?rest = "survivors (droppable level base) (Some (en_key e)) es"
    obtain st1 go where b: "?body e st = (st1, go)" by fastforce
    have all: "pieces_ok opts max_bytes (concat oss @ (cs @ [e]) @ ?rest)" using Cons.prems(2) 3 by simp
    have piece: "table_small (table_options opts) (cs @ [e])" "sorted_entries (cs @ [e])"
      using pieces_okD [OF all] build_inv_bytes [OF Cons.prems(1)] by simp_all
    note S = build_body_add [OF Cons.prems(1) 3 piece b]
    show ?thesis
    proof (cases go)
      case True
      then have ok1: "is_ok (bs_status st1)" using S by simp
      then obtain oss1 cs1 where i: "build_inv opts dir level max_bytes n st1 oss1 cs1" "concat oss1 @ cs1 = concat oss @ cs @ [e]"
        using S by (auto simp: step_ok_def)
      then have l: "concat oss1 @ cs1 @ ?rest = concat oss @ (cs @ [e]) @ ?rest" by (metis append_assoc)
      have k: "bs_last_key st1 = Some (en_key e)" using S by simp
      have "step_ok opts dir level max_bytes n st1 (fst (list_loop ?body es st1)) (concat oss @ (cs @ [e]) @ ?rest)"
        using Cons.IH [OF i(1), unfolded k l, OF all] .
      then have "step_ok opts dir level max_bytes n st (fst (list_loop ?body es st1)) (concat oss @ (cs @ [e]) @ ?rest)"
        using step_ok_trans [OF _ ok1] S by blast
      then show ?thesis using b True 3 by simp
    next
      case False
      then have "fst (list_loop ?body (e # es) st) = st1" "\<not> is_ok (bs_status st1)" using b S by simp_all
      then show ?thesis using S by (simp add: step_ok_def)
    qed
  qed
qed

subsection \<open>The whole call\<close>

definition build_result :: "bytes \<Rightarrow> nat \<Rightarrow> nat \<Rightarrow> world \<Rightarrow> build_state \<Rightarrow> Entry list \<Rightarrow> bool" where
  "build_result dir level n w st all \<longleftrightarrow>
     n \<le> bs_next_file st \<and> frame dir n w (bs_world st) \<and>
     (is_ok (bs_status st) \<longrightarrow> (\<exists>oss. list_all2 (output_ok dir level (bs_world st)) (bs_outputs st) oss \<and>
        numbered n (bs_next_file st) (bs_outputs st) \<and> concat oss = all)) \<and>
     (w_io w = [] \<longrightarrow> is_ok (bs_status st) \<and> w_io (bs_world st) = [])"

lemma finish_rest:
  assumes "build_inv opts dir level max_bytes n st oss cs" and "pieces_ok opts max_bytes (concat oss @ cs)"
  shows "build_result dir level n (bs_world st) (finish_current dir level st) (concat oss @ cs)"
proof (cases "bs_builder st")
  case None
  then have "finish_current dir level st = st" by (simp add: finish_current_def)
  then show ?thesis using assms(1) None by (auto simp: build_result_def build_inv_def)
next
  case (Some b)
  then obtain bs cur where b: "bs_status st = OK" "bd_path b = SstPath dir (bs_number st)" "bd_opts b = table_options opts"
      "numbered n (bs_number st) (bs_outputs st)" "n \<le> bs_number st" "bs_number st < bs_next_file st"
      "list_all2 (output_ok dir level (bs_world st)) (bs_outputs st) oss"
      "builder_inv b (bs_world st) bs cur" "concat bs @ cur = cs" "cs \<noteq> []"
    using assms(1) by (auto simp: build_inv_def)
  have "length (block_bytes (butlast cs)) \<le> length (block_bytes cs)"
    using b(10) by (metis append_butlast_last_id block_bytes_simps(3) length_append le_add1)
  then have s: "table_small (table_options opts) cs" "sorted_entries cs"
    using pieces_okD [of opts max_bytes "concat oss" cs "[]"] assms(2) build_inv_bytes [OF assms(1)] b(10) by auto
  have F: "step_ok opts dir level max_bytes n st (finish_current dir level st) (concat oss @ cs)"
    "bs_builder (finish_current dir level st) = None"
    using finish_step [OF Some b(1-10) s, of max_bytes] by auto
  then show ?thesis by (auto simp: step_ok_def build_result_def build_inv_def)
qed

context internal_iterator
begin

lemma build_table:
  assumes "at iter es xs" and "pieces_ok opts max_bytes (survivors (droppable level base) None es)"
  shows "\<exists>st. BuildTableFromIterator ops opts dir iter level base max_bytes n w = Some st \<and>
     build_result dir level n w st (survivors (droppable level base) None es)"
proof -
  define s0 where "s0 = \<lparr>bs_builder = None, bs_number = 0, bs_last_key = None, bs_outputs = [],
    bs_next_file = n, bs_world = w, bs_status = OK\<rparr>"
  define st where "st = fst (list_loop (build_body opts dir level base max_bytes) es s0)"
  obtain i where l: "iter_loop ops (build_body opts dir level base max_bytes) (it_SeekToFirst ops iter) s0 = Some (st, i)"
    using loop [OF first [OF assms(1)], of "build_body opts dir level base max_bytes" s0] unfolding st_def by blast
  have "build_inv opts dir level max_bytes n s0 [] []" by (simp add: build_inv_def s0_def numbered_def)
  from build_loop [OF this, of base es] assms(2)
  have S: "step_ok opts dir level max_bytes n s0 st (survivors (droppable level base) None es)"
    by (simp add: st_def s0_def)
  have eq: "BuildTableFromIterator ops opts dir iter level base max_bytes n w =
      Some (if is_ok (bs_status st) then finish_current dir level st else st)"
    using l by (simp add: BuildTableFromIterator_def s0_def)
  have w: "bs_world s0 = w" by (simp add: s0_def)
  show ?thesis
  proof (cases "is_ok (bs_status st)")
    case True
    then obtain oss cs where i: "build_inv opts dir level max_bytes n st oss cs"
        "concat oss @ cs = survivors (droppable level base) None es"
      using S unfolding step_ok_def by blast
    from finish_rest [OF i(1)] assms(2) i(2)
    have "build_result dir level n (bs_world st) (finish_current dir level st) (survivors (droppable level base) None es)" by simp
    then have "build_result dir level n w (finish_current dir level st) (survivors (droppable level base) None es)"
      using S True w frame_trans [of dir n w "bs_world st"] unfolding build_result_def step_ok_def by blast
    then show ?thesis using eq True by simp
  next
    case False
    then have "build_result dir level n w st (survivors (droppable level base) None es)"
      using S w unfolding step_ok_def build_result_def by blast
    then show ?thesis using eq False by simp
  qed
qed

end

end
