(* ===== verification/DBView.thy ===== *)
theory DBView
  imports DBBuild
begin

text \<open>
  What a reader sees.  The sources of the engine, from the memtable down, are layers in which an
  upper entry hides the lower ones of its key; the contents that \<open>Get\<close> and the iterator show are
  the newest versions over all layers, tombstones left out.
\<close>

subsection \<open>Newest versions\<close>

text \<open>Versions with the same key and sequence number are the same entry.\<close>

definition coherent :: "Entry set \<Rightarrow> bool" where
  "coherent S \<longleftrightarrow> (\<forall>a\<in>S. \<forall>b\<in>S. en_key a = en_key b \<and> en_seqno a = en_seqno b \<longrightarrow> a = b)"

definition is_newest :: "Entry set \<Rightarrow> bytes \<Rightarrow> Entry \<Rightarrow> bool" where
  "is_newest S k e \<longleftrightarrow> e \<in> S \<and> en_key e = k \<and> (\<forall>b\<in>S. en_key b = k \<longrightarrow> en_seqno b \<le> en_seqno e)"

lemma is_newest_unique:
  assumes "coherent S" and "is_newest S k a" and "is_newest S k b"
  shows "a = b"
proof -
  have "en_seqno a = en_seqno b" using assms(2,3) by (auto simp: is_newest_def intro: order_antisym)
  then show ?thesis using assms by (auto simp: is_newest_def coherent_def)
qed

lemma find_key_SomeD: "find_key k es = Some e \<Longrightarrow> e \<in> set es \<and> en_key e = k"
  by (induction es) (auto split: if_splits)

lemma find_key_None: "find_key k es = None \<longleftrightarrow> (\<forall>e\<in>set es. en_key e \<noteq> k)"
  by (auto simp: find_None_iff)

lemma find_key_newest:
  assumes "sorted_entries es" and "find_key k es = Some e"
  shows "is_newest (set es) k e"
  using assms
proof (induction es)
  case (Cons x xs)
  show ?case
  proof (cases "en_key x = k")
    case True
    then have "e = x" using Cons.prems(2) by simp
    moreover have "en_seqno b \<le> en_seqno x" if "b \<in> set xs" "en_key b = k" for b
    proof -
      have "ikey_of x \<le> ikey_of b" using Cons.prems(1) that(1) by simp
      then show ?thesis using same_key_le [of x b] True that(2) by simp
    qed
    ultimately show ?thesis using True by (auto simp: is_newest_def)
  next
    case False
    then show ?thesis using Cons by (auto simp: is_newest_def)
  qed
qed simp

lemma find_key_iff:
  assumes "sorted_entries es" and "coherent (set es)"
  shows "find_key k es = Some e \<longleftrightarrow> is_newest (set es) k e"
proof
  assume n: "is_newest (set es) k e"
  then have "find_key k es \<noteq> None" by (auto simp: find_key_None is_newest_def)
  then obtain e' where "find_key k es = Some e'" by blast
  moreover from find_key_newest [OF assms(1) this] have "e' = e" using is_newest_unique [OF assms(2)] n by blast
  ultimately show "find_key k es = Some e" by simp
qed (rule find_key_newest [OF assms(1)])

text \<open>What an entry shows: its value, or nothing for a tombstone.\<close>

definition shown :: "Entry option \<Rightarrow> bytes option" where
  "shown r = (case r of None \<Rightarrow> None | Some e \<Rightarrow> if en_op e = kPut then Some (en_value e) else None)"

definition shows_at :: "Entry set \<Rightarrow> bytes \<Rightarrow> bytes option \<Rightarrow> bool" where
  "shows_at S k v \<longleftrightarrow> (if \<exists>e\<in>S. en_key e = k then \<exists>e. is_newest S k e \<and> v = shown (Some e) else v = None)"

lemma shows_at_unique: "coherent S \<Longrightarrow> shows_at S k u \<Longrightarrow> shows_at S k v \<Longrightarrow> u = v"
  using is_newest_unique by (auto simp: shows_at_def split: if_splits)

lemma shows_at_none: "\<forall>e\<in>S. en_key e \<noteq> k \<Longrightarrow> shows_at S k None"
  by (auto simp: shows_at_def)

lemma shows_at_newest: "is_newest S k e \<Longrightarrow> shows_at S k (shown (Some e))"
  by (auto simp: shows_at_def is_newest_def)

lemma shows_at_find:
  assumes "sorted_entries es"
  shows "shows_at (set es) k (shown (find_key k es))"
proof (cases "find_key k es")
  case None
  then have "\<forall>e\<in>set es. en_key e \<noteq> k" by (simp add: find_key_None)
  then show ?thesis unfolding None using shows_at_none by (simp add: shown_def)
next
  case (Some e)
  show ?thesis unfolding Some by (rule shows_at_newest [OF find_key_newest [OF assms Some]])
qed

subsection \<open>Layers\<close>

text \<open>Where an upper layer has a key, it has a version at least as new as any in the lower one.\<close>

definition hides :: "Entry list \<Rightarrow> Entry list \<Rightarrow> bool" where
  "hides A B \<longleftrightarrow> (\<forall>b\<in>set B. \<forall>a\<in>set A. en_key a = en_key b \<longrightarrow>
     (\<exists>x\<in>set A. en_key x = en_key b \<and> en_seqno b \<le> en_seqno x))"

definition stack_ok :: "Entry list list \<Rightarrow> bool" where
  "stack_ok ls \<longleftrightarrow> sorted_wrt hides ls \<and> (\<forall>l\<in>set ls. sorted_entries l) \<and> coherent (\<Union> (set ` set ls))"

lemma coherent_mono: "coherent S \<Longrightarrow> T \<subseteq> S \<Longrightarrow> coherent T"
  unfolding coherent_def by blast

lemma stack_ok_Cons: "stack_ok (l # ls) \<longleftrightarrow>
    (\<forall>m\<in>set ls. hides l m) \<and> sorted_entries l \<and> coherent (set l \<union> \<Union> (set ` set ls)) \<and> stack_ok ls"
proof -
  have "coherent (set l \<union> \<Union> (set ` set ls)) \<Longrightarrow> coherent (\<Union> (set ` set ls))" by (erule coherent_mono) blast
  then show ?thesis by (simp add: stack_ok_def) blast
qed

lemma stack_coherent: "stack_ok ls \<Longrightarrow> coherent (\<Union> (set ` set ls))"
  by (simp add: stack_ok_def)

lemma first_hit_newest:
  "stack_ok ls \<Longrightarrow> first_hit (map (find_key k) ls) = Some e \<Longrightarrow> is_newest (\<Union> (set ` set ls)) k e"
proof (induction ls)
  case (Cons l ls)
  show ?case
  proof (cases "find_key k l")
    case None
    then have "is_newest (\<Union> (set ` set ls)) k e" using Cons by (simp add: stack_ok_Cons)
    moreover have "\<forall>x\<in>set l. en_key x \<noteq> k" using None by (simp add: find_key_None)
    ultimately show ?thesis by (auto simp: is_newest_def)
  next
    case (Some e')
    then have e: "e' = e" using Cons.prems by simp
    have n: "is_newest (set l) k e" using find_key_newest Some e Cons.prems by (simp add: stack_ok_Cons)
    moreover have "en_seqno b \<le> en_seqno e" if "b \<in> set m" "m \<in> set ls" "en_key b = k" for b m
    proof -
      note b = that
      have h: "hides l m" using Cons.prems(1) that(2) by (simp add: stack_ok_Cons)
      have i: "e \<in> set l" "en_key e = en_key b" using find_key_SomeD [OF Some] e that(3) by simp_all
      obtain x where "x \<in> set l" "en_key x = k" "en_seqno b \<le> en_seqno x"
        using h [unfolded hides_def, rule_format, OF b(1) i] b(3) by auto
      moreover from this have "en_seqno x \<le> en_seqno e" using n by (simp add: is_newest_def)
      ultimately show ?thesis by (meson order_trans)
    qed
    ultimately show ?thesis by (auto simp: is_newest_def)
  qed
qed simp

lemma first_hit_None: "first_hit (map (find_key k) ls) = None \<longleftrightarrow> (\<forall>l\<in>set ls. \<forall>e\<in>set l. en_key e \<noteq> k)"
  by (induction ls) (auto simp: find_key_None split: option.splits dest: find_key_SomeD)

lemma stack_shows:
  assumes "stack_ok ls"
  shows "shows_at (\<Union> (set ` set ls)) k (shown (first_hit (map (find_key k) ls)))"
proof (cases "first_hit (map (find_key k) ls)")
  case None
  then have "\<forall>e\<in>\<Union> (set ` set ls). en_key e \<noteq> k" by (simp add: first_hit_None)
  then show ?thesis unfolding None using shows_at_none by (simp add: shown_def)
next
  case (Some e)
  show ?thesis unfolding Some by (rule shows_at_newest [OF first_hit_newest [OF assms Some]])
qed

subsection \<open>The contents of an engine\<close>

text \<open>
  \<open>db_holds db M Is Vs\<close>: the memtable holds \<open>M\<close>, the waiting ones, oldest first, \<open>Is\<close>, and the tables
  of each level \<open>Vs\<close>.
\<close>

definition db_holds :: "DB \<Rightarrow> Entry list \<Rightarrow> Entry list list \<Rightarrow> Entry list list list \<Rightarrow> bool" where
  "db_holds db M Is Vs \<longleftrightarrow> mem_holds (db_mem db) M \<and> list_all2 (\<lambda>(m, _). mem_holds m) (db_imm db) Is \<and>
     list_all2 (list_all2 handle_ok) (db_version db) Vs"

definition layers :: "Entry list \<Rightarrow> Entry list list \<Rightarrow> Entry list list list \<Rightarrow> Entry list list" where
  "layers M Is Vs = M # rev Is @ hd Vs @ map concat (tl Vs)"

definition level_ok :: "Entry list list \<Rightarrow> bool" where
  "level_ok L \<longleftrightarrow> sorted_wrt (\<lambda>a b. en_key (last a) < en_key (hd b)) L"

subsection \<open>Lookup in a level\<close>

lemma sorted_keys:
  assumes "sorted_entries es" and "i \<le> j" and "j < length es"
  shows "en_key (es ! i) \<le> en_key (es ! j)"
proof -
  have "ikey_of (es ! i) \<le> ikey_of (es ! j)"
    using sorted_nth_mono [OF assms(1), of i j] assms(2,3) by simp
  then show ?thesis by (auto simp: ikey_of_def le_IKey)
qed

lemma key_range:
  assumes "sorted_entries es" and "e \<in> set es"
  shows "en_key (hd es) \<le> en_key e" "en_key e \<le> en_key (last es)"
proof -
  obtain j where j: "j < length es" "e = es ! j" using assms(2) by (metis in_set_conv_nth)
  have ne: "es \<noteq> []" using assms(2) by auto
  show "en_key (hd es) \<le> en_key e" using sorted_keys [OF assms(1), of 0 j] j ne by (simp add: hd_conv_nth)
  show "en_key e \<le> en_key (last es)"
    using sorted_keys [OF assms(1), of j "length es - 1"] j ne by (simp add: last_conv_nth)
qed

lemma handle_okD: "handle_ok h es \<Longrightarrow> sorted_entries es \<and> es \<noteq> []"
  using table_holds_sorted by (auto simp: handle_ok_def)

lemma handle_okE:
  assumes "handle_ok h es" and "e \<in> set es"
  shows "tm_smallest (th_meta h) \<le> en_key e" "en_key e \<le> tm_largest (th_meta h)"
  using key_range [of es e] handle_okD [OF assms(1)] assms by (simp_all add: handle_ok_def)

lemma level_search_spec:
  assumes "\<And>i j. i \<le> j \<Longrightarrow> j < length files \<Longrightarrow> tm_largest (th_meta (files ! i)) \<le> tm_largest (th_meta (files ! j))"
    and "lo \<le> hi" and "hi \<le> length files"
  shows "lo \<le> level_search files key lo hi \<and> level_search files key lo hi \<le> hi \<and>
     (\<forall>i. lo \<le> i \<and> i < level_search files key lo hi \<longrightarrow> tm_largest (th_meta (files ! i)) < key) \<and>
     (level_search files key lo hi < hi \<longrightarrow> key \<le> tm_largest (th_meta (files ! level_search files key lo hi)))"
  using assms(2,3)
proof (induction "hi - lo" arbitrary: lo hi rule: less_induct)
  case less
  show ?case
  proof (cases "lo < hi")
    case True
    define mid where "mid = (lo + hi) div 2"
    have m: "lo \<le> mid" "mid < hi" using True by (auto simp: mid_def)
    show ?thesis
    proof (cases "tm_largest (th_meta (files ! mid)) < key")
      case True
      then have eq: "level_search files key lo hi = level_search files key (mid + 1) hi"
        using \<open>lo < hi\<close> by (subst level_search.simps) (simp add: mid_def)
      have below: "tm_largest (th_meta (files ! i)) < key" if "i \<le> mid" for i
      proof -
        have "mid < length files" using m(2) less.prems(2) by simp
        from assms(1) [OF that this] True show ?thesis by (rule le_less_trans)
      qed
      have "mid + 1 \<le> hi" "hi - (mid + 1) < hi - lo" using m by auto
      note IH = less.hyps [OF this(2) this(1) less.prems(2)]
      have "tm_largest (th_meta (files ! i)) < key" if "lo \<le> i" "i < level_search files key (mid + 1) hi" for i
        using IH below [of i] that by (cases "i \<le> mid") auto
      moreover have "lo \<le> level_search files key (mid + 1) hi" using IH m(1) by linarith
      ultimately show ?thesis using IH unfolding eq by blast
    next
      case False
      then have eq: "level_search files key lo hi = level_search files key lo mid"
        using \<open>lo < hi\<close> by (subst level_search.simps) (simp add: mid_def)
      have "mid - lo < hi - lo" using m by auto
      note IH = less.hyps [OF this m(1)]
      have "key \<le> tm_largest (th_meta (files ! level_search files key lo mid))"
      proof (cases "level_search files key lo mid = mid")
        case True
        show ?thesis unfolding True using False by (simp add: not_less)
      next
        case neq: False
        have "mid \<le> length files" using m(2) less.prems(2) by simp
        then show ?thesis using IH neq by (simp add: le_less)
      qed
      moreover have "level_search files key lo mid \<le> hi" using IH m(2) less.prems(2) by simp
      ultimately show ?thesis using IH m(2) less.prems(2) unfolding eq by simp
    qed
  next
    case False
    then have "level_search files key lo hi = lo" by (subst level_search.simps) simp
    then show ?thesis using less.prems False by auto
  qed
qed

lemma level_okD:
  assumes "level_ok L" and "i < j" and "j < length L"
  shows "en_key (last (L ! i)) < en_key (hd (L ! j))"
  using assms unfolding level_ok_def by (simp add: sorted_wrt_iff_nth_less)

lemma list_all2_handle:
  assumes "list_all2 handle_ok hs L"
  shows "length hs = length L" and "\<And>i. i < length L \<Longrightarrow> handle_ok (hs ! i) (L ! i)"
    and "\<forall>l\<in>set L. sorted_entries l \<and> l \<noteq> []"
proof -
  show len: "length hs = length L" using assms by (rule list_all2_lengthD)
  show n: "handle_ok (hs ! i) (L ! i)" if "i < length L" for i using list_all2_nthD2 [OF assms that] .
  show "\<forall>l\<in>set L. sorted_entries l \<and> l \<noteq> []"
  proof
    fix l assume "l \<in> set L"
    then obtain i where i: "i < length L" "l = L ! i" by (auto simp: in_set_conv_nth [of l])
    show "sorted_entries l \<and> l \<noteq> []" unfolding i(2) by (rule handle_okD [OF n [OF i(1)]])
  qed
qed

lemma find_append: "find_key k (A @ B) = (case find_key k A of None \<Rightarrow> find_key k B | Some e \<Rightarrow> Some e)"
  by (induction A) auto

text \<open>A key lies in at most one table of a level, so the level is one sorted layer.\<close>

lemma level_find:
  assumes L: "list_all2 handle_ok hs L" "level_ok L"
    and r: "r < length L" "\<And>i. i < r \<Longrightarrow> en_key (last (L ! i)) < key" "key \<le> en_key (last (L ! r))"
  shows "find_key key (concat L) = find_key key (L ! r)"
proof -
  note H = list_all2_handle [OF L(1)]
  have no: "en_key e \<noteq> key" if "i < length L" "i \<noteq> r" "e \<in> set (L ! i)" for i e
  proof -
    have s: "sorted_entries (L ! i)" using H(3) that(1) by simp
    show ?thesis
    proof (cases "i < r")
      case True
      then show ?thesis using key_range(2) [OF s that(3)] r(2) [OF True] by auto
    next
      case False
      then have "en_key (last (L ! r)) < en_key (hd (L ! i))" using level_okD [OF L(2), of r i] that(1,2) by simp
      then show ?thesis using key_range(1) [OF s that(3)] r(3) by auto
    qed
  qed
  have split: "L = take r L @ [L ! r] @ drop (Suc r) L" using r(1) by (simp add: id_take_nth_drop)
  have "find_key key (concat (take r L)) = None"
    unfolding find_key_None
  proof
    fix e assume "e \<in> set (concat (take r L))"
    then obtain l where "l \<in> set (take r L)" "e \<in> set l" by auto
    then obtain i where "i < r" "e \<in> set (L ! i)" by (auto simp: in_set_conv_nth [of l])
    then show "en_key e \<noteq> key" using no [of i] r(1) by simp
  qed
  moreover have "find_key key (concat (drop (Suc r) L)) = None"
    unfolding find_key_None
  proof
    fix e assume "e \<in> set (concat (drop (Suc r) L))"
    then obtain l where "l \<in> set (drop (Suc r) L)" "e \<in> set l" by auto
    then obtain i where "i < length L - Suc r" "e \<in> set (L ! (Suc r + i))" by (auto simp: in_set_conv_nth [of l])
    then show "en_key e \<noteq> key" using no [of "Suc r + i"] by simp
  qed
  moreover have "find_key key (A @ B @ C) = find_key key B" if "find_key key A = None" "find_key key C = None" for A B C
    using that by (simp add: find_append split: option.split)
  ultimately show ?thesis by (subst split) simp
qed

lemma level_lookup_find:
  assumes L: "list_all2 handle_ok hs L" "level_ok L"
  shows "level_lookup hs key = find_key key (concat L)"
proof -
  note H = list_all2_handle [OF L(1)]
  have largest: "tm_largest (th_meta (hs ! i)) = en_key (last (L ! i))" if "i < length L" for i
    using H(2) [OF that] by (simp add: handle_ok_def)
  have mono: "tm_largest (th_meta (hs ! i)) \<le> tm_largest (th_meta (hs ! j))" if "i \<le> j" "j < length hs" for i j
  proof (cases "i = j")
    case False
    then have "en_key (last (L ! i)) < en_key (hd (L ! j))" using level_okD [OF L(2), of i j] that H(1) by simp
    also have "\<dots> \<le> en_key (last (L ! j))" using key_range(1) [of "L ! j" "last (L ! j)"] H(1,3) that(2) by simp
    finally show ?thesis using largest H(1) that by simp
  qed simp
  define r where "r = level_search hs key 0 (length hs)"
  have R: "\<forall>i<r. tm_largest (th_meta (hs ! i)) < key" "r \<le> length hs" "r < length hs \<longrightarrow> key \<le> tm_largest (th_meta (hs ! r))"
    using level_search_spec [OF mono, of 0 "length hs" key] by (simp_all add: r_def)
  show ?thesis
  proof (cases "r < length L")
    case True
    then have f: "find_key key (concat L) = find_key key (L ! r)"
      using level_find [OF L True] R largest H(1) by simp
    show ?thesis
    proof (cases "tm_smallest (th_meta (hs ! r)) \<le> key")
      case le: True
      then have "level_lookup hs key = Table_Get (th_table (hs ! r)) key"
        using True H(1) by (simp add: level_lookup_def r_def)
      then show ?thesis using f table_holds_Get H(2) [OF True] by (simp add: handle_ok_def)
    next
      case gt: False
      then have "level_lookup hs key = None" using H(1) by (simp add: level_lookup_def r_def)
      moreover have "find_key key (L ! r) = None"
        using handle_okE(1) [OF H(2) [OF True]] gt by (auto simp: find_key_None)
      ultimately show ?thesis using f by simp
    qed
  next
    case False
    have "find_key key (concat L) = None"
      unfolding find_key_None
    proof
      fix e assume "e \<in> set (concat L)"
      then obtain l where "l \<in> set L" "e \<in> set l" by auto
      then obtain i where i: "i < length L" "e \<in> set (L ! i)" by (auto simp: in_set_conv_nth [of l])
      then have "en_key e \<le> tm_largest (th_meta (hs ! i))" using handle_okE(2) H(2) by blast
      also have "\<dots> < key" using R(1) i(1) False by simp
      finally show "en_key e \<noteq> key" by simp
    qed
    moreover have "level_lookup hs key = None"
      using False H(1) unfolding level_lookup_def r_def [symmetric] Let_def by simp
    ultimately show ?thesis by simp
  qed
qed

text \<open>Lookup is the first hit of the layers.\<close>

lemma db_lookup_layers:
  assumes "db_holds db M Is Vs" and "Vs \<noteq> []" and "\<forall>L\<in>set (tl Vs). level_ok L"
  shows "db_lookup key db = first_hit (map (find_key key) (layers M Is Vs))"
proof -
  have mem: "MemTable_Get key (db_mem db) = find_key key M" using assms(1) mem_holds_Get by (auto simp: db_holds_def)
  have "map (\<lambda>(m, _). MemTable_Get key m) imm = map (find_key key) Is"
    if "list_all2 (\<lambda>(m, _). mem_holds m) imm Is" for imm :: "(MemTable \<times> nat) list"
    using that by (induction rule: list_all2_induct) (auto simp: mem_holds_Get)
  then have imm: "map (\<lambda>(m, _). MemTable_Get key m) (rev (db_imm db)) = map (find_key key) (rev Is)"
    using assms(1) by (simp add: db_holds_def rev_map [symmetric])
  have "map (\<lambda>h. Table_Get (th_table h) key) hs = map (find_key key) L" if "list_all2 handle_ok hs L" for hs L
    using that by (induction rule: list_all2_induct) (auto simp: handle_ok_def table_holds_Get)
  moreover obtain hs vs L Ls where v: "db_version db = hs # vs" "Vs = L # Ls" "list_all2 handle_ok hs L"
      "list_all2 (list_all2 handle_ok) vs Ls"
    using assms(1,2) by (auto simp: db_holds_def list_all2_Cons2 neq_Nil_conv)
  moreover have "map (\<lambda>files. level_lookup files key) vs = map (find_key key) (map concat Ls)"
    using v(4) assms(3) [unfolded v(2), simplified]
    by (induction rule: list_all2_induct) (auto simp: level_lookup_find)
  ultimately show ?thesis using mem imm unfolding db_lookup_def layers_def by simp
qed

subsection \<open>The user iterator\<close>

text \<open>The pairs ahead of an iterator with the entries \<open>xs\<close> ahead of its inner one.\<close>

function visible :: "Entry list \<Rightarrow> (bytes \<times> bytes) list" where
  "visible [] = []"
| "visible (e # es) =
     (if en_op e = kPut then [(en_key e, en_value e)] else []) @ visible (dropWhile (\<lambda>x. en_key x = en_key e) es)"
  by pat_completeness auto
termination
  by (relation "measure length") (auto simp: length_dropWhile_le less_Suc_eq_le)

definition dbi_at :: "('i \<Rightarrow> Entry list \<Rightarrow> Entry list \<Rightarrow> bool) \<Rightarrow> 'i db_iter \<Rightarrow> Entry list \<Rightarrow> Entry list \<Rightarrow> bool" where
  "dbi_at at d es xs \<longleftrightarrow> at (di_inner d) es xs \<and> di_valid d = (xs \<noteq> []) \<and>
     (xs \<noteq> [] \<longrightarrow> en_op (hd xs) = kPut \<and> di_key d = en_key (hd xs) \<and> di_value d = en_value (hd xs))"

text \<open>The loop \<open>for (; it->Valid(); it->Next())\<close> of a client of the engine.\<close>

partial_function (option) dbi_loop ::
  "'i iter_ops \<Rightarrow> (bytes \<Rightarrow> bytes \<Rightarrow> 's \<Rightarrow> 's \<times> bool) \<Rightarrow> 'i db_iter \<Rightarrow> 's \<Rightarrow> 's option" where
  "dbi_loop ops body d s =
     (if di_valid d
      then let r = body (di_key d) (di_value d) s
           in if snd r then Option.bind (dbi_Next ops d) (\<lambda>d. dbi_loop ops body d (fst r)) else Some (fst r)
      else Some s)"

fun pairs_loop :: "(bytes \<Rightarrow> bytes \<Rightarrow> 's \<Rightarrow> 's \<times> bool) \<Rightarrow> (bytes \<times> bytes) list \<Rightarrow> 's \<Rightarrow> 's" where
  "pairs_loop body [] s = s"
| "pairs_loop body ((k, v) # ps) s = (case body k v s of (s', go_on) \<Rightarrow> if go_on then pairs_loop body ps s' else s')"

lemma pairs_loop_collect: "pairs_loop (\<lambda>k v acc. (acc @ [(k, v)], True)) ps acc = acc @ ps"
  by (induction ps arbitrary: acc) auto

context internal_iterator
begin

lemma skip_key_at:
  "at i es xs \<Longrightarrow> \<exists>i'. skip_key ops key i = Some i' \<and> at i' es (dropWhile (\<lambda>e. en_key e = key) xs)"
proof (induction xs arbitrary: i)
  case Nil
  then show ?case using valid [OF Nil] by (subst skip_key.simps) simp
next
  case (Cons x xs)
  have v: "it_Valid ops i" "it_entry ops i = x" using valid [OF Cons.prems] entry [OF Cons.prems] by auto
  show ?case
  proof (cases "en_key x = key")
    case True
    have "skip_key ops key i = skip_key ops key (it_Next ops i)"
      by (subst skip_key.simps) (simp add: v True)
    then show ?thesis using Cons.IH [OF move [OF Cons.prems]] True by simp
  next
    case False
    have "skip_key ops key i = Some i" by (subst skip_key.simps) (simp add: v False)
    then show ?thesis using Cons.prems False by simp
  qed
qed

lemma find_visible_at:
  "at (di_inner d) es xs \<Longrightarrow> \<not> di_valid d \<Longrightarrow>
   \<exists>d' ys. find_visible ops d = Some d' \<and> dbi_at at d' es ys \<and> visible ys = visible xs"
proof (induction xs arbitrary: d rule: visible.induct)
  case 1
  have "find_visible ops d = Some d" using valid [OF 1(1)] by (subst find_visible.simps) simp
  then show ?case using 1 by (intro exI [of _ d] exI [of _ "[]"]) (simp add: dbi_at_def)
next
  case (2 e xs)
  have v: "it_Valid ops (di_inner d)" "it_entry ops (di_inner d) = e" using valid [OF 2(2)] entry [OF 2(2)] by auto
  show ?case
  proof (cases "en_op e = kPut")
    case True
    have "find_visible ops d = Some (d\<lparr>di_key := en_key e, di_value := en_value e, di_valid := True\<rparr>)"
      by (subst find_visible.simps) (simp add: v True Let_def)
    moreover have "dbi_at at (d\<lparr>di_key := en_key e, di_value := en_value e, di_valid := True\<rparr>) es (e # xs)"
      using 2(2) True by (simp add: dbi_at_def)
    ultimately show ?thesis by blast
  next
    case False
    obtain i' where i: "skip_key ops (en_key e) (di_inner d) = Some i'" "at i' es (dropWhile (\<lambda>x. en_key x = en_key e) (e # xs))"
      using skip_key_at [OF 2(2)] by blast
    define d1 where "d1 = d\<lparr>di_key := en_key e, di_inner := i'\<rparr>"
    have "find_visible ops d = find_visible ops d1"
      by (subst find_visible.simps) (simp add: v False Let_def SkipCurrentKey_def i(1) d1_def)
    moreover have "at (di_inner d1) es (dropWhile (\<lambda>x. en_key x = en_key e) xs)" "\<not> di_valid d1"
      using i(2) 2(3) by (simp_all add: d1_def)
    ultimately show ?thesis using 2(1) [of d1] False by simp
  qed
qed

lemma dbi_first:
  "at (di_inner d) es xs \<Longrightarrow> \<exists>d' ys. dbi_SeekToFirst ops d = Some d' \<and> dbi_at at d' es ys \<and> visible ys = visible es"
  using find_visible_at [of "d\<lparr>di_inner := it_SeekToFirst ops (di_inner d), di_valid := False\<rparr>" es es] first
  by (simp add: dbi_SeekToFirst_def FindNextVisible_def)

lemma dbi_seek:
  "at (di_inner d) es xs \<Longrightarrow> \<exists>d' ys. dbi_Seek ops k d = Some d' \<and> dbi_at at d' es ys \<and>
     visible ys = visible (dropWhile (\<lambda>e. en_key e < k) es)"
  using find_visible_at [of "d\<lparr>di_inner := it_Seek ops k (di_inner d), di_valid := False\<rparr>" es "dropWhile (\<lambda>e. en_key e < k) es"] seek
  by (simp add: dbi_Seek_def FindNextVisible_def)

lemma dbi_next:
  assumes "dbi_at at d es (x # xs)"
  shows "\<exists>d' ys. dbi_Next ops d = Some d' \<and> dbi_at at d' es ys \<and> visible ys = tl (visible (x # xs))"
proof -
  have k: "at (di_inner d) es (x # xs)" "di_key d = en_key x" "en_op x = kPut" using assms by (auto simp: dbi_at_def)
  obtain i' where i: "skip_key ops (en_key x) (di_inner d) = Some i'" "at i' es (dropWhile (\<lambda>e. en_key e = en_key x) (x # xs))"
    using skip_key_at [OF k(1)] by blast
  then have "dbi_Next ops d = find_visible ops (d\<lparr>di_inner := i', di_valid := False\<rparr>)"
    by (simp add: dbi_Next_def SkipCurrentKey_def k(2) FindNextVisible_def)
  then show ?thesis
    using find_visible_at [of "d\<lparr>di_inner := i', di_valid := False\<rparr>" es "dropWhile (\<lambda>e. en_key e = en_key x) xs"] i(2) k(3)
    by simp
qed

lemma dbi_loop_at:
  "dbi_at at d es xs \<Longrightarrow> dbi_loop ops body d s = Some (pairs_loop body (visible xs) s)"
proof (induction "visible xs" arbitrary: d xs s)
  case Nil
  then have "xs = []" by (cases xs) (auto simp: dbi_at_def)
  then have "\<not> di_valid d" using Nil.prems by (simp add: dbi_at_def)
  then show ?case using Nil.hyps by (subst dbi_loop.simps) (simp flip: Nil.hyps)
next
  case (Cons p ps)
  then obtain x xs' where xs: "xs = x # xs'" by (cases xs) auto
  have d: "di_valid d" "di_key d = en_key x" "di_value d = en_value x" "en_op x = kPut"
    using Cons.prems by (simp_all add: dbi_at_def xs)
  then have p: "p = (en_key x, en_value x)" using Cons.hyps(2) by (simp add: xs)
  obtain s' go where b: "body (en_key x) (en_value x) s = (s', go)" by fastforce
  obtain d' ys where n: "dbi_Next ops d = Some d'" "dbi_at at d' es ys" "visible ys = ps"
    using dbi_next [OF Cons.prems [unfolded xs]] by (auto simp flip: xs Cons.hyps(2))
  have "dbi_loop ops body d s = (if go then dbi_loop ops body d' s' else Some s')"
    by (subst dbi_loop.simps) (simp add: d b n(1) Let_def)
  then show ?case using Cons.hyps(1) [OF n(3) [symmetric] n(2)] b n(3) by (simp add: Cons.hyps(2) [symmetric] p)
qed

end

text \<open>The visible pairs of sorted entries are sorted and form the map of the newest values.\<close>

lemma dropWhile_same:
  assumes "sorted_entries (e # es)"
  shows "\<forall>x\<in>set (dropWhile (\<lambda>x. en_key x = en_key e) es). en_key e < en_key x"
  using assms
proof (induction es)
  case (Cons x xs)
  show ?case
  proof (cases "en_key x = en_key e")
    case True
    then show ?thesis using Cons by simp
  next
    case False
    have "en_key e < en_key y" if "y \<in> set (x # xs)" for y
    proof -
      have "en_key e \<le> en_key x" using key_range(1) [OF Cons.prems, of x] by simp
      moreover have "en_key x \<le> en_key y" using key_range(1) [of "x # xs" y] Cons.prems that by simp
      ultimately show ?thesis using False by simp
    qed
    then show ?thesis using False by auto
  qed
qed simp

lemma sorted_dropWhile: "sorted_entries es \<Longrightarrow> sorted_entries (dropWhile P es)"
  by (induction es) auto

lemma visible_keys: "fst ` set (visible es) \<subseteq> en_key ` set es"
proof (induction es rule: visible.induct)
  case (2 e es)
  have "en_key ` set (dropWhile (\<lambda>x. en_key x = en_key e) es) \<subseteq> en_key ` set es"
    by (rule image_mono) (auto dest: set_dropWhileD)
  then have "fst ` set (visible (dropWhile (\<lambda>x. en_key x = en_key e) es)) \<subseteq> en_key ` set es"
    by (rule subset_trans [OF 2])
  then show ?case by (cases "en_op e = kPut") (simp_all add: image_Un subset_insertI2)
qed simp

lemma visible_sorted: "sorted_entries es \<Longrightarrow> sorted_wrt (<) (map fst (visible es))"
proof (induction es rule: visible.induct)
  case (2 e es)
  let ?r = "dropWhile (\<lambda>x. en_key x = en_key e) es"
  have "sorted_wrt (<) (map fst (visible ?r))" using 2 sorted_dropWhile by simp
  moreover have "\<forall>k\<in>fst ` set (visible ?r). en_key e < k"
  proof
    fix k assume "k \<in> fst ` set (visible ?r)"
    then obtain x where "x \<in> set ?r" "k = en_key x" using visible_keys [of ?r] by blast
    then show "en_key e < k" using dropWhile_same [OF 2(2)] by simp
  qed
  ultimately show ?case by simp
qed simp

lemma find_key_skip: "k \<noteq> k' \<Longrightarrow> find_key k (dropWhile (\<lambda>x. en_key x = k') es) = find_key k es"
  by (induction es) auto

lemma visible_map: "sorted_entries es \<Longrightarrow> map_of (visible es) k = shown (find_key k es)"
proof (induction es rule: visible.induct)
  case (2 e es)
  let ?r = "dropWhile (\<lambda>x. en_key x = en_key e) es"
  have IH: "map_of (visible ?r) k = shown (find_key k ?r)" using 2 sorted_dropWhile by simp
  show ?case
  proof (cases "en_key e = k")
    case True
    have "find_key k ?r = None" unfolding find_key_None using dropWhile_same [OF 2(2)] True by auto
    then show ?thesis using IH True by (simp add: shown_def)
  next
    case False
    then show ?thesis using IH find_key_skip [of k "en_key e" es] by simp
  qed
qed (simp add: shown_def)

subsection \<open>Reading an engine\<close>

definition all_of :: "Entry list \<Rightarrow> Entry list list \<Rightarrow> Entry list list list \<Rightarrow> Entry set" where
  "all_of M Is Vs = set M \<union> set (concat Is) \<union> set (concat (concat Vs))"

lemma layers_set: "Vs \<noteq> [] \<Longrightarrow> \<Union> (set ` set (layers M Is Vs)) = all_of M Is Vs"
  by (cases Vs) (auto simp: layers_def all_of_def)

text \<open>The well-formed contents of an engine.\<close>

definition rep :: "DB \<Rightarrow> Entry list \<Rightarrow> Entry list list \<Rightarrow> Entry list list list \<Rightarrow> bool" where
  "rep db M Is Vs \<longleftrightarrow> db_holds db M Is Vs \<and> length Vs = kNumLevels \<and> stack_ok (layers M Is Vs) \<and>
     (\<forall>L\<in>set (tl Vs). level_ok L)"

lemma rep_not_Nil: "rep db M Is Vs \<Longrightarrow> Vs \<noteq> []"
  by (auto simp: rep_def kNumLevels_def)

lemma rep_lookup:
  assumes "rep db M Is Vs"
  shows "shows_at (all_of M Is Vs) k (shown (db_lookup k db))"
proof -
  have r: "db_holds db M Is Vs" "\<forall>L\<in>set (tl Vs). level_ok L" "stack_ok (layers M Is Vs)"
    using assms by (auto simp: rep_def)
  show ?thesis
    using stack_shows [OF r(3), of k] layers_set [OF rep_not_Nil [OF assms]]
    by (simp add: db_lookup_layers [OF r(1) rep_not_Nil [OF assms] r(2)])
qed

lemma rep_coherent:
  assumes "rep db M Is Vs"
  shows "coherent (all_of M Is Vs)"
proof -
  have "stack_ok (layers M Is Vs)" using assms by (simp add: rep_def)
  from stack_coherent [OF this] show ?thesis by (simp add: layers_set [OF rep_not_Nil [OF assms]])
qed

lemma rep_children:
  assumes "rep db M Is Vs"
  shows "merging_at source_ops source_at (di_inner (DB_NewIterator db)) (merged (M # Is @ concat Vs)) []"
proof -
  have h: "mem_holds (db_mem db) M" "list_all2 (\<lambda>(m, _). mem_holds m) (db_imm db) Is"
    "list_all2 (list_all2 handle_ok) (db_version db) Vs" using assms by (auto simp: rep_def db_holds_def)
  define C where "C = (\<lambda>c es. source_at c es [] \<and> sorted_entries es)"
  have t: "list_all2 C (map (\<lambda>h. TableSource (table_NewIterator (th_table h))) hs) L" if "list_all2 handle_ok hs L" for hs L
    using that
  proof (induction rule: list_all2_induct)
    case (Cons x xs y ys)
    then have "table_holds (th_table x) y" by (simp add: handle_ok_def)
    then show ?case using Cons table_holds_iter table_holds_sorted by (simp add: C_def source_at_def)
  qed simp
  have "list_all2 C [MemSource (mem_NewIterator (db_mem db))] [M]"
    using mem_holds_iter [OF h(1)] mem_holds_sorted [OF h(1)] by (simp add: C_def source_at_def)
  moreover have "list_all2 C (map (\<lambda>(m, _). MemSource (mem_NewIterator m)) (db_imm db)) Is"
    using h(2)
  proof (induction rule: list_all2_induct)
    case (Cons x xs y ys)
    then have "mem_holds (fst x) y" by (simp add: split_def)
    then show ?case using Cons mem_holds_iter mem_holds_sorted by (simp add: C_def source_at_def split_def)
  qed simp
  moreover have "list_all2 C (map (\<lambda>h. TableSource (table_NewIterator (th_table h))) (concat (db_version db))) (concat Vs)"
    using h(3)
  proof (induction rule: list_all2_induct)
    case (Cons x xs y ys)
    then show ?case using t [of x y] by (simp add: list_all2_appendI)
  qed simp
  ultimately have "list_all2 C (mg_children (di_inner (DB_NewIterator db))) (M # Is @ concat Vs)"
    unfolding DB_NewIterator_def NewMergingIterator_def
    by (simp add: list_all2_appendI)
  moreover have "di_inner (DB_NewIterator db) = NewMergingIterator (mg_children (di_inner (DB_NewIterator db)))"
    by (simp add: DB_NewIterator_def NewMergingIterator_def)
  moreover have "merging_at source_ops source_at (NewMergingIterator cs) (merged css) []" if c: "list_all2 C cs css" for cs css
  proof (rule source_children.fresh)
    show "length css = length cs" using c by (simp add: list_all2_lengthD)
    show "\<forall>j<length cs. source_at (cs ! j) (css ! j) []" using c by (simp add: list_all2_conv_all_nth C_def)
    show "\<forall>c\<in>set css. sorted_entries c"
    proof
      fix es assume "es \<in> set css"
      then obtain j where "j < length css" "es = css ! j" by (auto simp: in_set_conv_nth [of es])
      then show "sorted_entries es" using c by (simp add: list_all2_conv_all_nth C_def)
    qed
  qed
  ultimately show ?thesis by metis
qed

lemma find_key_filter: "start \<le> k \<Longrightarrow> find_key k (filter (\<lambda>e. \<not> en_key e < start) es) = find_key k es"
  by (induction es) auto

lemma merged_set: "set (merged css) = set (concat css)"
  by (simp add: merged_def)

text \<open>
  The pairs that a scan from \<open>start\<close> meets are sorted, and are the shown values of the keys from
  \<open>start\<close> on.
\<close>

lemma rep_scan:
  assumes "rep db M Is Vs" and "\<forall>k. shows_at (all_of M Is Vs) k (h k)"
  shows "\<exists>d ps. dbi_Seek (merging_ops source_ops) start (DB_NewIterator db) = Some d \<and>
     (\<forall>body s :: 's. dbi_loop (merging_ops source_ops) body d s = Some (pairs_loop body ps s)) \<and>
     sorted_wrt (<) (map fst ps) \<and> (\<forall>k. map_of ps k = (if start \<le> k then h k else None))"
proof -
  let ?m = "merged (M # Is @ concat Vs)"
  obtain d ys where d: "dbi_Seek (merging_ops source_ops) start (DB_NewIterator db) = Some d"
      "dbi_at (merging_at source_ops source_at) d ?m ys" "visible ys = visible (dropWhile (\<lambda>e. en_key e < start) ?m)"
    using source_children.merge.dbi_seek [OF rep_children [OF assms(1)]] by blast
  define zs where "zs = dropWhile (\<lambda>e. en_key e < start) ?m"
  have s: "sorted_entries ?m" by (rule sorted_merged)
  have zs: "sorted_entries zs" "zs = filter (\<lambda>e. \<not> en_key e < start) ?m"
    unfolding zs_def by (rule sorted_dropWhile [OF s]) (rule dropWhile_sorted [OF s])
  have all: "set ?m = all_of M Is Vs" by (auto simp: merged_set all_of_def)
  have "shown (find_key k zs) = (if start \<le> k then h k else None)" for k
  proof (cases "start \<le> k")
    case True
    have "find_key k zs = find_key k ?m"
      unfolding zs(2) by (rule find_key_filter [OF True])
    moreover have "shown (find_key k ?m) = h k"
      using shows_at_unique [OF rep_coherent [OF assms(1)]] shows_at_find [OF s] assms(2) all by metis
    ultimately show ?thesis using True by simp
  next
    case False
    then have "find_key k zs = None" unfolding find_key_None zs(2) by auto
    then show ?thesis using False by (simp add: shown_def)
  qed
  then have "\<forall>k. map_of (visible zs) k = (if start \<le> k then h k else None)" by (simp only: visible_map [OF zs(1)]) simp
  moreover have "\<forall>body s :: 's. dbi_loop (merging_ops source_ops) body d s = Some (pairs_loop body (visible zs) s)"
    by (simp add: source_children.merge.dbi_loop_at [OF d(2)] d(3) zs_def)
  ultimately show ?thesis using d(1) visible_sorted [OF zs(1)] by blast
qed

text \<open>The entries of a table, as an iteration gives them.\<close>

definition entries_of :: "TableHandle \<Rightarrow> Entry list" where
  "entries_of h = fst (the (iter_loop table_ops (\<lambda>e acc. (acc @ [e], True))
     (table_SeekToFirst (table_NewIterator (th_table h))) []))"

lemma entries_of_holds: "table_holds (th_table h) es \<Longrightarrow> entries_of h = es"
  using table_iterator.loop [OF table_iterator.first [OF table_holds_iter], of "th_table h" es "\<lambda>e acc. (acc @ [e], True)" "[]"]
  by (auto simp: entries_of_def table_ops_def list_loop_collect [of "\<lambda>e. e", simplified])

definition handle_fine :: "TableHandle \<Rightarrow> bool" where
  "handle_fine h \<longleftrightarrow> handle_ok h (entries_of h)"

lemma handle_ok_iff: "handle_ok h es \<longleftrightarrow> handle_fine h \<and> es = entries_of h"
  using entries_of_holds by (auto simp: handle_fine_def handle_ok_def)

lemma handles_ok_iff: "list_all2 handle_ok hs L \<longleftrightarrow> list_all handle_fine hs \<and> L = map entries_of hs"
proof (induction hs arbitrary: L)
  case (Cons h hs)
  then show ?case by (auto simp: list_all2_Cons1 handle_ok_iff)
qed simp

lemma version_ok_iff:
  "list_all2 (list_all2 handle_ok) v Vs \<longleftrightarrow> list_all (list_all handle_fine) v \<and> Vs = map (map entries_of) v"
proof (induction v arbitrary: Vs)
  case (Cons hs v)
  then show ?case by (auto simp: list_all2_Cons1 handles_ok_iff)
qed simp

end
