(* ===== verification/DBInv.thy ===== *)
theory DBInv
  imports DBView "HOL-Library.Multiset"
begin

text \<open>
  The invariant of the engine and what the write path and the background thread do to its
  contents.  \<open>db_ok db M Is Vs\<close> says that the engine holds the entries \<open>M\<close> in its memtable, \<open>Is\<close> in the
  memtables that wait for their flush, and \<open>Vs\<close> in the tables of its levels, well formed and within
  the size limits; a flush and a compaction keep what is shown for every key.
\<close>

subsection \<open>Sizes\<close>

text \<open>
  Limits under which every table that the engine builds stays below the size its footer and
  filter can describe.  A request cannot carry more than \<open>kMaxFrameBytes\<close>, which is \<open>2 ^ 25\<close>.
\<close>

definition modest :: "Options \<Rightarrow> bool" where
  "modest opts \<longleftrightarrow> opt_write_buffer_size opts \<le> 2 ^ 24 \<and> opt_max_output_file_bytes opts \<le> 2 ^ 26 \<and>
     opt_bloom_bits_per_key opts \<le> 32 \<and> 0 < opt_l0_compaction_trigger opts"

definition small_entry :: "Entry \<Rightarrow> bool" where
  "small_entry e \<longleftrightarrow> length (en_key e) + length (en_value e) \<le> 2 ^ 25"

definition mem_size :: "Entry list \<Rightarrow> nat" where
  "mem_size es = sum_list (map (\<lambda>e. length (en_key e) + length (en_value e) + 32) es)"

lemma mem_size_simps [simp]:
  "mem_size [] = 0" "mem_size (e # es) = length (en_key e) + length (en_value e) + 32 + mem_size es"
  "mem_size (xs @ ys) = mem_size xs + mem_size ys"
  by (simp_all add: mem_size_def)

lemma mem_size_insort [simp]: "mem_size (insort_key f e es) = mem_size (e # es)"
  by (induction es) auto

lemma mem_size_sort [simp]: "mem_size (sort_key f es) = mem_size es"
  by (induction es) auto

lemma length_AppendEntry: "length (AppendEntry e) = length (en_key e) + length (en_value e) + 17"
  by (simp add: AppendEntry_def)

lemma block_le_mem: "length (block_bytes es) + 15 * length es = mem_size es"
  by (induction es) (simp_all add: length_AppendEntry)

lemma length_le_mem: "32 * length es \<le> mem_size es"
  by (induction es) auto

lemma subseq_mem_size: "subseq xs ys \<Longrightarrow> mem_size xs \<le> mem_size ys"
  by (induction rule: list_emb.induct) auto

lemma length_le_block17: "17 * length es \<le> length (block_bytes es)"
  by (induction es) (simp_all add: length_AppendEntry)

lemma table_small_mem:
  assumes "modest opts" and "mem_size es \<le> 10 * 2 ^ 24"
  shows "table_small (table_options opts) es"
proof -
  have "length es * opt_bloom_bits_per_key opts \<le> length es * 32" using assms(1) by (simp add: modest_def)
  also have "\<dots> \<le> mem_size es" using length_le_mem [of es] by simp
  finally have "length es * opt_bloom_bits_per_key opts \<le> 10 * 2 ^ 24" using assms(2) by simp
  moreover have "length (block_bytes es) \<le> 10 * 2 ^ 24" using block_le_mem [of es] assms(2) by simp
  ultimately show ?thesis by (simp add: table_small_def table_options_def)
qed

lemma table_small_cut:
  assumes "modest opts" and "\<forall>e\<in>set es. small_entry e"
    and "butlast es = [] \<or> length (block_bytes (butlast es)) < opt_max_output_file_bytes opts"
  shows "table_small (table_options opts) es"
proof (cases "es = []")
  case False
  have "length (block_bytes (butlast es)) \<le> 2 ^ 26" using assms(1,3) by (auto simp: modest_def)
  moreover have "es = butlast es @ [last es]" using False by simp
  then have "length (block_bytes es) = length (block_bytes (butlast es)) + length (AppendEntry (last es))"
    by (metis append_Nil2 block_bytes_simps length_append)
  moreover have "small_entry (last es)" using assms(2) False by simp
  then have "length (AppendEntry (last es)) \<le> 2 ^ 25 + 17" by (simp add: small_entry_def length_AppendEntry)
  ultimately have b: "length (block_bytes es) \<le> 2 ^ 26 + 2 ^ 25 + 17" by simp
  have "length es * opt_bloom_bits_per_key opts \<le> length es * 32" using assms(1) by (simp add: modest_def)
  also have "\<dots> \<le> 2 * length (block_bytes es)" using length_le_block17 [of es] by simp
  finally show ?thesis using b by (simp add: table_small_def table_options_def)
qed (simp add: table_small_def)

subsection \<open>The invariant\<close>

definition numbers_ok :: "DB \<Rightarrow> bool" where
  "numbers_ok db \<longleftrightarrow> distinct (map number_of (concat (db_version db))) \<and>
     (\<forall>h\<in>set (concat (db_version db)). number_of h < db_next_file db) \<and>
     sorted_wrt (\<lambda>a b. number_of b < number_of a) (hd (db_version db)) \<and>
     (\<forall>i<length (db_version db). \<forall>h\<in>set (db_version db ! i). tm_level (th_meta h) = int i)"

lemma numbers_ok_next:
  assumes "numbers_ok db" and "db_version db' = db_version db" and "db_next_file db \<le> db_next_file db'"
  shows "numbers_ok db'"
  using assms less_le_trans unfolding numbers_ok_def by metis

definition db_ok :: "DB \<Rightarrow> Entry list \<Rightarrow> Entry list list \<Rightarrow> Entry list list list \<Rightarrow> bool" where
  "db_ok db M Is Vs \<longleftrightarrow> rep db M Is Vs \<and> modest (db_options db) \<and> numbers_ok db \<and>
     (\<forall>e\<in>all_of M Is Vs. en_seqno e \<le> db_last_seq db \<and> small_entry e) \<and>
     mt_bytes (db_mem db) = mem_size M \<and> (\<forall>I\<in>set (M # Is). mem_size I \<le> 10 * 2 ^ 24)"

definition shows_all :: "Entry set \<Rightarrow> (bytes \<rightharpoonup> bytes) \<Rightarrow> bool" where
  "shows_all S h \<longleftrightarrow> (\<forall>k. shows_at S k (h k))"

lemma DB_Get_shows:
  assumes "db_ok db M Is Vs" and "shows_all (all_of M Is Vs) h" and "is_ok (db_bg_error db)"
  shows "DB_Get k db = (case h k of None \<Rightarrow> Inl (NotFound []) | Some v \<Rightarrow> Inr v)"
proof -
  have r: "rep db M Is Vs" using assms(1) by (simp add: db_ok_def)
  have "shows_at (all_of M Is Vs) k (shown (db_lookup k db))" by (rule rep_lookup [OF r])
  moreover have "shows_at (all_of M Is Vs) k (h k)" using assms(2) by (simp add: shows_all_def)
  ultimately have hk: "h k = shown (db_lookup k db)" using shows_at_unique [OF rep_coherent [OF r]] by blast
  show ?thesis
  proof (cases "db_lookup k db")
    case None
    then show ?thesis using assms(3) hk by (simp add: DB_Get_def shown_def)
  next
    case (Some e)
    then show ?thesis using assms(3) hk by (cases "en_op e") (simp_all add: DB_Get_def shown_def resolve_def)
  qed
qed

subsection \<open>A write\<close>

lemma shows_all_insert:
  assumes "shows_all S h" and "\<forall>b\<in>S. en_seqno b < en_seqno e"
  shows "shows_all (insert e S) (h(en_key e := shown (Some e)))"
  unfolding shows_all_def
proof
  fix k
  show "shows_at (insert e S) k ((h(en_key e := shown (Some e))) k)"
  proof (cases "k = en_key e")
    case True
    have "is_newest (insert e S) k e" using assms(2) True by (auto simp: is_newest_def intro: less_imp_le)
    then show ?thesis using shows_at_newest True by simp
  next
    case False
    then have n: "is_newest (insert e S) k b \<longleftrightarrow> is_newest S k b" for b by (auto simp: is_newest_def)
    have ex: "(\<exists>b\<in>insert e S. en_key b = k) \<longleftrightarrow> (\<exists>b\<in>S. en_key b = k)" using False by auto
    have "shows_at S k (h k)" using assms(1) by (simp add: shows_all_def)
    then show ?thesis using False unfolding shows_at_def n ex by simp
  qed
qed

lemma set_insort': "set (insort_key f x xs) = insert x (set xs)"
  by (rule set_insort_key)

lemma stack_ok_insort:
  assumes "stack_ok (M # ls)" and "\<forall>b\<in>\<Union> (set ` set (M # ls)). en_seqno b < en_seqno e"
  shows "stack_ok (insort_key ikey_of e M # ls)"
proof -
  have s: "stack_ok ls" "\<forall>m\<in>set ls. hides M m" "sorted_entries M" "coherent (set M \<union> \<Union> (set ` set ls))"
    using assms(1) by (simp_all add: stack_ok_Cons)
  have "hides (insort_key ikey_of e M) m" if "m \<in> set ls" for m
  proof -
    have "\<forall>b\<in>set m. en_seqno b < en_seqno e" using assms(2) that by auto
    moreover have "hides M m" using s(2) that by simp
    ultimately show ?thesis unfolding hides_def set_insort' by (metis insert_iff less_imp_le)
  qed
  moreover have "coherent (set (insort_key ikey_of e M) \<union> \<Union> (set ` set ls))"
  proof -
    have "en_seqno b \<noteq> en_seqno e" if "b \<in> set M \<union> \<Union> (set ` set ls)" for b
    proof -
      have "en_seqno b < en_seqno e" using assms(2) that by auto
      then show ?thesis by simp
    qed
    then show ?thesis using s(4) unfolding coherent_def set_insort' Un_insert_left by (metis insert_iff)
  qed
  moreover have "sorted_entries (insort_key ikey_of e M)" using s(3) by (simp add: sorted_insort_key)
  ultimately show ?thesis using s(1) by (simp add: stack_ok_Cons)
qed

text \<open>The entry that a write appends.\<close>

abbreviation new_entry :: "DB \<Rightarrow> Op \<Rightarrow> bytes \<Rightarrow> bytes \<Rightarrow> Entry" where
  "new_entry db op key val \<equiv> \<lparr>en_key = key, en_seqno = db_last_seq db + 1, en_op = op, en_value = val\<rparr>"

lemma db_ok_add:
  assumes ok: "db_ok db M Is Vs" and e: "small_entry e" "en_seqno e = db_last_seq db + 1" "db_last_seq db \<noteq> - 1"
    and room: "mt_bytes (db_mem db) \<le> 2 ^ 26"
    and m: "mem_holds m (insort_key ikey_of e M)" "mt_bytes m = mt_bytes (db_mem db) + (length (en_key e) + length (en_value e) + 32)"
  shows "db_ok (db\<lparr>db_last_seq := en_seqno e, db_mem := m\<rparr>) (insort_key ikey_of e M) Is Vs"
    and "all_of (insort_key ikey_of e M) Is Vs = insert e (all_of M Is Vs)"
    and "\<forall>b\<in>all_of M Is Vs. en_seqno b < en_seqno e"
proof -
  have r: "rep db M Is Vs" using ok by (simp add: db_ok_def)
  have lt: "db_last_seq db < en_seqno e" unfolding e(2) by (rule less_plus_1 [OF e(3)])
  then show newer: "\<forall>b\<in>all_of M Is Vs. en_seqno b < en_seqno e" using ok by (auto simp: db_ok_def)
  show all: "all_of (insort_key ikey_of e M) Is Vs = insert e (all_of M Is Vs)" by (auto simp: all_of_def set_insort')
  have L: "layers M Is Vs = M # tl (layers M Is Vs)" "layers (insort_key ikey_of e M) Is Vs = insort_key ikey_of e M # tl (layers M Is Vs)"
    by (simp_all add: layers_def)
  have "stack_ok (M # tl (layers M Is Vs))" using r L(1) by (simp add: rep_def)
  then have "stack_ok (layers (insort_key ikey_of e M) Is Vs)"
    unfolding L(2) by (rule stack_ok_insort) (use newer layers_set [OF rep_not_Nil [OF r], of M Is] L(1) in metis)
  then have "rep (db\<lparr>db_last_seq := en_seqno e, db_mem := m\<rparr>) (insort_key ikey_of e M) Is Vs"
    using r m(1) by (simp add: rep_def db_holds_def)
  moreover have "mem_size (insort_key ikey_of e M) \<le> 10 * 2 ^ 24"
    using room ok e(1) by (simp add: db_ok_def small_entry_def)
  ultimately show "db_ok (db\<lparr>db_last_seq := en_seqno e, db_mem := m\<rparr>) (insort_key ikey_of e M) Is Vs"
    using ok m(2) e(1) lt unfolding db_ok_def all by (auto simp: numbers_ok_def)
qed

lemma SwitchMemtable_fields:
  assumes "SwitchMemtable db w = (s, db', w')"
  shows "db_last_seq db' = db_last_seq db" "db_bg_error db' = db_bg_error db" "db_shutdown db' = db_shutdown db"
    "db_dir db' = db_dir db" "db_version db' = db_version db" "db_options db' = db_options db"
    "db_next_file db' = db_next_file db + 1"
    "db_mem db' = (if is_ok s then MemTable_new else db_mem db)"
    "db_imm db' = (if is_ok s then db_imm db @ [(db_mem db, db_wal_number db)] else db_imm db)"
    "db_wal_number db' = (if is_ok s then db_next_file db else db_wal_number db)"
  using assms by (auto simp: SwitchMemtable_def Let_def split: prod.splits if_splits)

lemma layers_switch: "layers [] (Is @ [M]) Vs = [] # layers M Is Vs"
  by (simp add: layers_def)

lemma SwitchMemtable_ok:
  assumes ok: "db_ok db M Is Vs" and s: "SwitchMemtable db w = (s, db', w')"
  shows "is_ok s \<Longrightarrow> db_ok db' [] (Is @ [M]) Vs"
    and "\<not> is_ok s \<Longrightarrow> db_ok db' M Is Vs"
    and "all_of [] (Is @ [M]) Vs = all_of M Is Vs"
proof -
  note F = SwitchMemtable_fields [OF s]
  have r: "rep db M Is Vs" using ok by (simp add: db_ok_def)
  have n: "numbers_ok db'" by (rule numbers_ok_next [of db]) (use ok F(5,7) in \<open>simp_all add: db_ok_def\<close>)
  show all: "all_of [] (Is @ [M]) Vs = all_of M Is Vs" by (auto simp: all_of_def)
  show "db_ok db' [] (Is @ [M]) Vs" if "is_ok s"
  proof -
    have "stack_ok (layers [] (Is @ [M]) Vs)"
      using r stack_coherent [of "layers M Is Vs"] unfolding layers_switch stack_ok_Cons by (simp add: rep_def hides_def)
    then have "rep db' [] (Is @ [M]) Vs"
      using r F that mem_holds_new by (simp add: rep_def db_holds_def list_all2_appendI)
    moreover have "mt_bytes (db_mem db') = mem_size []" using F(8) that by (simp add: MemTable_new_def)
    moreover have "\<forall>I\<in>set ([] # Is @ [M]). mem_size I \<le> 10 * 2 ^ 24" using ok by (auto simp: db_ok_def)
    ultimately show ?thesis using ok F n unfolding db_ok_def all by simp
  qed
  show "db_ok db' M Is Vs" if "\<not> is_ok s"
    using ok F n that r unfolding db_ok_def by (simp add: rep_def db_holds_def)
qed

text \<open>
  A write either does nothing to the contents, or adds its entry; it always returns, and when it
  reports success it has added the entry.
\<close>

definition wrote :: "DB \<Rightarrow> Entry \<Rightarrow> Entry list \<Rightarrow> Entry list list \<Rightarrow> Entry list list list \<Rightarrow> DB \<Rightarrow> bool" where
  "wrote db e M Is Vs db' \<longleftrightarrow> (\<exists>M' Is'. db_ok db' M' Is' Vs \<and> all_of M' Is' Vs = insert e (all_of M Is Vs)) \<and>
     db_last_seq db' = db_last_seq db + 1"

lemma write_entry_ok:
  assumes ok: "db_ok db M Is Vs" and e: "small_entry (new_entry db op key val)" "db_last_seq db \<noteq> - 1"
    and room: "mt_bytes (db_mem db) \<le> 2 ^ 26"
  shows "\<exists>s db' w'. write_entry rng op key val db w = Some (s, db', w') \<and>
     (if is_ok s then wrote db (new_entry db op key val) M Is Vs db'
      else db' = db \<or> wrote db (new_entry db op key val) M Is Vs db')"
proof (cases "is_ok (db_bg_error db) \<and> \<not> db_shutdown db")
  case False
  then show ?thesis by (auto simp: write_entry_def)
next
  case True
  let ?e = "new_entry db op key val" and ?p = "WalPath (db_dir db) (db_wal_number db)"
  obtain s1 w1 where a: "WalWriter_Append ?p ?e w = (s1, w1)" by fastforce
  obtain s2 w2 where b: "(if is_ok s1 \<and> opt_fsync_writes (db_options db) then WalWriter_Sync ?p w1 else (s1, w1)) = (s2, w2)" by fastforce
  have "mem_holds (db_mem db) M" using ok by (simp add: db_ok_def rep_def db_holds_def)
  then obtain m where m: "MemTable_Add rng (db_last_seq db + 1) op key val (db_mem db) = Some m"
      "mem_holds m (insort_key ikey_of ?e M)" "mt_bytes m = mt_bytes (db_mem db) + (length key + length val + 32)"
    using mem_holds_Add by blast
  define db1 where "db1 = db\<lparr>db_last_seq := en_seqno ?e, db_mem := m\<rparr>"
  have d1: "db_ok db1 (insort_key ikey_of ?e M) Is Vs" "all_of (insort_key ikey_of ?e M) Is Vs = insert ?e (all_of M Is Vs)"
    using db_ok_add [OF ok e(1) _ e(2) room m(2)] m(3) by (simp_all add: db1_def)
  have w1: "wrote db ?e M Is Vs db1" unfolding wrote_def using d1 by (auto simp: db1_def)
  have eq: "write_entry rng op key val db w =
      (if \<not> is_ok s2 then Some (s2, db, w2)
       else Some (if mt_bytes m \<ge> opt_write_buffer_size (db_options db)
         then (case SwitchMemtable db1 w2 of (s, db, w3) \<Rightarrow> if is_ok s then (OK, db, w3) else (s, db, w3))
         else (OK, db1, w2)))"
    using True a b m(1) unfolding write_entry_def Let_def db1_def by simp
  show ?thesis
  proof (cases "is_ok s2 \<and> mt_bytes m \<ge> opt_write_buffer_size (db_options db)")
    case sw: True
    obtain s3 db3 w3 where s: "SwitchMemtable db1 w2 = (s3, db3, w3)" by (metis prod_cases3)
    have "wrote db ?e M Is Vs db3"
    proof (cases "is_ok s3")
      case True
      from SwitchMemtable_ok(1) [OF d1(1) s True] SwitchMemtable_ok(3) [OF d1(1) s] d1(2) SwitchMemtable_fields(1) [OF s]
      show ?thesis unfolding wrote_def by (auto simp: db1_def)
    next
      case False
      from SwitchMemtable_ok(2) [OF d1(1) s False] d1(2) SwitchMemtable_fields(1) [OF s]
      show ?thesis unfolding wrote_def by (auto simp: db1_def)
    qed
    then show ?thesis using eq sw s by (auto simp: split_def)
  next
    case False
    then show ?thesis using eq w1 by auto
  qed
qed

subsection \<open>Survivors are the newest versions\<close>

lemma survivors_iff:
  assumes "sorted_entries es" and "prev = None \<or> (\<forall>e\<in>set es. the prev \<le> en_key e)"
  shows "e \<in> set (survivors gone prev es) \<longleftrightarrow> find_key (en_key e) es = Some e \<and> \<not> gone e \<and> prev \<noteq> Some (en_key e)"
  using assms
proof (induction gone prev es rule: survivors.induct)
  case (2 gone prev x es)
  have s: "sorted_entries es" using 2(3) by simp
  have low: "\<forall>e\<in>set es. en_key x \<le> en_key e"
  proof
    fix e assume "e \<in> set es"
    then show "en_key x \<le> en_key e" using key_range(1) [OF 2(3), of e] by simp
  qed
  show ?case
  proof (cases "prev = Some (en_key x)")
    case True
    have "e \<in> set (survivors gone prev es) \<longleftrightarrow> find_key (en_key e) es = Some e \<and> \<not> gone e \<and> prev \<noteq> Some (en_key e)"
      by (rule 2(1) [OF True s]) (use True low in simp)
    then show ?thesis using True by auto
  next
    case False
    have IH: "e \<in> set (survivors gone (Some (en_key x)) es) \<longleftrightarrow>
        find_key (en_key e) es = Some e \<and> \<not> gone e \<and> Some (en_key x) \<noteq> Some (en_key e)"
      by (rule 2(2) [OF False s]) (use low in simp)
    have pe: "prev \<noteq> Some (en_key e)" if "find_key (en_key e) es = Some e" "en_key x \<noteq> en_key e"
    proof
      assume p: "prev = Some (en_key e)"
      then have "en_key e \<le> en_key x" using 2(4) p by simp
      moreover have "en_key x \<le> en_key e" using low find_key_SomeD [OF that(1)] by blast
      ultimately show False using that(2) by simp
    qed
    show ?thesis
    proof (cases "en_key x = en_key e")
      case True
      then show ?thesis using IH False by auto
    next
      case neq: False
      then show ?thesis using IH False pe by auto
    qed
  qed
qed simp

lemma survivors_sorted:
  assumes "sorted_entries es"
  shows "sorted_wrt (\<lambda>a b. en_key a < en_key b) (survivors gone prev es)"
  using assms
proof (induction gone prev es rule: survivors.induct)
  case (2 gone prev x es)
  have s: "sorted_entries es" using 2(3) by simp
  have low: "Some (en_key x) = None \<or> (\<forall>e\<in>set es. the (Some (en_key x)) \<le> en_key e)"
    using key_range(1) [OF 2(3)] by simp
  have "en_key x < en_key e" if "e \<in> set (survivors gone (Some (en_key x)) es)" for e
  proof -
    have "find_key (en_key e) es = Some e" "en_key x \<noteq> en_key e" using survivors_iff [OF s low, of e gone] that by simp_all
    from this(2) find_key_SomeD [OF this(1)] show ?thesis using key_range(1) [OF 2(3), of e] by simp
  qed
  then show ?case using 2(1,2) s by auto
qed simp

lemma survivors_subset: "set (survivors gone prev es) \<subseteq> set es"
  by (induction gone prev es rule: survivors.induct) auto

text \<open>Cut into tables, they are separated by their keys.\<close>

lemma cut_separated:
  assumes "sorted_wrt (\<lambda>a b. en_key a < en_key b) (concat oss)" and "\<forall>c\<in>set oss. c \<noteq> []"
  shows "level_ok oss"
  using assms
proof (induction oss)
  case (Cons c oss)
  have "en_key (last c) < en_key (hd d)" if "d \<in> set oss" for d
  proof -
    have "hd d \<in> set d" "last c \<in> set c" using Cons.prems(2) that by auto
    then show ?thesis using Cons.prems(1) that by (simp add: sorted_wrt_append)
  qed
  then show ?case using Cons by (simp add: level_ok_def sorted_wrt_append)
qed (simp add: level_ok_def)

lemma strict_sorted_entries: "sorted_wrt (\<lambda>a b. en_key a < en_key b) es \<Longrightarrow> sorted_entries es"
  by (induction es) (auto simp: ikey_of_def le_IKey)

text \<open>Dropping versions that are not the newest, and tombstones that hide nothing, shows the same.\<close>

lemma shows_all_subset:
  assumes h: "shows_all S h" and sub: "T \<subseteq> S"
    and keep: "\<And>k e. is_newest S k e \<Longrightarrow> e \<in> T \<or> en_op e \<noteq> kPut \<and> (\<forall>b\<in>T. en_key b \<noteq> k)"
  shows "shows_all T h"
  unfolding shows_all_def
proof
  fix k
  have hk: "shows_at S k (h k)" using h by (simp add: shows_all_def)
  show "shows_at T k (h k)"
  proof (cases "\<exists>e\<in>S. en_key e = k")
    case True
    then obtain e where e: "is_newest S k e" "h k = shown (Some e)" using hk by (auto simp: shows_at_def)
    from keep [OF e(1)] show ?thesis
    proof
      assume "e \<in> T"
      then have "is_newest T k e" using e(1) sub by (auto simp: is_newest_def)
      then show ?thesis unfolding e(2) by (rule shows_at_newest)
    next
      assume "en_op e \<noteq> kPut \<and> (\<forall>b\<in>T. en_key b \<noteq> k)"
      then show ?thesis unfolding e(2) using shows_at_none by (simp add: shown_def)
    qed
  next
    case False
    then have "h k = None" "\<forall>e\<in>T. en_key e \<noteq> k" using hk sub by (auto simp: shows_at_def)
    then show ?thesis using shows_at_none by simp
  qed
qed

lemma newest_survives:
  assumes "is_newest S (en_key e) e" and "e \<in> set es" and "set es \<subseteq> S" and "sorted_entries es" and "coherent S" and "\<not> gone e"
  shows "e \<in> set (survivors gone None es)"
proof -
  have "is_newest (set es) (en_key e) e" using assms(1-3) by (auto simp: is_newest_def)
  moreover have "coherent (set es)" using assms(3,5) unfolding coherent_def by blast
  ultimately have "find_key (en_key e) es = Some e" using find_key_iff [OF assms(4)] by blast
  then show ?thesis using survivors_iff [OF assms(4), of None e gone] assms(6) by simp
qed

end
