(* ===== verification/DBFlush.thy ===== *)
theory DBFlush
  imports DBInv
begin

text \<open>
  Flushing a memtable to level 0.  The oldest waiting memtable becomes the newest tables of level
  0; older versions of its keys are left out, and what is shown for every key stays.
\<close>

subsection \<open>Layers\<close>

text \<open>A part of a layer that keeps the newest version of each of its keys.\<close>

definition retains :: "Entry list \<Rightarrow> Entry list \<Rightarrow> bool" where
  "retains P A \<longleftrightarrow> set P \<subseteq> set A \<and> (\<forall>p\<in>set P. \<forall>a\<in>set A. en_key a = en_key p \<longrightarrow>
     (\<exists>x\<in>set P. en_key x = en_key a \<and> en_seqno a \<le> en_seqno x))"

lemma hides_retain:
  assumes "hides A B" and "retains P A" and "set B' \<subseteq> set B"
  shows "hides P B'"
  unfolding hides_def
proof (intro ballI impI)
  fix b p assume b: "b \<in> set B'" "p \<in> set P" "en_key p = en_key b"
  then obtain x where x: "x \<in> set A" "en_key x = en_key b" "en_seqno b \<le> en_seqno x"
    using assms unfolding hides_def retains_def by blast
  then obtain y where "y \<in> set P" "en_key y = en_key x" "en_seqno x \<le> en_seqno y"
    using assms(2) b unfolding retains_def by metis
  then show "\<exists>x\<in>set P. en_key x = en_key b \<and> en_seqno b \<le> en_seqno x" using x by (metis order_trans)
qed

lemma retains_refl [simp]: "retains A A"
  by (auto simp: retains_def)

lemma hides_sub: "hides A B \<Longrightarrow> set B' \<subseteq> set B \<Longrightarrow> hides A B'"
  by (rule hides_retain [OF _ retains_refl])

definition key_disjoint :: "Entry list \<Rightarrow> Entry list \<Rightarrow> bool" where
  "key_disjoint A B \<longleftrightarrow> (\<forall>a\<in>set A. \<forall>b\<in>set B. en_key a \<noteq> en_key b)"

lemma stack_ok_append:
  "stack_ok (A @ B) \<longleftrightarrow> stack_ok A \<and> stack_ok B \<and> (\<forall>a\<in>set A. \<forall>b\<in>set B. hides a b) \<and>
     coherent (\<Union> (set ` set A) \<union> \<Union> (set ` set B))"
proof -
  let ?U = "\<Union> (set ` set A) \<union> \<Union> (set ` set B)"
  have "coherent ?U \<Longrightarrow> coherent (\<Union> (set ` set A))" "coherent ?U \<Longrightarrow> coherent (\<Union> (set ` set B))"
    by (erule coherent_mono, blast)+
  then show ?thesis by (simp add: stack_ok_def sorted_wrt_append image_Un ball_Un) blast
qed

text \<open>A layer may be replaced by parts of it with different keys.\<close>

lemma stack_replace:
  assumes "stack_ok (A @ I # B)" and "\<forall>p\<in>set P. retains p I \<and> sorted_entries p" and "sorted_wrt key_disjoint P"
  shows "stack_ok (A @ P @ B)"
proof -
  have s: "stack_ok A" "stack_ok (I # B)" "\<forall>a\<in>set A. \<forall>b\<in>set (I # B). hides a b"
    "coherent (\<Union> (set ` set A) \<union> \<Union> (set ` set (I # B)))"
    using assms(1) by (auto simp: stack_ok_append)
  have i: "stack_ok B" "\<forall>b\<in>set B. hides I b" using s(2) by (simp_all add: stack_ok_Cons)
  have sub: "\<Union> (set ` set P) \<subseteq> set I" using assms(2) unfolding retains_def by blast
  have c: "coherent (\<Union> (set ` set A) \<union> (\<Union> (set ` set P) \<union> \<Union> (set ` set B)))"
    by (rule coherent_mono [OF s(4)]) (use sub in auto)
  have "sorted_wrt hides P" by (rule sorted_wrt_mono_rel [OF _ assms(3)]) (auto simp: key_disjoint_def hides_def)
  then have "stack_ok P" using assms(2) coherent_mono [OF c] unfolding stack_ok_def by blast
  moreover have "\<forall>a\<in>set A. \<forall>p\<in>set P. hides a p"
  proof (intro ballI)
    fix a p assume "a \<in> set A" "p \<in> set P"
    then show "hides a p" using hides_sub [of a I p] s(3) assms(2) by (simp add: retains_def)
  qed
  moreover have "\<forall>p\<in>set P. \<forall>b\<in>set B. hides p b"
  proof (intro ballI)
    fix p b assume "p \<in> set P" "b \<in> set B"
    then show "hides p b" using hides_retain [of I b p b] i(2) assms(2) by simp
  qed
  moreover have "stack_ok (P @ B)"
    using calculation i(1) coherent_mono [OF c] by (simp add: stack_ok_append)
  moreover have "\<forall>a\<in>set A. \<forall>b\<in>set (P @ B). hides a b" using calculation(2) s(3) by auto
  ultimately show ?thesis using s(1) c by (simp add: stack_ok_append [of A])
qed

lemma level_ok_disjoint:
  assumes "level_ok L" and "\<forall>l\<in>set L. sorted_entries l"
  shows "sorted_wrt key_disjoint L"
  using assms
proof (induction L)
  case (Cons l L)
  have "key_disjoint l m" if "m \<in> set L" for m
  proof -
    have "en_key (last l) < en_key (hd m)" using Cons.prems(1) that by (simp add: level_ok_def)
    then show ?thesis
      unfolding key_disjoint_def
    proof (intro ballI)
      fix a b assume "a \<in> set l" "b \<in> set m"
      then have "en_key a \<le> en_key (last l)" "en_key (hd m) \<le> en_key b"
        using key_range(2) [of l a] key_range(1) [of m b] Cons.prems(2) that by simp_all
      then show "en_key a \<noteq> en_key b" using \<open>en_key (last l) < en_key (hd m)\<close> by auto
    qed
  qed
  then show ?case using Cons by (simp add: level_ok_def)
qed simp

lemma key_disjoint_rev: "sorted_wrt key_disjoint (rev L) \<longleftrightarrow> sorted_wrt key_disjoint L"
proof -
  have "key_disjoint a b \<longleftrightarrow> key_disjoint b a" for a b unfolding key_disjoint_def by metis
  then show ?thesis unfolding sorted_wrt_rev by simp
qed

subsection \<open>The new level 0\<close>

lemma desc_distinct: "sorted_wrt (\<lambda>a b. f b < f a) xs \<Longrightarrow> distinct (map f xs)" for f :: "'a \<Rightarrow> nat"
  by (induction xs) auto

lemma SortLevel_0:
  assumes "sorted_wrt (\<lambda>a b. number_of b < number_of a) hs" and "\<forall>h\<in>set hs. number_of h < n" and "numbered n m outs"
  shows "SortLevel 0 (hs @ outs) = rev outs @ hs"
proof -
  let ?f = "\<lambda>h. - int (number_of h)"
  have o: "sorted_wrt (\<lambda>a b. number_of a < number_of b) outs" "\<forall>h\<in>set outs. n \<le> number_of h"
    using assms(3) by (auto simp: numbered_def sorted_wrt_map)
  have srt: "sorted_wrt (\<lambda>a b. number_of b < number_of a) (rev outs @ hs)"
  proof -
    have "number_of b < number_of a" if "a \<in> set outs" "b \<in> set hs" for a b
      using o(2) assms(2) that by (meson less_le_trans)
    then show ?thesis using o(1) assms(1) by (simp add: sorted_wrt_append sorted_wrt_rev)
  qed
  have "inj_on number_of (set (rev outs @ hs))" using desc_distinct [OF srt] by (simp only: distinct_map)
  then have "inj_on ?f (set (rev outs @ hs))" by (simp add: inj_on_def)
  moreover have "sorted (map ?f (rev outs @ hs))"
    unfolding sorted_map by (rule sorted_wrt_mono_rel [OF _ srt]) simp
  ultimately have "sort_key ?f (hs @ outs) = rev outs @ hs"
    by (intro sort_key_inj_key_eq) (auto simp: Un_commute)
  then show ?thesis by (simp add: SortLevel_def)
qed

lemma survivors_retain:
  assumes "sorted_entries I" and "p \<in> set oss" and "concat oss = survivors gone None I"
  shows "retains p I"
  unfolding retains_def
proof (intro conjI ballI impI)
  have sub: "set p \<subseteq> set (survivors gone None I)" using assms(2,3) by (auto simp flip: assms(3))
  then show "set p \<subseteq> set I" using survivors_subset by blast
  fix x a assume x: "x \<in> set p" and a: "a \<in> set I" "en_key a = en_key x"
  have "find_key (en_key x) I = Some x" using survivors_iff [OF assms(1), of None x gone] sub x by auto
  from find_key_newest [OF assms(1) this] have "en_seqno a \<le> en_seqno x" using a by (simp add: is_newest_def)
  then show "\<exists>x\<in>set p. en_key x = en_key a \<and> en_seqno a \<le> en_seqno x" using x a(2) by auto
qed

lemma droppable_0: "droppable 0 base = (\<lambda>_. False)"
  by (simp add: droppable_def fun_eq_iff)

lemma output_handles: "list_all2 (output_ok dir level w) hs oss \<Longrightarrow> list_all2 handle_ok hs oss"
  by (erule list_all2_mono) (simp add: output_ok_def)

lemma numbers_ok_flush:
  assumes "numbers_ok db" and v: "db_version db = hs # vt" and n: "numbered (db_next_file db) n outs" "db_next_file db \<le> n"
    and lv: "\<forall>h\<in>set outs. tm_level (th_meta h) = 0"
    and db': "db_version db' = (rev outs @ hs) # vt" "db_next_file db' = n"
  shows "numbers_ok db'"
proof -
  have old: "distinct (map number_of (concat (hs # vt)))" "\<forall>h\<in>set (concat (hs # vt)). number_of h < db_next_file db"
    "sorted_wrt (\<lambda>a b. number_of b < number_of a) hs" "\<forall>i<length (hs # vt). \<forall>h\<in>set ((hs # vt) ! i). tm_level (th_meta h) = int i"
    using assms(1) by (simp_all add: numbers_ok_def v)
  have o: "sorted_wrt (\<lambda>a b. number_of a < number_of b) outs" "\<forall>h\<in>set outs. db_next_file db \<le> number_of h \<and> number_of h < n"
    using n(1) by (auto simp: numbered_def sorted_wrt_map)
  then have "distinct (map number_of (rev outs))" using desc_distinct [of number_of "rev outs"] by (simp add: sorted_wrt_rev)
  moreover have "number_of ` set (rev outs) \<inter> number_of ` set (concat (hs # vt)) = {}"
  proof -
    have "number_of a \<noteq> number_of b" if "a \<in> set outs" "b \<in> set (concat (hs # vt))" for a b
      using o(2) old(2) that by (metis leD)
    then show ?thesis by auto
  qed
  ultimately have 1: "distinct (map number_of (concat ((rev outs @ hs) # vt)))"
    using old(1) by (simp add: distinct_append image_Un)
  have 2: "\<forall>h\<in>set (concat ((rev outs @ hs) # vt)). number_of h < n"
    using old(2) o(2) n(2) by (auto intro: less_le_trans)
  have lt: "number_of b < number_of a" if "a \<in> set outs" "b \<in> set hs" for a b
    using o(2) old(2) that by (metis UnCI concat.simps(2) le_less_trans not_le set_append)
  have 3: "sorted_wrt (\<lambda>a b. number_of b < number_of a) (rev outs @ hs)"
    using o(1) old(3) lt by (simp add: sorted_wrt_append sorted_wrt_rev)
  have 4: "\<forall>i<length ((rev outs @ hs) # vt). \<forall>h\<in>set (((rev outs @ hs) # vt) ! i). tm_level (th_meta h) = int i"
    using old(4) lv by (auto simp: nth_Cons split: nat.splits)
  show ?thesis using 1 2 3 4 unfolding numbers_ok_def db' by simp
qed

lemma version_split:
  assumes "rep db M Is Vs"
  obtains hs vt where "db_version db = hs # vt" "list_all handle_fine hs" "list_all (list_all handle_fine) vt"
    "Vs = map entries_of hs # map (map entries_of) vt" "length vt = 6"
proof -
  have v: "list_all (list_all handle_fine) (db_version db)" "Vs = map (map entries_of) (db_version db)" "length Vs = 7"
    using assms by (auto simp: rep_def db_holds_def version_ok_iff kNumLevels_def)
  then obtain hs vt where "db_version db = hs # vt" by (cases "db_version db") auto
  then show ?thesis using v by (intro that [of hs vt]) simp_all
qed

text \<open>The contents after a flush of the oldest waiting memtable.\<close>

lemma flush_contents:
  assumes ok: "db_ok db M (I # Is) Vs" and imm: "db_imm db = (m, wn) # imm"
    and outs: "list_all2 (output_ok dir 0 w) hs oss" "numbered (db_next_file db) n hs" "db_next_file db \<le> n"
    and surv: "concat oss = survivors (\<lambda>_. False) None I"
    and db': "db' = db\<lparr>db_next_file := n, db_version := (db_version db)[0 := SortLevel 0 (db_version db ! 0 @ hs)], db_imm := imm\<rparr>"
  shows "\<exists>Vs'. db_ok db' M Is Vs' \<and> all_of M Is Vs' \<subseteq> all_of M (I # Is) Vs \<and>
    (\<forall>h. shows_all (all_of M (I # Is) Vs) h \<longrightarrow> shows_all (all_of M Is Vs') h)"
proof -
  have r: "rep db M (I # Is) Vs" and num: "numbers_ok db" using ok by (simp_all add: db_ok_def)
  obtain h0 vt where v: "db_version db = h0 # vt" "list_all handle_fine h0" "list_all (list_all handle_fine) vt"
      "Vs = map entries_of h0 # map (map entries_of) vt" "length vt = 6"
    using version_split [OF r] .
  have sort: "SortLevel 0 (h0 @ hs) = rev hs @ h0"
    by (rule SortLevel_0 [OF _ _ outs(2)]) (use num in \<open>auto simp: numbers_ok_def v(1)\<close>)
  have dv: "db_version db' = (rev hs @ h0) # vt" by (simp add: db' v(1) sort)
  have fine: "list_all handle_fine hs" "oss = map entries_of hs"
    using output_handles [OF outs(1)] by (simp_all add: handles_ok_iff)
  define Vs' where "Vs' = (rev oss @ map entries_of h0) # map (map entries_of) vt"
  have Vs': "Vs' = map (map entries_of) (db_version db')" by (simp add: Vs'_def dv fine(2) rev_map)
  have I: "sorted_entries I" "set I \<subseteq> all_of M (I # Is) Vs"
    using r by (auto simp: rep_def layers_def stack_ok_def all_of_def)
  have sub: "set (concat oss) \<subseteq> set I" unfolding surv by (rule survivors_subset)
  have strict: "sorted_wrt (\<lambda>a b. en_key a < en_key b) (concat oss)" unfolding surv by (rule survivors_sorted [OF I(1)])
  have ne: "\<forall>c\<in>set oss. c \<noteq> [] \<and> sorted_entries c"
    using list_all2_handle(3) [OF output_handles [OF outs(1)]] by blast
  have dis: "sorted_wrt key_disjoint (rev oss)"
    using level_ok_disjoint [OF cut_separated [OF strict]] ne key_disjoint_rev by blast
  have parts: "\<forall>p\<in>set (rev oss). retains p I \<and> sorted_entries p"
    using survivors_retain [OF I(1) _ surv] ne by simp
  have L: "layers M (I # Is) Vs = (M # rev Is) @ I # map entries_of h0 @ map concat (map (map entries_of) vt)"
    "layers M Is Vs' = (M # rev Is) @ rev oss @ map entries_of h0 @ map concat (map (map entries_of) vt)"
    by (simp_all add: layers_def v(4) Vs'_def)
  have "stack_ok (layers M Is Vs')"
    unfolding L(2) by (rule stack_replace [OF _ parts dis]) (use r L(1) in \<open>simp add: rep_def\<close>)
  moreover have "list_all (list_all handle_fine) (db_version db')" using fine(1) v(2,3) by (simp add: dv list_all_rev)
  ultimately have r': "rep db' M Is Vs'"
    using r imm unfolding rep_def db_holds_def version_ok_iff Vs' by (auto simp: dv v(1,5) db' kNumLevels_def)
  have all: "all_of M (I # Is) Vs = set I \<union> (set M \<union> set (concat Is) \<union> set (concat (concat Vs)))"
    "all_of M Is Vs' = set (concat oss) \<union> (set M \<union> set (concat Is) \<union> set (concat (concat Vs)))"
    by (auto simp: all_of_def v(4) Vs'_def)
  have subset: "all_of M Is Vs' \<subseteq> all_of M (I # Is) Vs" unfolding all using sub by blast
  have lv: "\<forall>h\<in>set hs. tm_level (th_meta h) = 0"
    using outs(1) by (auto simp: list_all2_conv_all_nth in_set_conv_nth output_ok_def)
  have "numbers_ok db'"
    by (rule numbers_ok_flush [OF num v(1) outs(2,3) lv dv]) (simp add: db')
  then have "db_ok db' M Is Vs'"
    using ok r' subset unfolding db_ok_def by (auto simp: db')
  moreover have "shows_all (all_of M Is Vs') h" if "shows_all (all_of M (I # Is) Vs) h" for h
  proof (rule shows_all_subset [OF that subset])
    fix k e
    assume n: "is_newest (all_of M (I # Is) Vs) k e"
    show "e \<in> all_of M Is Vs' \<or> en_op e \<noteq> kPut \<and> (\<forall>b\<in>all_of M Is Vs'. en_key b \<noteq> k)"
    proof (cases "e \<in> set I")
      case True
      have "is_newest (all_of M (I # Is) Vs) (en_key e) e" using n by (simp add: is_newest_def)
      from newest_survives [OF this True I(2,1) rep_coherent [OF r], of "\<lambda>_. False"]
      show ?thesis unfolding all(2) surv by simp
    next
      case False
      then show ?thesis using n unfolding all is_newest_def by blast
    qed
  qed
  ultimately show ?thesis using subset by blast
qed

text \<open>The call of \<open>BuildTableFromIterator\<close> in a flush.\<close>

lemma flush_build:
  assumes "mem_holds m I" and "modest opts" and "mem_size I \<le> 10 * 2 ^ 24"
  shows "\<exists>st. BuildTableFromIterator mem_ops opts dir (mem_NewIterator m) 0 base max_bytes n w = Some st \<and>
    build_result dir 0 n w st (survivors (\<lambda>_. False) None I)"
proof -
  have srt: "sorted_entries I" by (rule mem_holds_sorted [OF assms(1)])
  have "pieces_ok opts max_bytes (survivors (\<lambda>_. False) None I)"
    unfolding pieces_ok_def
  proof (intro conjI allI impI)
    show "sorted_entries (survivors (\<lambda>_. False) None I)" by (rule strict_sorted_entries [OF survivors_sorted [OF srt]])
    fix ys
    assume "sublist ys (survivors (\<lambda>_. False) None I) \<and> (butlast ys = [] \<or> length (block_bytes (butlast ys)) < max_bytes)"
    then have "subseq ys I" using subseq_survivors by (blast intro: sublist_imp_subseq subseq_order.trans)
    then show "table_small (table_options opts) ys"
      using subseq_mem_size assms(3) by (intro table_small_mem [OF assms(2)]) (meson le_trans)
  qed
  then show ?thesis
    using mem_iterator.build_table [OF mem_holds_iter [OF assms(1)], where level = 0 and base = base] unfolding droppable_0 by blast
qed

end
