(* ===== verification/DBCompact.thy ===== *)
theory DBCompact
  imports DBFlush
begin

text \<open>
  Compactions.  \<open>PickCompaction\<close> chooses tables of one level and all tables of the next one that
  overlap their range; \<open>DoCompaction\<close> replaces them by tables with the newest versions.  The tables
  of a level stay separated by their keys, and what is shown for every key stays.
\<close>

subsection \<open>Separated tables\<close>

definition sep :: "TableHandle \<Rightarrow> TableHandle \<Rightarrow> bool" where
  "sep a b \<longleftrightarrow> tm_largest (th_meta a) < tm_smallest (th_meta b) \<or> tm_largest (th_meta b) < tm_smallest (th_meta a)"

lemma fine_bounds:
  assumes "handle_fine h"
  shows "tm_smallest (th_meta h) = en_key (hd (entries_of h))" "tm_largest (th_meta h) = en_key (last (entries_of h))"
    "entries_of h \<noteq> []" "sorted_entries (entries_of h)" "tm_smallest (th_meta h) \<le> tm_largest (th_meta h)"
proof -
  have h: "handle_ok h (entries_of h)" using assms by (simp add: handle_fine_def)
  then show b: "tm_smallest (th_meta h) = en_key (hd (entries_of h))" "tm_largest (th_meta h) = en_key (last (entries_of h))"
    "entries_of h \<noteq> []" by (simp_all add: handle_ok_def)
  show "sorted_entries (entries_of h)" using handle_okD [OF h] by simp
  show "tm_smallest (th_meta h) \<le> tm_largest (th_meta h)"
    using handle_okE [OF h, of "hd (entries_of h)"] b(3) by (metis hd_in_set order_trans)
qed

lemma fine_range:
  assumes "handle_fine h" and "e \<in> set (entries_of h)"
  shows "tm_smallest (th_meta h) \<le> en_key e" "en_key e \<le> tm_largest (th_meta h)"
  using handle_okE [of h "entries_of h" e] assms by (simp_all add: handle_fine_def)

lemma level_ok_handles:
  assumes "list_all handle_fine hs"
  shows "level_ok (map entries_of hs) \<longleftrightarrow> sorted_wrt (\<lambda>a b. tm_largest (th_meta a) < tm_smallest (th_meta b)) hs"
  using assms
proof (induction hs)
  case (Cons h hs)
  have "en_key (last (entries_of h)) < en_key (hd (entries_of g)) \<longleftrightarrow> tm_largest (th_meta h) < tm_smallest (th_meta g)"
    if "g \<in> set hs" for g
    using fine_bounds(1) [of g] fine_bounds(2) [of h] Cons.prems that by (simp add: list_all_iff)
  then show ?case using Cons by (simp add: level_ok_def)
qed (simp add: level_ok_def)

lemma level_sorted:
  assumes "list_all handle_fine hs" and "level_ok (map entries_of hs)"
  shows "sorted (map (\<lambda>h. tm_smallest (th_meta h)) hs)"
  using assms
proof (induction hs)
  case (Cons h hs)
  have "tm_smallest (th_meta h) \<le> tm_smallest (th_meta g)" if "g \<in> set hs" for g
  proof -
    have "tm_largest (th_meta h) < tm_smallest (th_meta g)"
      using Cons.prems that level_ok_handles [OF Cons.prems(1)] by simp
    moreover have "tm_smallest (th_meta h) \<le> tm_largest (th_meta h)" using fine_bounds(5) Cons.prems(1) by simp
    ultimately show ?thesis by simp
  qed
  then show ?case using Cons by (simp add: level_ok_def)
qed simp

lemma level_sep:
  assumes "list_all handle_fine hs" and "level_ok (map entries_of hs)" and "a \<in> set hs" "b \<in> set hs" "a \<noteq> b"
  shows "sep a b"
  using assms
proof (induction hs)
  case (Cons h hs)
  have "\<forall>g\<in>set hs. tm_largest (th_meta h) < tm_smallest (th_meta g)"
    using Cons.prems level_ok_handles [OF Cons.prems(1)] by simp
  then show ?case using Cons by (auto simp: sep_def level_ok_def)
qed simp

lemma sep_keys:
  assumes "handle_fine a" "handle_fine b" "sep a b" "x \<in> set (entries_of a)" "y \<in> set (entries_of b)"
  shows "en_key x \<noteq> en_key y"
proof
  assume "en_key x = en_key y"
  moreover have "tm_smallest (th_meta a) \<le> en_key x" "en_key x \<le> tm_largest (th_meta a)"
    "tm_smallest (th_meta b) \<le> en_key y" "en_key y \<le> tm_largest (th_meta b)"
    using fine_range assms by blast+
  ultimately show False using assms(3) unfolding sep_def by (metis leD order_trans)
qed

lemma level_same_table:
  assumes "list_all handle_fine hs" "level_ok (map entries_of hs)" "a \<in> set hs" "b \<in> set hs"
    "x \<in> set (entries_of a)" "y \<in> set (entries_of b)" "en_key x = en_key y"
  shows "a = b"
  using level_sep [OF assms(1-4)] sep_keys [OF _ _ _ assms(5,6)] assms(1,3,4,7) by (auto simp: list_all_iff)

text \<open>Sorting separated tables by their first key makes a level.\<close>

lemma sort_separated:
  assumes "list_all handle_fine hs" and "distinct hs" and "\<And>a b. a \<in> set hs \<Longrightarrow> b \<in> set hs \<Longrightarrow> a \<noteq> b \<Longrightarrow> sep a b"
  shows "level_ok (map entries_of (sort_key (\<lambda>h. tm_smallest (th_meta h)) hs))"
proof -
  define gs where "gs = sort_key (\<lambda>h. tm_smallest (th_meta h)) hs"
  have g: "set gs = set hs" "distinct gs" "sorted (map (\<lambda>h. tm_smallest (th_meta h)) gs)"
    using assms(2) by (simp_all add: gs_def)
  have fine: "list_all handle_fine gs" using assms(1) g(1) by (simp add: list_all_iff)
  have "tm_largest (th_meta (gs ! i)) < tm_smallest (th_meta (gs ! j))" if "i < j" "j < length gs" for i j
  proof -
    have m: "gs ! i \<in> set hs" "gs ! j \<in> set hs" "gs ! i \<noteq> gs ! j"
      using that g(1,2) by (auto simp: nth_eq_iff_index_eq simp flip: g(1))
    have "tm_smallest (th_meta (gs ! i)) \<le> tm_smallest (th_meta (gs ! j))"
      using g(3) that by (simp add: sorted_iff_nth_mono)
    moreover have "tm_smallest (th_meta (gs ! j)) \<le> tm_largest (th_meta (gs ! j))"
      using fine_bounds(5) m(2) assms(1) by (simp add: list_all_iff)
    ultimately show ?thesis using assms(3) [OF m] unfolding sep_def by (metis leD order_trans)
  qed
  then have "level_ok (map entries_of gs)"
    unfolding level_ok_handles [OF fine] by (simp add: sorted_wrt_iff_nth_less)
  then show ?thesis by (simp add: gs_def)
qed

subsection \<open>The choice\<close>

definition picked :: "Version \<Rightarrow> Compaction \<Rightarrow> nat \<Rightarrow> TableHandle list \<Rightarrow> bytes \<Rightarrow> bytes \<Rightarrow> bool" where
  "picked v c i P s l \<longleftrightarrow> i + 1 < kNumLevels \<and> cp_output_level c = i + 1 \<and>
     cp_inputs c = P @ overlapping s l (v ! (i + 1)) \<and> P \<noteq> [] \<and>
     (if i = 0 then P = v ! 0 else \<exists>p\<in>set (v ! i). P = [p]) \<and>
     (\<forall>p\<in>set P. s \<le> tm_smallest (th_meta p) \<and> tm_largest (th_meta p) \<le> l)"

lemma pick_level_picked:
  assumes "pick_level opts v ptr i = Some (c, ptr')" and "0 < i"
  shows "\<exists>j P s l. picked v c j P s l"
  using assms
proof (induction opts v ptr i rule: pick_level.induct)
  case (1 opts v ptr i)
  define skip where "skip \<longleftrightarrow> sum_list (map (\<lambda>h. tm_file_bytes (th_meta h)) (v ! i)) mod 2 ^ 64 \<le> MaxLevelBytes opts i \<or> v ! i = []"
  have i: "i < kNumLevels - 1" using 1(2) by (subst (asm) pick_level.simps) (auto split: if_splits)
  show ?case
  proof (cases skip)
    case True
    then have "pick_level opts v ptr (i + 1) = Some (c, ptr')"
      using 1(2) i by (subst (asm) pick_level.simps) (simp add: Let_def skip_def)
    then show ?thesis using 1(1) [OF i refl refl] True by (simp add: skip_def)
  next
    case False
    define p where "p = v ! i ! (ptr ! i mod length (v ! i))"
    have c: "c = \<lparr>cp_output_level = i + 1, cp_inputs = p # overlapping (tm_smallest (th_meta p)) (tm_largest (th_meta p)) (v ! (i + 1))\<rparr>"
      using 1(2) i False by (subst (asm) pick_level.simps) (auto simp: Let_def skip_def p_def)
    have "p \<in> set (v ! i)" using False by (simp add: p_def skip_def)
    then have "picked v c i [p] (tm_smallest (th_meta p)) (tm_largest (th_meta p))"
      using c i 1(3) by (auto simp: picked_def)
    then show ?thesis by blast
  qed
qed

lemma fold_min_le: "fold (\<lambda>h s. min s (f h)) hs s0 \<le> s0 \<and> (\<forall>h\<in>set hs. fold (\<lambda>h s. min s (f h)) hs s0 \<le> f h)"
  for f :: "'a \<Rightarrow> 'b :: linorder"
proof (induction hs arbitrary: s0)
  case (Cons h hs)
  from Cons [of "min s0 (f h)"] show ?case by auto
qed simp

lemma fold_max_ge: "s0 \<le> fold (\<lambda>h s. max s (f h)) hs s0 \<and> (\<forall>h\<in>set hs. f h \<le> fold (\<lambda>h s. max s (f h)) hs s0)"
  for f :: "'a \<Rightarrow> 'b :: linorder"
proof (induction hs arbitrary: s0)
  case (Cons h hs)
  from Cons [of "max s0 (f h)"] show ?case by auto
qed simp

lemma PickCompaction_picked:
  assumes "PickCompaction db = Some (c, db1)" and "0 < opt_l0_compaction_trigger (db_options db)"
  shows "(\<exists>i P s l. picked (db_version db) c i P s l) \<and> (\<exists>ptr. db1 = db\<lparr>db_compact_ptr := ptr\<rparr>)"
proof (cases "length (db_version db ! 0) \<ge> opt_l0_compaction_trigger (db_options db)")
  case True
  let ?in = "db_version db ! 0"
  let ?s = "fold (\<lambda>h s. min s (tm_smallest (th_meta h))) ?in (tm_smallest (th_meta (hd ?in)))"
  let ?l = "fold (\<lambda>h s. max s (tm_largest (th_meta h))) ?in (tm_largest (th_meta (hd ?in)))"
  have c: "c = \<lparr>cp_output_level = 1, cp_inputs = ?in @ overlapping ?s ?l (db_version db ! 1)\<rparr>" "db1 = db"
    using assms(1) True by (auto simp: PickCompaction_def Let_def)
  have "?in \<noteq> []" using True assms(2) by auto
  then have "picked (db_version db) c 0 ?in ?s ?l"
    using fold_min_le [of "\<lambda>h. tm_smallest (th_meta h)" ?in] fold_max_ge [of _ "\<lambda>h. tm_largest (th_meta h)" ?in]
    unfolding picked_def c by (simp add: kNumLevels_def)
  moreover have "db1 = db\<lparr>db_compact_ptr := db_compact_ptr db\<rparr>" using c by simp
  ultimately show ?thesis by blast
next
  case False
  then obtain ptr where p: "pick_level (db_options db) (db_version db) (db_compact_ptr db) 1 = Some (c, ptr)"
      "db1 = db\<lparr>db_compact_ptr := ptr\<rparr>"
    using assms(1) by (auto simp: PickCompaction_def Let_def)
  then show ?thesis using pick_level_picked [OF p(1)] by auto
qed

subsection \<open>The new version\<close>

abbreviation left_behind :: "TableHandle list \<Rightarrow> TableHandle list \<Rightarrow> TableHandle list" where
  "left_behind P hs \<equiv> filter (\<lambda>h. h \<notin> set P) hs"

lemma sort_key_id: "sorted (map f xs) \<Longrightarrow> sort_key f xs = xs"
  by (induction xs) (simp_all add: insort_is_Cons)

lemma SortLevel_0_id: "sorted_wrt (\<lambda>a b. number_of b < number_of a) hs \<Longrightarrow> SortLevel 0 hs = hs"
  using SortLevel_0 [of hs "Suc (Max (number_of ` set hs))" 0 "[]"] by (simp add: numbered_def le_imp_less_Suc)

lemma SortLevel_pos: "0 < j \<Longrightarrow> SortLevel j hs = sort_key (\<lambda>h. tm_smallest (th_meta h)) hs"
  by (simp add: SortLevel_def)

text \<open>The facts on the version of a well-formed engine that the compaction uses.\<close>

lemma distinct_level: "distinct (map f (concat v)) \<Longrightarrow> j < length v \<Longrightarrow> distinct (map f (v ! j))"
  by (induction v arbitrary: j) (auto simp: nth_Cons split: nat.splits)

lemma db_ok_version:
  assumes "db_ok db M Is Vs"
  shows "length (db_version db) = 7" "Vs = map (map entries_of) (db_version db)"
    "\<And>j. j < 7 \<Longrightarrow> list_all handle_fine (db_version db ! j)"
    "\<And>j. 0 < j \<Longrightarrow> j < 7 \<Longrightarrow> level_ok (map entries_of (db_version db ! j))"
    "distinct (map number_of (concat (db_version db)))"
    "\<And>j h. j < 7 \<Longrightarrow> h \<in> set (db_version db ! j) \<Longrightarrow> tm_level (th_meta h) = int j \<and> number_of h < db_next_file db"
    "sorted_wrt (\<lambda>a b. number_of b < number_of a) (db_version db ! 0)"
proof -
  have r: "rep db M Is Vs" "numbers_ok db" using assms by (simp_all add: db_ok_def)
  then have v: "list_all (list_all handle_fine) (db_version db)" "Vs = map (map entries_of) (db_version db)" "length Vs = 7"
      "\<forall>L\<in>set (tl Vs). level_ok L"
    by (auto simp: rep_def db_holds_def version_ok_iff kNumLevels_def)
  show len: "length (db_version db) = 7" and Vs: "Vs = map (map entries_of) (db_version db)" using v(2,3) by auto
  show "list_all handle_fine (db_version db ! j)" if "j < 7" for j using v(1) len that by (simp add: list_all_length)
  show "level_ok (map entries_of (db_version db ! j))" if "0 < j" "j < 7" for j
  proof -
    have "Vs ! j = tl Vs ! (j - 1)" using that v(3) by (cases Vs) auto
    then have "Vs ! j \<in> set (tl Vs)" using that v(3) by simp
    then show ?thesis using v(4) Vs len that by simp
  qed
  show "distinct (map number_of (concat (db_version db)))" using r(2) by (simp add: numbers_ok_def)
  show "tm_level (th_meta h) = int j \<and> number_of h < db_next_file db" if "j < 7" "h \<in> set (db_version db ! j)" for j h
  proof -
    have "db_version db ! j \<in> set (db_version db)" using that(1) len by simp
    then show ?thesis using that r(2) len by (auto simp: numbers_ok_def)
  qed
  show "sorted_wrt (\<lambda>a b. number_of b < number_of a) (db_version db ! 0)"
    using r(2) len by (simp add: numbers_ok_def hd_conv_nth flip: length_0_conv)
qed

lemma input_numbers:
  assumes "db_ok db M Is Vs" and "set hs \<subseteq> set (concat (db_version db))" and "h \<in> set (concat (db_version db))"
  shows "number_of h \<in> number_of ` set hs \<longleftrightarrow> h \<in> set hs"
proof -
  have "inj_on number_of (set (concat (db_version db)))" using db_ok_version(5) [OF assms(1)] by (simp add: distinct_map)
  then show ?thesis by (rule inj_on_image_mem_iff [OF _ assms(3,2)])
qed

definition compacted :: "Version \<Rightarrow> nat \<Rightarrow> TableHandle list \<Rightarrow> bytes \<Rightarrow> bytes \<Rightarrow> TableHandle list \<Rightarrow> nat \<Rightarrow> TableHandle list" where
  "compacted v i P s l outs j =
     (if j = i + 1
      then sort_key (\<lambda>h. tm_smallest (th_meta h)) (left_behind (overlapping s l (v ! j)) (v ! j) @ outs)
      else if j = i then left_behind P (v ! i) else v ! j)"

lemma install_outputs_levels:
  assumes ok: "db_ok db M Is Vs" and pk: "picked (db_version db) c i P s l"
  shows "install_outputs (db_version db) c outs = map (compacted (db_version db) i P s l outs) [0..<7]"
proof -
  let ?v = "db_version db" and ?Q = "overlapping s l (db_version db ! (i + 1))"
  note V = db_ok_version [OF ok]
  have c: "cp_inputs c = P @ ?Q" "cp_output_level c = i + 1" "i + 1 < 7" using pk by (simp_all add: picked_def kNumLevels_def)
  have P: "set P \<subseteq> set (?v ! i)" using pk by (auto simp: picked_def split: if_splits)
  have Q: "set ?Q \<subseteq> set (?v ! (i + 1))" by (auto simp: overlapping_def)
  have lev: "set (?v ! j) \<subseteq> set (concat ?v)" if "j < 7" for j
    unfolding set_concat by (rule UN_upper) (use that V(1) in simp)
  have ins: "set (P @ ?Q) \<subseteq> set (concat ?v)" 
    using subset_trans [OF P lev [of i]] subset_trans [OF Q lev [of "i + 1"]] c(3) by simp
  have f: "filter (\<lambda>h. number_of h \<notin> set (map number_of (P @ ?Q))) (?v ! j) =
      (if j = i then left_behind P (?v ! i) else if j = i + 1 then left_behind ?Q (?v ! j) else ?v ! j)" if j: "j < 7" for j
  proof -
    have num: "number_of h \<in> set (map number_of (P @ ?Q)) \<longleftrightarrow> (j = i \<and> h \<in> set P) \<or> (j = i + 1 \<and> h \<in> set ?Q)"
      if h: "h \<in> set (?v ! j)" for h
    proof -
      have hv: "h \<in> set (concat ?v)" using lev [OF j] h by blast
      have "number_of h \<in> set (map number_of (P @ ?Q)) \<longleftrightarrow> h \<in> set P \<or> h \<in> set ?Q"
        using input_numbers [OF ok ins hv] by (simp only: set_map set_append Un_iff)
      moreover have "j = i" if "h \<in> set P"
        using V(6) [OF j h] V(6) [of i h] subsetD [OF P that] c(3) by simp
      moreover have "j = i + 1" if "h \<in> set ?Q"
        using V(6) [OF j h] V(6) [of "i + 1" h] subsetD [OF Q that] c(3) by simp
      ultimately show ?thesis by blast
    qed
    consider "j = i" | "j = i + 1" | "j \<noteq> i" "j \<noteq> i + 1" by blast
    then show ?thesis
    proof cases
      case 1
      have "filter (\<lambda>h. number_of h \<notin> set (map number_of (P @ ?Q))) (?v ! j) = left_behind P (?v ! j)"
        by (rule filter_cong [OF refl]) (simp only: num, simp add: 1)
      then show ?thesis using 1 by simp
    next
      case 2
      have "filter (\<lambda>h. number_of h \<notin> set (map number_of (P @ ?Q))) (?v ! j) = left_behind ?Q (?v ! j)"
        by (rule filter_cong [OF refl]) (simp only: num, simp add: 2)
      then show ?thesis using 2 by simp
    next
      case 3
      have "filter (\<lambda>h. number_of h \<notin> set (map number_of (P @ ?Q))) (?v ! j) = filter (\<lambda>_. True) (?v ! j)"
        by (rule filter_cong [OF refl]) (simp only: num, use 3 in simp)
      then show ?thesis using 3 by simp
    qed
  qed
  define kept where "kept = map (filter (\<lambda>h. number_of h \<notin> set (map number_of (P @ ?Q)))) ?v"
  define grown where "grown = kept[i + 1 := kept ! (i + 1) @ outs]"
  have g: "grown ! j = (if j = i + 1 then left_behind ?Q (?v ! j) @ outs else if j = i then left_behind P (?v ! i) else ?v ! j)"
    if "j < 7" for j
    using f [OF that] f [of "i + 1"] that c(3) V(1) by (simp add: grown_def kept_def)
  have srt: "SortLevel j (grown ! j) = compacted ?v i P s l outs j" if j: "j < 7" for j
  proof (cases "j = i + 1")
    case True
    then show ?thesis using g [OF j] by (simp add: compacted_def SortLevel_pos)
  next
    case False
    have id: "SortLevel j (filter A (?v ! j)) = filter A (?v ! j)" for A
    proof (cases "j = 0")
      case True
      show ?thesis unfolding True by (rule SortLevel_0_id [OF sorted_wrt_filter [OF V(7)]])
    next
      case False
      have "sorted (map (\<lambda>h. tm_smallest (th_meta h)) (filter A (?v ! j)))"
        using sorted_filter [OF level_sorted [OF V(3) [OF j] V(4) [of j]]] False j by simp
      then show ?thesis using False by (simp add: SortLevel_pos sort_key_id)
    qed
    show ?thesis
      using id [of "\<lambda>_. True"] id [of "\<lambda>h. h \<notin> set P"] g [OF j] False by (auto simp: compacted_def)
  qed
  have len: "length grown = 7" using V(1) by (simp add: grown_def kept_def)
  have "install_outputs ?v c outs = map (\<lambda>i. SortLevel i (grown ! i)) [0..<length grown]"
    unfolding install_outputs_def Let_def c grown_def kept_def by simp
  also have "\<dots> = map (compacted ?v i P s l outs) [0..<7]"
    unfolding len by (rule map_cong) (use srt in simp_all)
  finally show ?thesis .
qed

subsection \<open>The output level\<close>

abbreviation inputs_of :: "Compaction \<Rightarrow> Entry list" where
  "inputs_of c \<equiv> merged (map entries_of (cp_inputs c))"

lemma inputs_set:
  "picked v c i P s l \<Longrightarrow> set (inputs_of c) = (\<Union>h\<in>set P \<union> set (overlapping s l (v ! (i + 1))). set (entries_of h))"
  by (auto simp: merged_set picked_def)

lemma picked_fine:
  assumes ok: "db_ok db M Is Vs" and pk: "picked (db_version db) c i P s l" and h: "h \<in> set (cp_inputs c)"
  shows "handle_fine h" "h \<in> set P \<Longrightarrow> h \<in> set (db_version db ! i)"
    "h \<notin> set P \<Longrightarrow> h \<in> set (db_version db ! (i + 1))"
proof -
  have c: "cp_inputs c = P @ overlapping s l (db_version db ! (i + 1))" "i + 1 < 7" using pk by (simp_all add: picked_def kNumLevels_def)
  have P: "set P \<subseteq> set (db_version db ! i)" using pk by (auto simp: picked_def split: if_splits)
  then show "h \<in> set P \<Longrightarrow> h \<in> set (db_version db ! i)" by blast
  show "h \<notin> set P \<Longrightarrow> h \<in> set (db_version db ! (i + 1))" using h c(1) by (simp add: overlapping_def)
  have "h \<in> set (db_version db ! i) \<or> h \<in> set (db_version db ! (i + 1))" using h c(1) P by (auto simp: overlapping_def)
  then show "handle_fine h"
    using db_ok_version(3) [OF ok, of i] db_ok_version(3) [OF ok, of "i + 1"] c(2) by (auto simp: list_all_iff)
qed

text \<open>A table of the output level that does not take part lies before or behind all inputs.\<close>

lemma kept_apart:
  assumes ok: "db_ok db M Is Vs" and pk: "picked (db_version db) c i P s l"
    and K: "K \<in> set (db_version db ! (i + 1))" "K \<notin> set (overlapping s l (db_version db ! (i + 1)))"
  shows "(\<forall>h\<in>set (cp_inputs c). tm_largest (th_meta K) < tm_smallest (th_meta h)) \<or>
         (\<forall>h\<in>set (cp_inputs c). tm_largest (th_meta h) < tm_smallest (th_meta K))"
proof -
  let ?Q = "overlapping s l (db_version db ! (i + 1))"
  note V = db_ok_version [OF ok]
  have c: "cp_inputs c = P @ ?Q" "i + 1 < 7" and P: "\<forall>p\<in>set P. s \<le> tm_smallest (th_meta p) \<and> tm_largest (th_meta p) \<le> l"
    using pk by (simp_all add: picked_def kNumLevels_def)
  have fine: "list_all handle_fine (db_version db ! (i + 1))" "level_ok (map entries_of (db_version db ! (i + 1)))"
    using V(3,4) c(2) by simp_all
  have sepQ: "sep K h" if "h \<in> set ?Q" for h
    by (rule level_sep [OF fine K(1)]) (use that K in \<open>auto simp: overlapping_def\<close>)
  have ord: "tm_smallest (th_meta K) \<le> tm_largest (th_meta K)"
    using fine_bounds(5) fine(1) K(1) by (simp add: list_all_iff)
  have Q: "s \<le> tm_largest (th_meta h)" "tm_smallest (th_meta h) \<le> l" if "h \<in> set ?Q" for h
    using that by (auto simp: overlapping_def)
  have "tm_largest (th_meta K) < s \<or> l < tm_smallest (th_meta K)" using K by (auto simp: overlapping_def not_le)
  then show ?thesis
  proof
    assume a: "tm_largest (th_meta K) < s"
    have "tm_largest (th_meta K) < tm_smallest (th_meta h)" if "h \<in> set (P @ ?Q)" for h
    proof (cases "h \<in> set P")
      case True
      then show ?thesis using P a by (meson less_le_trans)
    next
      case False
      then have hq: "h \<in> set ?Q" using that by simp
      have "\<not> tm_largest (th_meta h) < tm_smallest (th_meta K)" using Q(1) [OF hq] a ord by auto
      then show ?thesis using sepQ [OF hq] by (simp add: sep_def)
    qed
    then show ?thesis using c(1) by simp
  next
    assume a: "l < tm_smallest (th_meta K)"
    have "tm_largest (th_meta h) < tm_smallest (th_meta K)" if "h \<in> set (P @ ?Q)" for h
    proof (cases "h \<in> set P")
      case True
      then show ?thesis using P a by (meson le_less_trans)
    next
      case False
      then have hq: "h \<in> set ?Q" using that by simp
      have "\<not> tm_largest (th_meta K) < tm_smallest (th_meta h)" using Q(2) [OF hq] a ord by auto
      then show ?thesis using sepQ [OF hq] by (simp add: sep_def)
    qed
    then show ?thesis using c(1) by simp
  qed
qed

lemma input_keys:
  assumes ok: "db_ok db M Is Vs" and pk: "picked (db_version db) c i P s l" and e: "e \<in> set (inputs_of c)"
  shows "\<exists>h\<in>set (cp_inputs c). e \<in> set (entries_of h) \<and> tm_smallest (th_meta h) \<le> en_key e \<and> en_key e \<le> tm_largest (th_meta h)"
proof -
  obtain h where h: "h \<in> set (cp_inputs c)" "e \<in> set (entries_of h)" using e by (auto simp: merged_set)
  then show ?thesis using fine_range [OF picked_fine(1) [OF ok pk h(1)] h(2)] by blast
qed

lemma kept_key:
  assumes ok: "db_ok db M Is Vs" and pk: "picked (db_version db) c i P s l"
    and K: "K \<in> set (db_version db ! (i + 1))" "K \<notin> set (overlapping s l (db_version db ! (i + 1)))"
  shows "(\<forall>e\<in>set (inputs_of c). tm_largest (th_meta K) < en_key e) \<or> (\<forall>e\<in>set (inputs_of c). en_key e < tm_smallest (th_meta K))"
  using kept_apart [OF assms]
proof
  assume a: "\<forall>h\<in>set (cp_inputs c). tm_largest (th_meta K) < tm_smallest (th_meta h)"
  have "tm_largest (th_meta K) < en_key e" if "e \<in> set (inputs_of c)" for e
    using input_keys [OF ok pk that] a by (meson less_le_trans)
  then show ?thesis by blast
next
  assume a: "\<forall>h\<in>set (cp_inputs c). tm_largest (th_meta h) < tm_smallest (th_meta K)"
  have "en_key e < tm_smallest (th_meta K)" if "e \<in> set (inputs_of c)" for e
    using input_keys [OF ok pk that] a by (meson le_less_trans)
  then show ?thesis by blast
qed

text \<open>The tables that a compaction has built.\<close>

definition built :: "DB \<Rightarrow> Compaction \<Rightarrow> TableHandle list \<Rightarrow> bool" where
  "built db c outs \<longleftrightarrow> list_all handle_fine outs \<and>
     concat (map entries_of outs) = survivors (droppable (cp_output_level c) (db_version db)) None (inputs_of c) \<and>
     (\<forall>h\<in>set outs. tm_level (th_meta h) = int (cp_output_level c) \<and> db_next_file db \<le> number_of h) \<and>
     distinct (map number_of outs)"

lemma built_entries:
  assumes "built db c outs" and "h \<in> set outs"
  shows "set (entries_of h) \<subseteq> set (inputs_of c)"
proof -
  have "set (entries_of h) \<subseteq> set (concat (map entries_of outs))" using assms(2) by auto
  then show ?thesis using assms(1) survivors_subset unfolding built_def by (metis subset_trans)
qed

lemma built_separated:
  assumes "built db c outs"
  shows "level_ok (map entries_of outs)"
proof (rule cut_separated)
  show "sorted_wrt (\<lambda>a b. en_key a < en_key b) (concat (map entries_of outs))"
    using assms survivors_sorted [OF sorted_merged] by (simp add: built_def)
  show "\<forall>l\<in>set (map entries_of outs). l \<noteq> []" using assms fine_bounds(3) by (auto simp: built_def list_all_iff)
qed

lemma output_level_ok:
  assumes ok: "db_ok db M Is Vs" and pk: "picked (db_version db) c i P s l" and bl: "built db c outs"
  shows "level_ok (map entries_of (compacted (db_version db) i P s l outs (i + 1)))"
    and "distinct (map number_of (compacted (db_version db) i P s l outs (i + 1)))"
    and "list_all handle_fine (compacted (db_version db) i P s l outs (i + 1))"
proof -
  let ?L = "db_version db ! (i + 1)" and ?K = "left_behind (overlapping s l (db_version db ! (i + 1))) (db_version db ! (i + 1))"
  note V = db_ok_version [OF ok]
  have i: "i + 1 < 7" using pk by (simp add: picked_def kNumLevels_def)
  have L: "list_all handle_fine ?L" "level_ok (map entries_of ?L)" using V(3,4) i by simp_all
  have fine: "list_all handle_fine (?K @ outs)" using L(1) bl by (simp add: list_all_iff built_def ball_Un)
  have num: "distinct (map number_of (?K @ outs))"
  proof -
    have "distinct (map number_of ?L)" using V(1,5) i by (intro distinct_level) simp_all
    then have "distinct (map number_of ?K)" by (simp add: distinct_map_filter)
    moreover have "number_of a < number_of b" if "a \<in> set ?K" "b \<in> set outs" for a b
      using V(6) [OF i, of a] bl that unfolding built_def by (metis filter_is_subset less_le_trans subsetD)
    ultimately show ?thesis using bl unfolding built_def by (auto simp: less_irrefl) (metis less_irrefl)
  qed
  have apart: "sep K h" if K: "K \<in> set ?K" and h: "h \<in> set outs" for K h
  proof -
    have hf: "handle_fine h" using bl h by (simp add: built_def list_all_iff)
    have "hd (entries_of h) \<in> set (inputs_of c)" "last (entries_of h) \<in> set (inputs_of c)"
      using built_entries [OF bl h] fine_bounds(3) [OF hf] by auto
    then show ?thesis using kept_key [OF ok pk, of K] K fine_bounds(1,2) [OF hf] by (auto simp: sep_def)
  qed
  have sym: "sep a b \<longleftrightarrow> sep b a" for a b by (auto simp: sep_def)
  have "sep a b" if "a \<in> set (?K @ outs)" "b \<in> set (?K @ outs)" "a \<noteq> b" for a b
  proof -
    note ab = that
    consider "a \<in> set ?K" "b \<in> set ?K" | "a \<in> set ?K" "b \<in> set outs" | "a \<in> set outs" "b \<in> set ?K" | "a \<in> set outs" "b \<in> set outs"
      using ab(1,2) unfolding set_append by blast
    then show ?thesis
    proof cases
      case 1
      then show ?thesis using level_sep [OF L] ab(3) by simp
    next
      case 2
      then show ?thesis by (rule apart)
    next
      case 3
      show ?thesis using apart [OF 3(2,1)] sym by blast
    next
      case 4
      then show ?thesis using level_sep [OF _ built_separated [OF bl]] bl ab(3) by (simp add: built_def)
    qed
  qed
  note sepall = this
  have dist: "distinct (?K @ outs)" "inj_on number_of (set (?K @ outs))" using num by (simp_all only: distinct_map)
  have cmp: "compacted (db_version db) i P s l outs (i + 1) = sort_key (\<lambda>h. tm_smallest (th_meta h)) (?K @ outs)"
    by (simp add: compacted_def)
  show "level_ok (map entries_of (compacted (db_version db) i P s l outs (i + 1)))"
    unfolding cmp by (rule sort_separated [OF fine dist(1) sepall])
  show "distinct (map number_of (compacted (db_version db) i P s l outs (i + 1)))"
    unfolding cmp distinct_map distinct_sort set_sort using dist by blast
  show "list_all handle_fine (compacted (db_version db) i P s l outs (i + 1))"
    using fine by (simp add: compacted_def list_all_iff)
qed

end
