(* ===== verification/DBMerge.thy ===== *)
theory DBMerge
  imports DBCompact
begin

text \<open>
  A compaction keeps what is shown.  The layers around the two levels it works on stay, the level
  it took tables from keeps the rest of them, and its output level has the newest versions of the
  inputs without the tombstones that hide nothing below.
\<close>

subsection \<open>The layers\<close>

lemma stack_compact:
  assumes st: "stack_ok (A @ X @ Y # B)"
    and N: "sorted_entries N" "set N \<subseteq> \<Union> (set ` set X) \<union> set Y"
    and low: "\<And>n. n \<in> set N \<Longrightarrow> \<exists>l\<in>set (X @ [Y]). n \<in> set l \<and>
      (\<forall>x\<in>set l. en_key x = en_key n \<longrightarrow> (\<exists>m\<in>set N. en_key m = en_key n \<and> en_seqno x \<le> en_seqno m))"
    and X': "\<And>x'. x' \<in> set X' \<Longrightarrow> sorted_entries x' \<and> hides x' N \<and> (\<exists>x\<in>set X. retains x' x)" "length X' \<le> 1"
  shows "stack_ok (A @ X' @ N # B)"
proof -
  let ?XY = "X @ [Y]"
  have "stack_ok (A @ ?XY @ B)" using st by simp
  then have s: "stack_ok A" "stack_ok ?XY" "stack_ok B" "\<forall>a\<in>set A. \<forall>l\<in>set ?XY. hides a l" "\<forall>a\<in>set A. \<forall>b\<in>set B. hides a b"
    "\<forall>l\<in>set ?XY. \<forall>b\<in>set B. hides l b" "coherent (\<Union> (set ` set A) \<union> \<Union> (set ` set (?XY @ B)))"
    unfolding stack_ok_append [of A] stack_ok_append [of ?XY] by auto
  have AN: "hides a N" if a: "a \<in> set A" for a
    unfolding hides_def
  proof (intro ballI impI)
    fix n x assume n: "n \<in> set N" "x \<in> set a" "en_key x = en_key n"
    obtain l where l: "l \<in> set ?XY" "n \<in> set l" using low [OF n(1)] by blast
    have "hides a l" using s(4) a l(1) by blast
    then show "\<exists>x\<in>set a. en_key x = en_key n \<and> en_seqno n \<le> en_seqno x" using n l(2) unfolding hides_def by blast
  qed
  have NB: "hides N b" if b: "b \<in> set B" for b
    unfolding hides_def
  proof (intro ballI impI)
    fix y n assume y: "y \<in> set b" "n \<in> set N" "en_key n = en_key y"
    obtain l where l: "l \<in> set ?XY" "n \<in> set l"
        "\<forall>x\<in>set l. en_key x = en_key n \<longrightarrow> (\<exists>m\<in>set N. en_key m = en_key n \<and> en_seqno x \<le> en_seqno m)"
      using low [OF y(2)] by blast
    have "hides l b" using s(6) b l(1) by blast
    then obtain x where x: "x \<in> set l" "en_key x = en_key y" "en_seqno y \<le> en_seqno x"
      using y l(2) unfolding hides_def by blast
    then obtain m where "m \<in> set N" "en_key m = en_key n" "en_seqno x \<le> en_seqno m" using l(3) y(3) by auto
    then show "\<exists>m\<in>set N. en_key m = en_key y \<and> en_seqno y \<le> en_seqno m" using x(3) y(3) by (metis order_trans)
  qed
  have AX: "hides a x'" if "a \<in> set A" "x' \<in> set X'" for a x'
    using X'(1) [OF that(2)] hides_sub s(4) that(1) unfolding retains_def by (metis UnCI set_append)
  have XB: "hides x' b" if "x' \<in> set X'" "b \<in> set B" for x' b
    using X'(1) [OF that(1)] hides_retain [OF _ _ subset_refl] s(6) that(2) by (metis UnCI set_append)
  have subX: "\<Union> (set ` set X') \<subseteq> \<Union> (set ` set X)" 
  proof
    fix e assume "e \<in> \<Union> (set ` set X')"
    then obtain x' where x': "x' \<in> set X'" "e \<in> set x'" by blast
    obtain x where "x \<in> set X" "retains x' x" using X'(1) [OF x'(1)] by blast
    then show "e \<in> \<Union> (set ` set X)" using x'(2) unfolding retains_def by blast
  qed
  have coh: "coherent (\<Union> (set ` set (A @ X' @ N # B)))"
    by (rule coherent_mono [OF s(7)]) (use subX N(2) in auto)
  have single: "sorted_wrt hides X'" using X'(2) by (cases X') auto
  have "sorted_wrt hides (A @ X' @ N # B)"
    using s(1,3,5) single AN NB AX XB X'(1) by (simp add: sorted_wrt_append stack_ok_def ball_Un)
  moreover have "\<forall>l\<in>set (A @ X' @ N # B). sorted_entries l" using s(1,3) N(1) X'(1) by (simp add: stack_ok_def ball_Un)
  ultimately show ?thesis using coh unfolding stack_ok_def by blast
qed

abbreviation level_entries :: "Version \<Rightarrow> nat \<Rightarrow> Entry list" where
  "level_entries v j \<equiv> concat (map entries_of (v ! j))"

lemma layers_levels:
  assumes "length v = 7"
  shows "layers M Is (map (map entries_of) v) = (M # rev Is) @ map entries_of (v ! 0) @ map (level_entries v) [1..<7]"
proof -
  obtain h vt where v: "v = h # vt" "length vt = 6" using assms by (cases v) auto
  have "map (level_entries v) [1..<7] = map (\<lambda>j. concat (map entries_of (vt ! j))) [0..<6]"
    by (rule nth_equalityI) (simp_all add: v(1))
  also have "\<dots> = map concat (map (map entries_of) vt)"
    by (rule nth_equalityI) (simp_all add: v(2))
  finally show ?thesis by (simp add: layers_def v(1))
qed

lemma upt_split: "1 \<le> i \<Longrightarrow> i + 1 < 7 \<Longrightarrow> [1..<7] = [1..<i] @ i # (i + 1) # [i + 2..<7::nat]"
  using upt_add_eq_append [of 1 i "7 - i"] by (simp add: upt_conv_Cons)

text \<open>The layers around the two levels of a compaction.\<close>

definition above_layers :: "Entry list \<Rightarrow> Entry list list \<Rightarrow> Version \<Rightarrow> nat \<Rightarrow> Entry list list" where
  "above_layers M Is v i =
     (if i = 0 then M # rev Is else (M # rev Is) @ map entries_of (v ! 0) @ map (level_entries v) [1..<i])"

definition source_layers :: "Version \<Rightarrow> nat \<Rightarrow> Entry list list" where
  "source_layers v i = (if i = 0 then map entries_of (v ! 0) else [level_entries v i])"

lemma layers_around:
  assumes "length v = 7" and "i + 1 < 7"
  shows "layers M Is (map (map entries_of) v) =
    above_layers M Is v i @ source_layers v i @ level_entries v (i + 1) # map (level_entries v) [i + 2..<7]"
proof (cases "i = 0")
  case True
  then show ?thesis unfolding layers_levels [OF assms(1)] by (simp add: above_layers_def source_layers_def upt_conv_Cons)
next
  case False
  then show ?thesis unfolding layers_levels [OF assms(1)] using upt_split [of i] assms(2)
    by (simp add: above_layers_def source_layers_def)
qed

subsection \<open>A compaction in its context\<close>

text \<open>A well-formed engine, a choice, and the tables built for it.\<close>

definition compaction :: "DB \<Rightarrow> Entry list \<Rightarrow> Entry list list \<Rightarrow> Entry list list list \<Rightarrow> Compaction \<Rightarrow> nat \<Rightarrow>
    TableHandle list \<Rightarrow> bytes \<Rightarrow> bytes \<Rightarrow> TableHandle list \<Rightarrow> bool" where
  "compaction db M Is Vs c i P s l outs \<longleftrightarrow>
     db_ok db M Is Vs \<and> picked (db_version db) c i P s l \<and> built db c outs"

definition new_version :: "DB \<Rightarrow> nat \<Rightarrow> TableHandle list \<Rightarrow> bytes \<Rightarrow> bytes \<Rightarrow> TableHandle list \<Rightarrow> Version" where
  "new_version db i P s l outs = map (compacted (db_version db) i P s l outs) [0..<7]"

lemma new_version_nth: "j < 7 \<Longrightarrow> new_version db i P s l outs ! j = compacted (db_version db) i P s l outs j"
  by (simp add: new_version_def)

lemma length_new_version [simp]: "length (new_version db i P s l outs) = 7"
  by (simp add: new_version_def)

lemma in_level: "e \<in> set (level_entries v j) \<longleftrightarrow> (\<exists>h\<in>set (v ! j). e \<in> set (entries_of h))"
  by auto

lemma compaction_facts:
  assumes "compaction db M Is Vs c i P s l outs"
  shows "i + 1 < 7" "db_ok db M Is Vs" "picked (db_version db) c i P s l" "built db c outs"
    "i = 0 \<Longrightarrow> P = db_version db ! 0" "0 < i \<Longrightarrow> \<exists>p\<in>set (db_version db ! i). P = [p]"
    "set P \<subseteq> set (db_version db ! i)" "cp_output_level c = i + 1"
    "cp_inputs c = P @ overlapping s l (db_version db ! (i + 1))"
  using assms by (auto simp: compaction_def picked_def kNumLevels_def split: if_splits)

lemma new_levels:
  assumes "compaction db M Is Vs c i P s l outs"
  defines "v' \<equiv> new_version db i P s l outs" and "Q \<equiv> overlapping s l (db_version db ! (i + 1))"
  shows "set (v' ! (i + 1)) = (set (db_version db ! (i + 1)) - set Q) \<union> set outs"
    and "v' ! i = left_behind P (db_version db ! i)"
    and "\<And>j. j < 7 \<Longrightarrow> j \<noteq> i \<Longrightarrow> j \<noteq> i + 1 \<Longrightarrow> v' ! j = db_version db ! j"
  using compaction_facts(1) [OF assms(1)] by (auto simp: v'_def Q_def new_version_nth compacted_def)

lemma above_unchanged:
  assumes "compaction db M Is Vs c i P s l outs"
  shows "above_layers M Is (new_version db i P s l outs) i = above_layers M Is (db_version db) i"
proof (cases "i = 0")
  case False
  have "new_version db i P s l outs ! j = db_version db ! j" if "j < i" for j
    using new_levels(3) [OF assms, of j] compaction_facts(1) [OF assms] that by simp
  then have "map (level_entries (new_version db i P s l outs)) [1..<i] = map (level_entries (db_version db)) [1..<i]"
    "new_version db i P s l outs ! 0 = db_version db ! 0" using False by simp_all
  then show ?thesis by (simp add: above_layers_def)
qed (simp add: above_layers_def)

lemma below_unchanged:
  assumes "compaction db M Is Vs c i P s l outs"
  shows "map (level_entries (new_version db i P s l outs)) [i + 2..<7] = map (level_entries (db_version db)) [i + 2..<7]"
  using new_levels(3) [OF assms] by (intro map_cong) simp_all

lemma source_rest:
  assumes "compaction db M Is Vs c i P s l outs"
  shows "source_layers (new_version db i P s l outs) i =
    (if i = 0 then [] else [concat (map entries_of (left_behind P (db_version db ! i)))])"
proof (cases "i = 0")
  case True
  have "P = db_version db ! 0" by (rule compaction_facts(5) [OF assms True])
  then show ?thesis using new_levels(2) [OF assms] True by (simp add: source_layers_def)
qed (use new_levels(2) [OF assms] in \<open>simp add: source_layers_def\<close>)

text \<open>An output is the newest of its key among the inputs.\<close>

lemma output_newest:
  assumes "compaction db M Is Vs c i P s l outs" and "h \<in> set outs" and "n \<in> set (entries_of h)"
  shows "n \<in> set (inputs_of c)" "\<not> droppable (i + 1) (db_version db) n"
    "\<And>x. x \<in> set (inputs_of c) \<Longrightarrow> en_key x = en_key n \<Longrightarrow> en_seqno x \<le> en_seqno n"
proof -
  note C = compaction_facts [OF assms(1)]
  have "n \<in> set (concat (map entries_of outs))" using assms(2,3) by auto
  then have "n \<in> set (survivors (droppable (i + 1) (db_version db)) None (inputs_of c))"
    using C(4,8) unfolding built_def by metis
  then have f: "find_key (en_key n) (inputs_of c) = Some n" and d: "\<not> droppable (i + 1) (db_version db) n"
    using survivors_iff [OF sorted_merged, where prev = None] by simp_all
  from find_key_newest [OF sorted_merged f] show "n \<in> set (inputs_of c)"
    and "\<And>x. x \<in> set (inputs_of c) \<Longrightarrow> en_key x = en_key n \<Longrightarrow> en_seqno x \<le> en_seqno n"
    by (simp_all add: is_newest_def)
  show "\<not> droppable (i + 1) (db_version db) n" by (rule d)
qed

text \<open>An input sits in a layer of which its table is the only part with its key.\<close>

lemma input_layer:
  assumes C: "compaction db M Is Vs c i P s l outs" and e: "e \<in> set (inputs_of c)"
  shows "\<exists>y\<in>set (source_layers (db_version db) i @ [level_entries (db_version db) (i + 1)]).
    e \<in> set y \<and> (\<forall>x\<in>set y. en_key x = en_key e \<longrightarrow> x \<in> set (inputs_of c))"
proof -
  note F = compaction_facts [OF C]
  note V = db_ok_version [OF F(2)]
  obtain h where h: "h \<in> set (cp_inputs c)" "e \<in> set (entries_of h)" using e by (auto simp: merged_set)
  have ins: "x \<in> set (inputs_of c)" if "x \<in> set (entries_of h)" for x using that h(1) by (auto simp: merged_set)
  have same: "x \<in> set (inputs_of c)"
    if "0 < j" "j < 7" "h \<in> set (db_version db ! j)" "x \<in> set (level_entries (db_version db) j)" "en_key x = en_key e" for j x
  proof -
    note b = that
    obtain g where g: "g \<in> set (db_version db ! j)" "x \<in> set (entries_of g)" using b(4) by auto
    have "g = h" by (rule level_same_table [OF V(3) [OF b(2)] V(4) [OF b(1,2)] g(1) b(3) g(2) h(2) b(5)])
    then show ?thesis using ins g(2) by simp
  qed
  show ?thesis
  proof (cases "h \<in> set P")
    case True
    then have hi: "h \<in> set (db_version db ! i)" using F(7) by blast
    show ?thesis
    proof (cases "i = 0")
      case True
      have "entries_of h \<in> set (source_layers (db_version db) i)" using hi True by (simp add: source_layers_def)
      then show ?thesis using h(2) ins by (intro bexI [of _ "entries_of h"]) auto
    next
      case False
      have "e \<in> set (level_entries (db_version db) i)" using hi h(2) by auto
      then show ?thesis using same [of i] hi F(1) False
        by (intro bexI [of _ "level_entries (db_version db) i"]) (auto simp: source_layers_def)
    qed
  next
    case False
    then have hq: "h \<in> set (db_version db ! (i + 1))" using picked_fine(3) [OF F(2,3) h(1)] by simp
    have "e \<in> set (level_entries (db_version db) (i + 1))" using hq h(2) by auto
    then show ?thesis using same [of "i + 1"] hq F(1)
      by (intro bexI [of _ "level_entries (db_version db) (i + 1)"]) auto
  qed
qed

subsection \<open>The stack after a compaction\<close>

lemma level_concat_sorted:
  assumes "list_all handle_fine hs" and "level_ok (map entries_of hs)"
  shows "sorted_entries (concat (map entries_of hs))"
  using assms
proof (induction hs)
  case (Cons h hs)
  have "ikey_of a \<le> ikey_of b" if a: "a \<in> set (entries_of h)" and g: "g \<in> set hs" and b: "b \<in> set (entries_of g)" for a b g
  proof -
    have "tm_largest (th_meta h) < tm_smallest (th_meta g)"
      using Cons.prems g unfolding level_ok_handles [OF Cons.prems(1)] by simp
    moreover have "en_key a \<le> tm_largest (th_meta h)" "tm_smallest (th_meta g) \<le> en_key b"
      using fine_range [of h a] fine_range [of g b] Cons.prems(1) a b g by (auto simp: list_all_iff)
    ultimately have "en_key a < en_key b" by simp
    then show ?thesis by (simp add: ikey_of_def le_IKey)
  qed
  moreover have "sorted_entries (concat (map entries_of hs))" using Cons by (simp add: level_ok_def)
  moreover have "sorted_entries (entries_of h)" using Cons.prems(1) fine_bounds(4) by simp
  ultimately show ?case by (auto simp: sorted_append)
qed simp

lemma new_level_low:
  assumes C: "compaction db M Is Vs c i P s l outs" and n: "n \<in> set (level_entries (new_version db i P s l outs) (i + 1))"
  shows "\<exists>y\<in>set (source_layers (db_version db) i @ [level_entries (db_version db) (i + 1)]). n \<in> set y \<and>
    (\<forall>x\<in>set y. en_key x = en_key n \<longrightarrow>
      (\<exists>m\<in>set (level_entries (new_version db i P s l outs) (i + 1)). en_key m = en_key n \<and> en_seqno x \<le> en_seqno m))"
proof -
  note F = compaction_facts [OF C]
  note V = db_ok_version [OF F(2)]
  let ?L = "db_version db ! (i + 1)"
  obtain h where h: "h \<in> set (new_version db i P s l outs ! (i + 1))" "n \<in> set (entries_of h)" using n by auto
  consider (out) "h \<in> set outs" | (kept) "h \<in> set ?L" "h \<notin> set (overlapping s l ?L)"
    using h(1) unfolding new_levels(1) [OF C] by blast
  then show ?thesis
  proof cases
    case out
    note o = output_newest [OF C out h(2)]
    obtain y where y: "y \<in> set (source_layers (db_version db) i @ [level_entries (db_version db) (i + 1)])" "n \<in> set y"
        "\<forall>x\<in>set y. en_key x = en_key n \<longrightarrow> x \<in> set (inputs_of c)"
      using input_layer [OF C o(1)] by blast
    then show ?thesis using o(3) n by (intro bexI [OF _ y(1)]) blast
  next
    case kept
    have "n \<in> set (level_entries (db_version db) (i + 1))" using kept(1) h(2) by auto
    moreover have "x \<in> set (level_entries (new_version db i P s l outs) (i + 1))"
      if x: "x \<in> set (level_entries (db_version db) (i + 1))" "en_key x = en_key n" for x
    proof -
      obtain g where g: "g \<in> set ?L" "x \<in> set (entries_of g)" using x(1) by auto
      have "g = h" by (rule level_same_table [OF V(3) V(4) g(1) kept(1) g(2) h(2) x(2)]) (use F(1) in simp_all)
      then show ?thesis using g(2) h(1) by auto
    qed
    ultimately show ?thesis by (intro bexI [of _ "level_entries (db_version db) (i + 1)"]) (auto intro: order_refl)
  qed
qed

text \<open>What is left of the level above still hides the level below.\<close>

lemma rest_hides:
  assumes C: "compaction db M Is Vs c i P s l outs" and i: "0 < i"
    and hid: "hides (level_entries (db_version db) i) (level_entries (db_version db) (i + 1))"
  defines "R \<equiv> concat (map entries_of (left_behind P (db_version db ! i)))"
  shows "retains R (level_entries (db_version db) i)"
    "hides R (level_entries (new_version db i P s l outs) (i + 1))"
proof -
  note F = compaction_facts [OF C]
  note V = db_ok_version [OF F(2)]
  have same: "x \<in> set R" if "a \<in> set R" "x \<in> set (level_entries (db_version db) i)" "en_key x = en_key a" for a x
  proof -
    note b = that
    obtain g where g: "g \<in> set (db_version db ! i)" "g \<notin> set P" "a \<in> set (entries_of g)" using b(1) by (auto simp: R_def)
    obtain h where h: "h \<in> set (db_version db ! i)" "x \<in> set (entries_of h)" using b(2) by auto
    have "h = g" by (rule level_same_table [OF V(3) V(4) h(1) g(1) h(2) g(3) b(3)]) (use F(1) i in simp_all)
    then show ?thesis using g(1,2) h(2) by (auto simp: R_def)
  qed
  have apart: "a \<notin> set R" if p: "p \<in> set P" "b \<in> set (entries_of p)" and k: "en_key a = en_key b" for a b p
  proof
    assume "a \<in> set R"
    then obtain g where g: "g \<in> set (db_version db ! i)" "g \<notin> set P" "a \<in> set (entries_of g)" by (auto simp: R_def)
    have "g = p" by (rule level_same_table [OF V(3) V(4) g(1) _ g(3) p(2) k]) (use F(1,7) i p(1) in auto)
    then show False using g(2) p(1) by simp
  qed
  have R: "set R \<subseteq> set (level_entries (db_version db) i)" by (auto simp: R_def)
  show "retains R (level_entries (db_version db) i)"
    unfolding retains_def using R same by blast
  show "hides R (level_entries (new_version db i P s l outs) (i + 1))"
    unfolding hides_def
  proof (intro ballI impI)
    fix b a
    assume b: "b \<in> set (level_entries (new_version db i P s l outs) (i + 1))" and a: "a \<in> set R" "en_key a = en_key b"
    have "b \<in> set (level_entries (db_version db) (i + 1))"
    proof (rule ccontr)
      assume n: "b \<notin> set (level_entries (db_version db) (i + 1))"
      obtain h where h: "h \<in> set (new_version db i P s l outs ! (i + 1))" "b \<in> set (entries_of h)" using b by auto
      have "h \<notin> set (db_version db ! (i + 1))" using n h(2) by auto
      then have o: "h \<in> set outs" using h(1) unfolding new_levels(1) [OF C] by blast
      obtain g where g: "g \<in> set (cp_inputs c)" "b \<in> set (entries_of g)"
        using output_newest(1) [OF C o h(2)] by (auto simp: merged_set)
      have "g \<notin> set (db_version db ! (i + 1))" using n g(2) by auto
      then have "g \<in> set P" using picked_fine(3) [OF F(2,3) g(1)] by blast
      then show False using apart [OF _ g(2) a(2)] a(1) by blast
    qed
    then obtain x where x: "x \<in> set (level_entries (db_version db) i)" "en_key x = en_key b" "en_seqno b \<le> en_seqno x"
      using hid R a unfolding hides_def by blast
    then have "x \<in> set R" using same [OF a(1) x(1)] a(2) by simp
    then show "\<exists>x\<in>set R. en_key x = en_key b \<and> en_seqno b \<le> en_seqno x" using x(2,3) by blast
  qed
qed

lemma new_handles:
  assumes C: "compaction db M Is Vs c i P s l outs" and j: "j < 7"
  shows "list_all handle_fine (new_version db i P s l outs ! j)"
    "0 < j \<Longrightarrow> level_ok (map entries_of (new_version db i P s l outs ! j))"
    "distinct (map number_of (new_version db i P s l outs ! j))"
proof -
  note F = compaction_facts [OF C]
  note V = db_ok_version [OF F(2)]
  have d: "distinct (map number_of (db_version db ! k))" if "k < 7" for k
    using V(1,5) that by (intro distinct_level) simp_all
  consider "j = i + 1" | "j = i" | "j \<noteq> i" "j \<noteq> i + 1" by blast
  then have "list_all handle_fine (new_version db i P s l outs ! j) \<and>
    (0 < j \<longrightarrow> level_ok (map entries_of (new_version db i P s l outs ! j))) \<and>
    distinct (map number_of (new_version db i P s l outs ! j))"
  proof cases
    case 1
    then show ?thesis using output_level_ok [OF F(2-4)] j unfolding new_version_nth [OF j] by simp
  next
    case 2
    have "level_ok (map entries_of (left_behind P (db_version db ! i)))" if "0 < i"
      using V(4) [of i] that j 2 by (simp add: level_ok_def sorted_wrt_map sorted_wrt_filter)
    then show ?thesis using 2 V(3) [OF j] d [OF j] by (simp add: new_levels(2) [OF C] list_all_iff distinct_map_filter)
  next
    case 3
    then show ?thesis using V(3,4) d j by (simp add: new_levels(3) [OF C])
  qed
  then show "list_all handle_fine (new_version db i P s l outs ! j)"
    "0 < j \<Longrightarrow> level_ok (map entries_of (new_version db i P s l outs ! j))"
    "distinct (map number_of (new_version db i P s l outs ! j))" by blast+
qed

lemma compaction_stack:
  assumes C: "compaction db M Is Vs c i P s l outs"
  shows "stack_ok (layers M Is (map (map entries_of) (new_version db i P s l outs)))"
proof -
  note F = compaction_facts [OF C]
  note V = db_ok_version [OF F(2)]
  let ?v = "db_version db" and ?v' = "new_version db i P s l outs"
  let ?N = "level_entries ?v' (i + 1)" and ?Y = "level_entries ?v (i + 1)"
  have st: "stack_ok (above_layers M Is ?v i @ source_layers ?v i @ ?Y # map (level_entries ?v) [i + 2..<7])"
    using F(2) unfolding db_ok_def rep_def V(2) layers_around [OF V(1) F(1)] by blast
  have N: "sorted_entries ?N" using new_handles [OF C F(1)] level_concat_sorted by simp
  have sub: "set ?N \<subseteq> \<Union> (set ` set (source_layers ?v i)) \<union> set ?Y"
    using new_level_low [OF C] by fastforce
  have rest: "sorted_entries x' \<and> hides x' ?N \<and> (\<exists>x\<in>set (source_layers ?v i). retains x' x)"
    if x': "x' \<in> set (source_layers ?v' i)" for x'
  proof -
    have i: "0 < i" "x' = concat (map entries_of (left_behind P (?v ! i)))"
      using x' unfolding source_rest [OF C] by (simp_all split: if_splits)
    have "hides (level_entries ?v i) ?Y" using st i(1) by (simp add: stack_ok_append stack_ok_Cons source_layers_def)
    note R = rest_hides [OF C i(1) this]
    have "sorted_entries x'" using level_concat_sorted [OF new_handles(1,2) [OF C, of i]] i F(1) by (simp add: new_levels(2) [OF C])
    then show ?thesis using R i by (simp add: source_layers_def)
  qed
  have "stack_ok (above_layers M Is ?v i @ source_layers ?v' i @ ?N # map (level_entries ?v) [i + 2..<7])"
    by (rule stack_compact [OF st N sub new_level_low [OF C] rest]) (simp_all add: source_rest [OF C])
  then show ?thesis
    unfolding layers_around [OF length_new_version F(1)] above_unchanged [OF C] below_unchanged [OF C] .
qed

lemma newest_eq:
  assumes "is_newest S k e" and "coherent S" and "x \<in> S" and "en_key x = k" and "en_seqno e \<le> en_seqno x"
  shows "x = e"
proof -
  have "en_seqno x = en_seqno e" using assms by (auto simp: is_newest_def intro: order_antisym)
  then show ?thesis using assms unfolding is_newest_def coherent_def by blast
qed

text \<open>A newest entry that a compaction drops is a deletion of a key that occurs nowhere after it.\<close>

lemma dropped_entry:
  assumes C: "compaction db M Is Vs c i P s l outs" and new: "is_newest (all_of M Is Vs) k e"
    and gone: "e \<notin> all_of M Is (map (map entries_of) (new_version db i P s l outs))"
  shows "e \<in> set (inputs_of c)" "droppable (i + 1) (db_version db) e"
proof -
  note F = compaction_facts [OF C]
  note V = db_ok_version [OF F(2)]
  let ?v = "db_version db" and ?v' = "new_version db i P s l outs"
  have new': "is_newest (all_of M Is Vs) (en_key e) e" and e: "e \<in> all_of M Is Vs" using new by (simp_all add: is_newest_def)
  have out: "e \<notin> set (entries_of h)" if "j < 7" "h \<in> set (?v' ! j)" for j h
  proof
    assume "e \<in> set (entries_of h)"
    then have "e \<in> set (concat (concat (map (map entries_of) ?v')))" using that nth_mem [of j ?v'] by fastforce
    then show False using gone by (simp add: all_of_def)
  qed
  have "e \<in> set (concat (concat Vs))" using e gone by (auto simp: all_of_def)
  then obtain h j where h: "j < 7" "h \<in> set (?v ! j)" "e \<in> set (entries_of h)"
    unfolding V(2) by (auto simp: in_set_conv_nth [of _ ?v] V(1))
  have "h \<notin> set (?v' ! j)" using out [OF h(1)] h(3) by blast
  then have "h \<in> set (cp_inputs c)"
    using h(1,2) new_levels [OF C] by (cases "j = i"; cases "j = i + 1") (auto simp: F(9))
  then show i: "e \<in> set (inputs_of c)" using h(3) by (auto simp: merged_set)
  have sub: "set (inputs_of c) \<subseteq> all_of M Is Vs"
  proof
    fix x
    assume "x \<in> set (inputs_of c)"
    then obtain g where g: "g \<in> set (cp_inputs c)" "x \<in> set (entries_of g)" by (auto simp: merged_set)
    then have "g \<in> set (concat ?v)" using picked_fine(2,3) [OF F(2,3) g(1)] F(1) V(1) by (metis (no_types) UN_I add_lessD1 nth_mem set_concat)
    then show "x \<in> all_of M Is Vs" using g(2) unfolding all_of_def V(2) by auto
  qed
  show "droppable (i + 1) ?v e"
  proof (rule ccontr)
    assume "\<not> ?thesis"
    then have "e \<in> set (survivors (droppable (i + 1) ?v) None (inputs_of c))"
      using F(2) by (intro newest_survives [OF new' i sub sorted_merged rep_coherent [of db]]) (simp_all add: db_ok_def)
    then have "e \<in> set (concat (map entries_of outs))" using F(4,8) unfolding built_def by metis
    then obtain h where "h \<in> set outs" "e \<in> set (entries_of h)" by auto
    then show False using out [OF F(1)] new_levels(1) [OF C] by blast
  qed
qed

lemma dropped_below:
  assumes C: "compaction db M Is Vs c i P s l outs" and d: "droppable (i + 1) (db_version db) e"
    and j: "j < 7" "i + 2 \<le> j" and b: "b \<in> set (level_entries (db_version db) j)" "en_key b = en_key e"
  shows False
proof -
  note V = db_ok_version [OF compaction_facts(2) [OF C]]
  let ?v = "db_version db"
  obtain h where h: "h \<in> set (?v ! j)" "b \<in> set (entries_of h)" using b(1) by auto
  have "handle_fine h" using V(3) [OF j(1)] h(1) by (simp add: list_all_iff)
  then have "tm_smallest (th_meta h) \<le> en_key e \<and> en_key e \<le> tm_largest (th_meta h)"
    using fine_range [OF _ h(2)] b(2) by simp
  moreover have "drop (i + 2) ?v ! (j - (i + 2)) = ?v ! j"
    using nth_drop [of "i + 2" ?v "j - (i + 2)"] j V(1) unfolding le_add_diff_inverse [OF j(2)] by linarith
  then have "?v ! j \<in> set (drop (i + 1 + 1) ?v)" using nth_mem [of "j - (i + 2)" "drop (i + 2) ?v"] j V(1) by simp
  ultimately have "KeyMayExistBelow ?v (i + 1) (en_key e)" using h(1) unfolding KeyMayExistBelow_def list_ex_iff by blast
  then show False using d by (simp add: droppable_def)
qed

lemma dropped_key:
  assumes C: "compaction db M Is Vs c i P s l outs" and new: "is_newest (all_of M Is Vs) k e"
    and gone: "e \<notin> all_of M Is (map (map entries_of) (new_version db i P s l outs))"
    and b: "b \<in> all_of M Is (map (map entries_of) (new_version db i P s l outs))"
  shows "en_key b \<noteq> k"
proof
  assume k: "en_key b = k"
  note F = compaction_facts [OF C]
  note V = db_ok_version [OF F(2)]
  let ?v = "db_version db" and ?v' = "new_version db i P s l outs"
  note D = dropped_entry [OF C new gone]
  have ke: "en_key e = k" using new by (simp add: is_newest_def)
  have ne: "map (map entries_of) ?v' \<noteq> []" "Vs \<noteq> []" using F(2) rep_not_Nil by (auto simp: new_version_def db_ok_def)
  have st: "stack_ok (above_layers M Is ?v i @ source_layers ?v i @ level_entries ?v (i + 1) # map (level_entries ?v) [i + 2..<7])"
    using F(2) unfolding db_ok_def rep_def V(2) layers_around [OF V(1) F(1)] by blast
  have coh: "coherent (all_of M Is Vs)" using F(2) rep_coherent by (auto simp: db_ok_def)
  have lay: "set y \<subseteq> all_of M Is Vs"
    if "y \<in> set (above_layers M Is ?v i @ source_layers ?v i @ level_entries ?v (i + 1) # map (level_entries ?v) [i + 2..<7])" for y
    using that layers_set [OF ne(2), of M Is] unfolding V(2) layers_around [OF V(1) F(1)] by blast
  have lay': "e \<notin> set y"
    if "y \<in> set (above_layers M Is ?v i @ source_layers ?v' i @ level_entries ?v' (i + 1) # map (level_entries ?v) [i + 2..<7])" for y
    using that gone layers_set [OF ne(1), of M Is]
    unfolding layers_around [OF length_new_version F(1)] above_unchanged [OF C] below_unchanged [OF C] by blast
  obtain y where y: "y \<in> set (source_layers ?v i @ [level_entries ?v (i + 1)])" "e \<in> set y"
    using input_layer [OF C D(1)] by blast
  have up: "e \<in> set z" if z: "hides z y" "b' \<in> set z" "en_key b' = k" "set z \<subseteq> all_of M Is Vs" for z b'
  proof -
    obtain x where x: "x \<in> set z" "en_key x = en_key e" "en_seqno e \<le> en_seqno x"
      using z(1-3) y(2) ke unfolding hides_def by metis
    then have "x = e" using newest_eq [OF new coh] z(4) ke by blast
    then show ?thesis using x(1) by simp
  qed
  from b obtain z where z: "z \<in> set (above_layers M Is ?v i @ source_layers ?v' i @ level_entries ?v' (i + 1) # map (level_entries ?v) [i + 2..<7])" "b \<in> set z"
    unfolding layers_set [OF ne(1), symmetric] layers_around [OF length_new_version F(1)] above_unchanged [OF C] below_unchanged [OF C] by blast
  then consider (above) "z \<in> set (above_layers M Is ?v i)" | (rest) "z \<in> set (source_layers ?v' i)"
    | (level) "z = level_entries ?v' (i + 1)" | (below) j where "j < 7" "i + 2 \<le> j" "z = level_entries ?v j"
    by auto
  then show False
  proof cases
    case above
    have "hides z y" using st y(1) above by (auto simp: stack_ok_append stack_ok_Cons)
    then show False using up [OF _ z(2) k] lay [of z] lay' [of z] above by simp
  next
    case rest
    have i: "0 < i" "z = concat (map entries_of (left_behind P (?v ! i)))"
      using rest unfolding source_rest [OF C] by (simp_all split: if_splits)
    have hid: "hides (level_entries ?v i) (level_entries ?v (i + 1))"
      using st i(1) by (simp add: stack_ok_append stack_ok_Cons source_layers_def)
    note R = rest_hides [OF C i(1) hid]
    have bi: "b \<in> set (level_entries ?v i)" using z(2) i(2) by auto
    have "e \<in> set (level_entries ?v i)"
    proof (cases "y = level_entries ?v i")
      case False
      then have "y = level_entries ?v (i + 1)" using y(1) i(1) by (simp add: source_layers_def)
      then show ?thesis using up [OF _ bi k] hid lay [of "level_entries ?v i"] i(1) by (simp add: source_layers_def)
    qed (use y in simp)
    then obtain x where x: "x \<in> set z" "en_key x = en_key e" "en_seqno e \<le> en_seqno x"
      using R(1) z(2) k ke i(2) unfolding retains_def by metis
    have "x \<in> all_of M Is Vs" using R(1) x(1) lay [of "level_entries ?v i"] i by (auto simp: retains_def source_layers_def)
    then have "x = e" using newest_eq [OF new coh] x ke by blast
    then show False using x(1) lay' [of z] rest by simp
  next
    case level
    obtain h where h: "h \<in> set (?v' ! (i + 1))" "b \<in> set (entries_of h)" using z(2) level by auto
    show False
    proof (cases "h \<in> set outs")
      case True
      note o = output_newest [OF C True h(2)]
      obtain y' where "y' \<in> set (source_layers ?v i @ [level_entries ?v (i + 1)])" "b \<in> set y'"
        using input_layer [OF C o(1)] by blast
      then have "b \<in> all_of M Is Vs" using lay [of y'] by auto
      then have "b = e" using newest_eq [OF new coh] o(3) [OF D(1)] k ke by simp
      then show False using lay' [of z] level z(2) by simp
    next
      case False
      then have K: "h \<in> set (?v ! (i + 1))" "h \<notin> set (overlapping s l (?v ! (i + 1)))" using h(1) new_levels(1) [OF C] by auto
      have "handle_fine h" using V(3) [OF F(1)] K(1) by (simp add: list_all_iff)
      then show False using kept_key [OF F(2,3) K] D(1) fine_range [OF _ h(2)] k ke by fastforce
    qed
  next
    case (below j)
    show False by (rule dropped_below [OF C D(2) below(1,2)]) (use z(2) below(3) k ke in \<open>simp_all only:\<close>)
  qed
qed

subsection \<open>The engine after a compaction\<close>

lemma distinct_levels:
  assumes "\<And>j. j < length v \<Longrightarrow> distinct (map f (v ! j))"
    and "\<And>j k a b. j < length v \<Longrightarrow> k < length v \<Longrightarrow> a \<in> set (v ! j) \<Longrightarrow> b \<in> set (v ! k) \<Longrightarrow> f a = f b \<Longrightarrow> j = k"
  shows "distinct (map f (concat v))"
  using assms
proof (induction v)
  case (Cons x v)
  have "distinct (map f (concat v))"
  proof (rule Cons.IH)
    show "distinct (map f (v ! j))" if "j < length v" for j using Cons.prems(1) [of "Suc j"] that by simp
    show "j = k" if "j < length v" "k < length v" "a \<in> set (v ! j)" "b \<in> set (v ! k)" "f a = f b" for j k a b
      using Cons.prems(2) [of "Suc j" "Suc k" a b] that by simp
  qed
  moreover have "distinct (map f x)" using Cons.prems(1) [of 0] by simp
  moreover have "f a \<noteq> f b" if "a \<in> set x" "y \<in> set v" "b \<in> set y" for a b y
  proof
    assume "f a = f b"
    obtain k where "k < length v" "v ! k = y" using \<open>y \<in> set v\<close> by (auto simp: in_set_conv_nth)
    then show False using Cons.prems(2) [of 0 "Suc k" a b] that \<open>f a = f b\<close> by simp
  qed
  ultimately show ?case by (auto simp: distinct_append)
qed simp

lemma compaction_numbers:
  assumes C: "compaction db M Is Vs c i P s l outs" and n: "db_next_file db \<le> n" "\<forall>h\<in>set outs. number_of h < n"
    and db': "db_version db' = new_version db i P s l outs" "db_next_file db' = n"
  shows "numbers_ok db'"
proof -
  note F = compaction_facts [OF C]
  note V = db_ok_version [OF F(2)]
  let ?v = "db_version db" and ?v' = "new_version db i P s l outs"
  have out: "tm_level (th_meta h) = int (i + 1) \<and> db_next_file db \<le> number_of h" if "h \<in> set outs" for h
    using F(4,8) that unfolding built_def by simp
  have src: "h \<in> set (?v ! j) \<or> j = i + 1 \<and> h \<in> set outs" if "j < 7" "h \<in> set (?v' ! j)" for j h
    using that new_levels [OF C] by (cases "j = i"; cases "j = i + 1") auto
  have lev: "tm_level (th_meta h) = int j \<and> number_of h < n" if "j < 7" "h \<in> set (?v' ! j)" for j h
    using src [OF that] out [of h] V(6) [OF that(1), of h] n by fastforce
  have inj: "inj_on number_of (set (concat ?v))" using V(5) by (simp add: distinct_map)
  have old: "h \<in> set (concat ?v)" if "j < 7" "h \<in> set (?v ! j)" for j h
    using that V(1) by (auto intro!: bexI [of _ "?v ! j"])
  have same: "j = k" if jk: "j < 7" "k < 7" "a \<in> set (?v' ! j)" "b \<in> set (?v' ! k)" "number_of a = number_of b" for j k a b
  proof -
    have "a \<in> set outs \<longleftrightarrow> b \<in> set outs"
      using src [OF jk(1,3)] src [OF jk(2,4)] out V(6) jk by (metis leD)
    moreover have "a = b" if "a \<notin> set outs" "b \<notin> set outs"
    proof -
      have "a \<in> set (concat ?v)" "b \<in> set (concat ?v)" using src [OF jk(1,3)] src [OF jk(2,4)] old jk(1,2) that by blast+
      then show ?thesis using inj jk(5) unfolding inj_on_def by blast
    qed
    ultimately show ?thesis using lev [OF jk(1,3)] lev [OF jk(2,4)] out by force
  qed
  have "distinct (map number_of (concat ?v'))"
    by (rule distinct_levels) (use new_handles(3) [OF C] same in auto)
  moreover have "number_of h < n" if "h \<in> set (concat ?v')" for h
    using that lev by (auto simp: in_set_conv_nth [of _ ?v'])
  moreover have "sorted_wrt (\<lambda>a b. number_of b < number_of a) (?v' ! 0)"
    using new_levels(2,3) [OF C] V(7) by (cases "i = 0") (simp_all add: sorted_wrt_filter)
  then have "sorted_wrt (\<lambda>a b. number_of b < number_of a) (hd ?v')"
    using hd_conv_nth [of ?v'] length_new_version [of db i P s l outs] by (metis list.size(3) zero_neq_numeral)
  ultimately show ?thesis using lev unfolding numbers_ok_def db' by simp
qed

theorem compact_contents:
  assumes C: "compaction db M Is Vs c i P s l outs" and n: "db_next_file db \<le> n" "\<forall>h\<in>set outs. number_of h < n"
    and db': "db_version db' = new_version db i P s l outs" "db_next_file db' = n" "db_mem db' = db_mem db" "db_imm db' = db_imm db"
      "db_options db' = db_options db" "db_last_seq db' = db_last_seq db"
  shows "\<exists>Vs'. db_ok db' M Is Vs' \<and> all_of M Is Vs' \<subseteq> all_of M Is Vs \<and>
    (\<forall>h. shows_all (all_of M Is Vs) h \<longrightarrow> shows_all (all_of M Is Vs') h)"
proof (intro exI conjI allI impI)
  note F = compaction_facts [OF C]
  note V = db_ok_version [OF F(2)]
  let ?v' = "new_version db i P s l outs"
  let ?Vs = "map (map entries_of) ?v'"
  have r: "rep db M Is Vs" using F(2) by (simp add: db_ok_def)
  have nth: "list_all Q ?v' \<longleftrightarrow> (\<forall>j<7. Q (?v' ! j))" for Q by (simp add: list_all_length)
  have "level_ok L" if "L \<in> set (tl ?Vs)" for L
    using that new_handles(2) [OF C] by (auto simp: in_set_conv_nth nth_tl)
  then have r': "rep db' M Is ?Vs"
    using r compaction_stack [OF C] new_handles(1) [OF C]
    unfolding rep_def db_holds_def version_ok_iff db' by (simp add: nth kNumLevels_def)
  have low: "set (level_entries ?v' j) \<subseteq> all_of M Is Vs" if "j < 7" for j
  proof
    fix x
    assume "x \<in> set (level_entries ?v' j)"
    then obtain h where h: "h \<in> set (?v' ! j)" "x \<in> set (entries_of h)" by auto
    have ins: "x \<in> all_of M Is Vs" if "k < 7" "g \<in> set (db_version db ! k)" "x \<in> set (entries_of g)" for g k
      using that V(1) unfolding all_of_def V(2) by (auto intro!: bexI [of _ "db_version db ! k"])
    show "x \<in> all_of M Is Vs"
    proof (cases "h \<in> set (db_version db ! j)")
      case False
      then have o: "h \<in> set outs" using h(1) new_levels [OF C] that by (cases "j = i"; cases "j = i + 1") auto
      obtain g where g: "g \<in> set (cp_inputs c)" "x \<in> set (entries_of g)"
        using output_newest(1) [OF C o h(2)] by (auto simp: merged_set)
      then show ?thesis using picked_fine(2,3) [OF F(2,3) g(1)] ins [OF _ _ g(2)] F(1) by (metis add_lessD1)
    qed (use ins [OF that _ h(2)] in blast)
  qed
  show sub: "all_of M Is ?Vs \<subseteq> all_of M Is Vs"
    using low by (fastforce simp: all_of_def in_set_conv_nth [of _ ?v'])
  show "db_ok db' M Is ?Vs"
    using F(2) r' compaction_numbers [OF C n db'(1,2)] sub unfolding db_ok_def db' by auto
  show "shows_all (all_of M Is ?Vs) h" if "shows_all (all_of M Is Vs) h" for h
  proof (rule shows_all_subset [OF that sub])
    fix k e
    assume new: "is_newest (all_of M Is Vs) k e"
    show "e \<in> all_of M Is ?Vs \<or> en_op e \<noteq> kPut \<and> (\<forall>b\<in>all_of M Is ?Vs. en_key b \<noteq> k)"
      using dropped_entry(2) [OF C new] dropped_key [OF C new] by (auto simp: droppable_def)
  qed
qed

end
