(* ===== verification/DBEngine.thy ===== *)
theory DBEngine
  imports DBMerge
begin

text \<open>
  The background work and the operations of the engine as steps that keep its contents.  An engine
  \<^emph>\<open>serves\<close> a map when it is well formed and shows that map; flushes, compactions, waiting callers
  and failing system calls keep what is served, and a write changes it at its key.
\<close>

definition serves :: "DB \<Rightarrow> (bytes \<rightharpoonup> bytes) \<Rightarrow> bool" where
  "serves db h \<longleftrightarrow> (\<exists>M Is Vs. db_ok db M Is Vs \<and> shows_all (all_of M Is Vs) h)"

text \<open>What background work does not touch.\<close>

definition kept :: "DB \<Rightarrow> DB \<Rightarrow> bool" where
  "kept db db' \<longleftrightarrow> db_options db' = db_options db \<and> db_dir db' = db_dir db \<and> db_last_seq db' = db_last_seq db \<and>
     db_shutdown db' = db_shutdown db \<and> db_wal_number db' = db_wal_number db \<and> db_mem db' = db_mem db"

lemma kept_refl [simp]: "kept db db"
  by (simp add: kept_def)

lemma kept_trans: "kept a b \<Longrightarrow> kept b c \<Longrightarrow> kept a c"
  by (simp add: kept_def)

lemma SaveManifest_clean: "w_io w = [] \<Longrightarrow> \<exists>w'. SaveManifest dir md w = (OK, w') \<and> w_io w' = []"
  unfolding SaveManifest_def using WriteFileAtomic_ok by blast

lemma remove_file_io [simp]: "w_io (remove_file p w) = w_io w"
  by (simp add: remove_file_def drop_file_def)

lemma remove_files_io [simp]: "w_io (fold (\<lambda>h. remove_file (f h)) hs w) = w_io w"
  by (induction hs arbitrary: w) simp_all

text \<open>A new number for the next file, or a recorded error, keeps an engine well formed.\<close>

lemma db_ok_failed:
  assumes "db_ok db M Is Vs" and "db_next_file db \<le> n"
  shows "db_ok (db\<lparr>db_next_file := n, db_bg_error := s\<rparr>) M Is Vs"
  using assms numbers_ok_next [of db "db\<lparr>db_next_file := n, db_bg_error := s\<rparr>"]
  by (simp add: db_ok_def rep_def db_holds_def)

subsection \<open>Flushing and compacting\<close>

text \<open>The common end of \<open>FlushOne\<close> and \<open>DoCompaction\<close>: the manifest names the new version before the engine does.\<close>

definition install :: "build_state \<Rightarrow> Version \<Rightarrow> (DB \<Rightarrow> DB) \<Rightarrow> (world \<Rightarrow> world) \<Rightarrow> DB \<Rightarrow> DB \<times> world" where
  "install st nv fin tidy db =
     (let db1 = db\<lparr>db_next_file := bs_next_file st\<rparr>
      in if \<not> is_ok (bs_status st) then (db1\<lparr>db_bg_error := bs_status st\<rparr>, bs_world st)
         else case SaveManifest (db_dir db) (manifest_of (bs_next_file st) (db_last_seq db) nv) (bs_world st) of
                (s, w2) \<Rightarrow> if \<not> is_ok s then (db1\<lparr>db_bg_error := s\<rparr>, w2)
                           else (fin (db1\<lparr>db_version := nv\<rparr>), tidy w2))"

definition flushed_version :: "DB \<Rightarrow> TableHandle list \<Rightarrow> Version" where
  "flushed_version db outs = (db_version db)[0 := SortLevel 0 (db_version db ! 0 @ outs)]"

lemma FlushOne_install:
  assumes ok: "db_ok db M (I # Is) Vs" and imm: "db_imm db = (m, wn) # imm"
  shows "\<exists>st. build_result (db_dir db) 0 (db_next_file db) w st (survivors (\<lambda>_. False) None I) \<and>
    FlushOne db w = Some (install st (flushed_version db (bs_outputs st)) (\<lambda>db. db\<lparr>db_imm := imm\<rparr>)
      (remove_file (WalPath (db_dir db) wn)) db)"
proof -
  have m: "mem_holds m I" "modest (db_options db)" "mem_size I \<le> 10 * 2 ^ 24"
    using ok imm by (auto simp: db_ok_def rep_def db_holds_def)
  obtain st where st: "BuildTableFromIterator mem_ops (db_options db) (db_dir db) (mem_NewIterator m) 0
        (db_version db) (2 ^ 64 - 1) (db_next_file db) w = Some st"
      "build_result (db_dir db) 0 (db_next_file db) w st (survivors (\<lambda>_. False) None I)"
    using flush_build [OF m] by blast
  obtain s w2 where sm: "SaveManifest (db_dir db) (manifest_of (bs_next_file st) (db_last_seq db) (flushed_version db (bs_outputs st))) (bs_world st) = (s, w2)"
    by fastforce
  show ?thesis
    using imm st sm by (intro exI [of _ st]) (simp add: FlushOne_def install_def Let_def flushed_version_def)
qed

text \<open>The call of \<open>BuildTableFromIterator\<close> in a compaction.\<close>

lemma compact_build:
  assumes ok: "db_ok db M Is Vs" and pk: "picked (db_version db) c i P s l"
  shows "\<exists>st. BuildTableFromIterator (merging_ops table_ops) (db_options db) (db_dir db)
      (NewMergingIterator (map (\<lambda>h. table_NewIterator (th_table h)) (cp_inputs c))) (cp_output_level c)
      (db_version db) (opt_max_output_file_bytes (db_options db)) (db_next_file db) w = Some st \<and>
    build_result (db_dir db) (cp_output_level c) (db_next_file db) w st
      (survivors (droppable (cp_output_level c) (db_version db)) None (inputs_of c))"
proof -
  let ?opts = "db_options db" and ?gone = "droppable (cp_output_level c) (db_version db)"
  have fine: "table_holds (th_table h) (entries_of h)" "sorted_entries (entries_of h)" if "h \<in> set (cp_inputs c)" for h
    using picked_fine(1) [OF ok pk that] table_holds_sorted by (auto simp: handle_fine_def handle_ok_def)
  have it: "merging_at table_ops table_at (NewMergingIterator (map (\<lambda>h. table_NewIterator (th_table h)) (cp_inputs c))) (inputs_of c) []"
    by (rule table_children.fresh) (use fine table_holds_iter in auto)
  have small: "\<forall>e\<in>set (inputs_of c). small_entry e"
  proof
    fix e
    assume "e \<in> set (inputs_of c)"
    then obtain h where h: "h \<in> set (cp_inputs c)" "e \<in> set (entries_of h)" by (auto simp: merged_set)
    have i: "i < 7" "i + 1 < 7" using pk by (simp_all add: picked_def kNumLevels_def)
    have "\<exists>j<7. h \<in> set (db_version db ! j)" using picked_fine(2,3) [OF ok pk h(1)] i by blast
    then have "e \<in> all_of M Is Vs"
      using h(2) db_ok_version(1,2) [OF ok] by (auto simp: all_of_def intro!: bexI [of _ "db_version db ! _"])
    then show "small_entry e" using ok by (simp add: db_ok_def)
  qed
  have "pieces_ok ?opts (opt_max_output_file_bytes ?opts) (survivors ?gone None (inputs_of c))"
    unfolding pieces_ok_def
  proof (intro conjI allI impI)
    show "sorted_entries (survivors ?gone None (inputs_of c))" by (rule strict_sorted_entries [OF survivors_sorted [OF sorted_merged]])
    fix ys
    assume a: "sublist ys (survivors ?gone None (inputs_of c)) \<and>
      (butlast ys = [] \<or> length (block_bytes (butlast ys)) < opt_max_output_file_bytes ?opts)"
    then have "set ys \<subseteq> set (inputs_of c)" using survivors_subset set_mono_sublist by fastforce
    then show "table_small (table_options ?opts) ys"
      using a small ok by (intro table_small_cut) (auto simp: db_ok_def)
  qed
  then show ?thesis using table_children.merge.build_table [OF it] by blast
qed

lemma DoCompaction_install:
  assumes ok: "db_ok db M Is Vs" and pk: "picked (db_version db) c i P s l"
  shows "\<exists>st. build_result (db_dir db) (cp_output_level c) (db_next_file db) w st
      (survivors (droppable (cp_output_level c) (db_version db)) None (inputs_of c)) \<and>
    DoCompaction c db w = Some (install st (install_outputs (db_version db) c (bs_outputs st)) id
      (fold (\<lambda>h. remove_file (SstPath (db_dir db) (number_of h))) (cp_inputs c)) db)"
proof -
  obtain st where st: "BuildTableFromIterator (merging_ops table_ops) (db_options db) (db_dir db)
      (NewMergingIterator (map (\<lambda>h. table_NewIterator (th_table h)) (cp_inputs c))) (cp_output_level c)
      (db_version db) (opt_max_output_file_bytes (db_options db)) (db_next_file db) w = Some st"
    "build_result (db_dir db) (cp_output_level c) (db_next_file db) w st
      (survivors (droppable (cp_output_level c) (db_version db)) None (inputs_of c))"
    using compact_build [OF ok pk] by blast
  show ?thesis
    using st by (intro exI [of _ st]) (simp add: DoCompaction_def install_def Let_def split: prod.splits)
qed

lemma outputs_built:
  assumes "list_all2 (output_ok dir (cp_output_level c) w) outs oss" and "numbered (db_next_file db) n outs"
    and "concat oss = survivors (droppable (cp_output_level c) (db_version db)) None (inputs_of c)"
  shows "built db c outs"
proof -
  have h: "list_all handle_fine outs" "oss = map entries_of outs"
    using output_handles [OF assms(1)] by (simp_all add: handles_ok_iff)
  have "\<forall>h\<in>set outs. tm_level (th_meta h) = int (cp_output_level c)"
    using assms(1) by (auto simp: list_all2_conv_all_nth in_set_conv_nth output_ok_def)
  moreover have "distinct (map number_of outs)" using assms(2) strict_sorted_iff unfolding numbered_def by blast
  ultimately show ?thesis using h assms(2,3) by (simp add: built_def numbered_def)
qed

lemma install_cases:
  assumes "install st nv fin tidy db = (db', w')" and "build_result dir level n w st es"
  shows "(\<exists>s. \<not> is_ok s \<and> db' = db\<lparr>db_next_file := bs_next_file st, db_bg_error := s\<rparr>) \<or>
      is_ok (bs_status st) \<and> db' = fin (db\<lparr>db_next_file := bs_next_file st, db_version := nv\<rparr>)"
    and "w_io w = [] \<Longrightarrow> (\<And>w. w_io (tidy w) = w_io w) \<Longrightarrow>
      is_ok (bs_status st) \<and> db' = fin (db\<lparr>db_next_file := bs_next_file st, db_version := nv\<rparr>) \<and> w_io w' = []"
proof -
  show "(\<exists>s. \<not> is_ok s \<and> db' = db\<lparr>db_next_file := bs_next_file st, db_bg_error := s\<rparr>) \<or>
      is_ok (bs_status st) \<and> db' = fin (db\<lparr>db_next_file := bs_next_file st, db_version := nv\<rparr>)"
    using assms(1) by (auto simp only: install_def Let_def split: if_splits prod.splits)
  show "is_ok (bs_status st) \<and> db' = fin (db\<lparr>db_next_file := bs_next_file st, db_version := nv\<rparr>) \<and> w_io w' = []"
    if "w_io w = []" and t: "\<And>w. w_io (tidy w) = w_io w"
  proof -
    have o: "is_ok (bs_status st)" "w_io (bs_world st) = []" using assms(2) that(1) by (simp_all add: build_result_def)
    obtain w2 where "SaveManifest (db_dir db) (manifest_of (bs_next_file st) (db_last_seq db) nv) (bs_world st) = (OK, w2)" "w_io w2 = []"
      using SaveManifest_clean [OF o(2)] by blast
    then show ?thesis using assms(1) o t by (auto simp: install_def)
  qed
qed

text \<open>The outcome of a step of background work.\<close>

definition worked :: "DB \<Rightarrow> world \<Rightarrow> (bytes \<rightharpoonup> bytes) \<Rightarrow> DB \<Rightarrow> world \<Rightarrow> bool" where
  "worked db w h db' w' \<longleftrightarrow> serves db' h \<and> kept db db' \<and> length (db_imm db') \<le> length (db_imm db) \<and>
     (w_io w = [] \<and> is_ok (db_bg_error db) \<longrightarrow> is_ok (db_bg_error db') \<and> w_io w' = [])"

lemma worked_refl: "serves db h \<Longrightarrow> worked db w h db w"
  by (simp add: worked_def)

lemma worked_trans: "worked a w h b w' \<Longrightarrow> worked b w' h c w'' \<Longrightarrow> worked a w h c w''"
  by (auto simp: worked_def intro: kept_trans)

lemma FlushOne_worked:
  assumes "serves db h" and "db_imm db \<noteq> []"
  shows "\<exists>db' w'. FlushOne db w = Some (db', w') \<and> worked db w h db' w' \<and>
    (is_ok (db_bg_error db') \<longrightarrow> length (db_imm db') < length (db_imm db))"
proof -
  obtain M Is' Vs where ok: "db_ok db M Is' Vs" and sh: "shows_all (all_of M Is' Vs) h" using assms(1) by (auto simp: serves_def)
  obtain m wn imm where imm: "db_imm db = (m, wn) # imm" using assms(2) by (metis list.exhaust surj_pair)
  obtain I Is where Is: "Is' = I # Is" using ok imm by (auto simp: db_ok_def rep_def db_holds_def list_all2_Cons1)
  obtain st where st: "build_result (db_dir db) 0 (db_next_file db) w st (survivors (\<lambda>_. False) None I)"
      "FlushOne db w = Some (install st (flushed_version db (bs_outputs st)) (\<lambda>db. db\<lparr>db_imm := imm\<rparr>)
        (remove_file (WalPath (db_dir db) wn)) db)"
    using FlushOne_install [OF ok [unfolded Is] imm] by blast
  obtain db' w' where i: "install st (flushed_version db (bs_outputs st)) (\<lambda>db. db\<lparr>db_imm := imm\<rparr>)
      (remove_file (WalPath (db_dir db) wn)) db = (db', w')" by fastforce
  note c = install_cases [OF i st(1)]
  let ?new = "db\<lparr>db_next_file := bs_next_file st, db_version := flushed_version db (bs_outputs st), db_imm := imm\<rparr>"
  have n: "db_next_file db \<le> bs_next_file st" using st(1) by (simp add: build_result_def)
  have good: "serves ?new h" if o: "is_ok (bs_status st)"
  proof -
    obtain oss where oss: "list_all2 (output_ok (db_dir db) 0 (bs_world st)) (bs_outputs st) oss"
        "numbered (db_next_file db) (bs_next_file st) (bs_outputs st)" "concat oss = survivors (\<lambda>_. False) None I"
      using st(1) o by (auto simp: build_result_def)
    obtain Vs' where "db_ok ?new M Is Vs'" "\<forall>h. shows_all (all_of M (I # Is) Vs) h \<longrightarrow> shows_all (all_of M Is Vs') h"
      using flush_contents [OF ok [unfolded Is] imm oss(1,2) n oss(3) refl] unfolding flushed_version_def by auto
    then show ?thesis using sh Is unfolding serves_def by blast
  qed
  have "serves db' h \<and> kept db db' \<and> length (db_imm db') \<le> length (db_imm db) \<and>
      (is_ok (db_bg_error db') \<longrightarrow> length (db_imm db') < length (db_imm db))"
    using c(1)
  proof
    assume "\<exists>s. \<not> is_ok s \<and> db' = db\<lparr>db_next_file := bs_next_file st, db_bg_error := s\<rparr>"
    then obtain s where "\<not> is_ok s" "db' = db\<lparr>db_next_file := bs_next_file st, db_bg_error := s\<rparr>" by blast
    then show ?thesis using db_ok_failed [OF ok n] sh unfolding serves_def by (simp add: kept_def) blast
  qed (use good imm in \<open>auto simp: kept_def\<close>)
  moreover have "is_ok (db_bg_error db') \<and> w_io w' = []" if "w_io w = []" "is_ok (db_bg_error db)"
    using c(2) [OF that(1)] that(2) by simp
  ultimately show ?thesis using st(2) i by (auto simp: worked_def)
qed

lemma DoCompaction_worked:
  assumes "serves db h" and "picked (db_version db) c i P s l"
  shows "\<exists>db' w'. DoCompaction c db w = Some (db', w') \<and> worked db w h db' w'"
proof -
  obtain M Is Vs where ok: "db_ok db M Is Vs" and sh: "shows_all (all_of M Is Vs) h" using assms(1) by (auto simp: serves_def)
  obtain st where st: "build_result (db_dir db) (cp_output_level c) (db_next_file db) w st
      (survivors (droppable (cp_output_level c) (db_version db)) None (inputs_of c))"
    "DoCompaction c db w = Some (install st (install_outputs (db_version db) c (bs_outputs st)) id
      (fold (\<lambda>h. remove_file (SstPath (db_dir db) (number_of h))) (cp_inputs c)) db)"
    using DoCompaction_install [OF ok assms(2)] by blast
  obtain db' w' where i: "install st (install_outputs (db_version db) c (bs_outputs st)) id
      (fold (\<lambda>h. remove_file (SstPath (db_dir db) (number_of h))) (cp_inputs c)) db = (db', w')" by fastforce
  note c = install_cases [OF i st(1)]
  let ?outs = "bs_outputs st"
  let ?new = "db\<lparr>db_next_file := bs_next_file st, db_version := install_outputs (db_version db) c ?outs\<rparr>"
  have n: "db_next_file db \<le> bs_next_file st" using st(1) by (simp add: build_result_def)
  have good: "serves ?new h" if o: "is_ok (bs_status st)"
  proof -
    obtain oss where oss: "list_all2 (output_ok (db_dir db) (cp_output_level c) (bs_world st)) ?outs oss"
        "numbered (db_next_file db) (bs_next_file st) ?outs"
        "concat oss = survivors (droppable (cp_output_level c) (db_version db)) None (inputs_of c)"
      using st(1) o by (auto simp: build_result_def)
    have "built db c ?outs" by (rule outputs_built [OF oss])
    then have C: "compaction db M Is Vs c i P s l ?outs" using ok assms(2) by (simp add: compaction_def)
    have "\<forall>h\<in>set ?outs. number_of h < bs_next_file st" using oss(2) by (simp add: numbered_def)
    from compact_contents [OF C n this, of ?new]
    obtain Vs' where "db_ok ?new M Is Vs'" "\<forall>h. shows_all (all_of M Is Vs) h \<longrightarrow> shows_all (all_of M Is Vs') h"
      by (auto simp: new_version_def install_outputs_levels [OF ok assms(2)])
    then show ?thesis using sh unfolding serves_def by blast
  qed
  have "serves db' h \<and> kept db db' \<and> length (db_imm db') \<le> length (db_imm db)"
    using c(1)
  proof
    assume "\<exists>s. \<not> is_ok s \<and> db' = db\<lparr>db_next_file := bs_next_file st, db_bg_error := s\<rparr>"
    then obtain s where "\<not> is_ok s" "db' = db\<lparr>db_next_file := bs_next_file st, db_bg_error := s\<rparr>" by blast
    then show ?thesis using db_ok_failed [OF ok n] sh unfolding serves_def by (simp add: kept_def) blast
  qed (use good in \<open>auto simp: kept_def\<close>)
  moreover have "is_ok (db_bg_error db') \<and> w_io w' = []" if "w_io w = []" "is_ok (db_bg_error db)"
    using c(2) [OF that(1)] that(2) by simp
  ultimately show ?thesis using st(2) i by (auto simp: worked_def)
qed

lemma background_step_worked:
  assumes "serves db h" and "background_step db w = Some (db', w')"
  shows "worked db w h db' w'"
proof (cases "db_imm db = []")
  case False
  then have "FlushOne db w = Some (db', w')" using assms(2) by (simp add: background_step_def split: if_splits)
  then show ?thesis using FlushOne_worked [OF assms(1) False, of w] by auto
next
  case True
  then obtain c db1 where p: "PickCompaction db = Some (c, db1)" "DoCompaction c db1 w = Some (db', w')"
    using assms(2) by (auto simp: background_step_def split: if_splits option.splits)
  have "0 < opt_l0_compaction_trigger (db_options db)" using assms(1) by (auto simp: serves_def db_ok_def modest_def)
  then obtain i P s l ptr where pk: "picked (db_version db) c i P s l" and db1: "db1 = db\<lparr>db_compact_ptr := ptr\<rparr>"
    using PickCompaction_picked [OF p(1)] by blast
  have "serves db1 h" using assms(1) unfolding serves_def db_ok_def rep_def db_holds_def numbers_ok_def db1 by simp
  then have "worked db1 w h db' w'" using DoCompaction_worked [of db1 h c i P s l w] pk p(2) db1 by auto
  then show ?thesis by (simp add: worked_def kept_def db1)
qed

subsection \<open>Waiting\<close>

lemma wait_below_worked:
  assumes "serves db h" and "0 < n"
  shows "\<exists>db' w'. wait_below n db w = Some (db', w') \<and> worked db w h db' w' \<and>
    (length (db_imm db') < n \<or> \<not> is_ok (db_bg_error db') \<or> db_shutdown db')"
  using assms(1)
proof (induction "if is_ok (db_bg_error db) then Suc (length (db_imm db)) else 0" arbitrary: db w rule: less_induct)
  case less
  show ?case
  proof (cases "length (db_imm db) \<ge> n \<and> is_ok (db_bg_error db) \<and> \<not> db_shutdown db")
    case False
    then show ?thesis using worked_refl [OF less.prems] by (auto simp: wait_below.simps [of n db w])
  next
    case True
    then have ne: "db_imm db \<noteq> []" using assms(2) by auto
    obtain db1 w1 where f: "FlushOne db w = Some (db1, w1)" "worked db w h db1 w1"
        "is_ok (db_bg_error db1) \<longrightarrow> length (db_imm db1) < length (db_imm db)"
      using FlushOne_worked [OF less.prems ne] by blast
    have "\<exists>db' w'. wait_below n db1 w1 = Some (db', w') \<and> worked db1 w1 h db' w' \<and>
        (length (db_imm db') < n \<or> \<not> is_ok (db_bg_error db') \<or> db_shutdown db')"
      by (rule less.hyps) (use f True in \<open>auto simp: worked_def\<close>)
    then obtain db' w' where r: "wait_below n db1 w1 = Some (db', w')" "worked db1 w1 h db' w'"
        "length (db_imm db') < n \<or> \<not> is_ok (db_bg_error db') \<or> db_shutdown db'" by blast
    have "wait_below n db w = Some (db', w')" using True f(1) r(1) by (simp add: wait_below.simps [of n db w])
    then show ?thesis using worked_trans [OF f(2) r(2)] r(3) by blast
  qed
qed

subsection \<open>Writing\<close>

abbreviation written :: "Op \<Rightarrow> bytes \<Rightarrow> bytes \<Rightarrow> (bytes \<rightharpoonup> bytes) \<Rightarrow> bytes \<rightharpoonup> bytes" where
  "written op key val h \<equiv> h(key := (if op = kPut then Some val else None))"

text \<open>A write takes effect exactly when the sequence number advances.\<close>

definition write_outcome :: "Op \<Rightarrow> bytes \<Rightarrow> bytes \<Rightarrow> DB \<Rightarrow> (bytes \<rightharpoonup> bytes) \<Rightarrow> status \<Rightarrow> DB \<Rightarrow> bool" where
  "write_outcome op key val db h s db' \<longleftrightarrow>
     (if db_last_seq db' = db_last_seq db then \<not> is_ok s \<and> serves db' h
      else db_last_seq db' = db_last_seq db + 1 \<and> serves db' (written op key val h))"

definition roomy :: "DB \<Rightarrow> bool" where
  "roomy db \<longleftrightarrow> mt_bytes (db_mem db) \<le> 2 ^ 24"

lemma WalWriter_clean:
  assumes "w_io w = []"
  shows "\<exists>w'. WalWriter_Append path e w = (OK, w') \<and> w_io w' = []" "WalWriter_Sync path w = (OK, w)"
    "\<exists>w'. WalWriter_Open path w = (OK, w') \<and> w_io w' = []"
proof -
  have "length (frame_record (EncodePayload e)) > 0" by (simp add: frame_record_def)
  then have "frame_record (EncodePayload e) \<noteq> []" by blast
  then show "\<exists>w'. WalWriter_Append path e w = (OK, w') \<and> w_io w' = []"
    using write_loop_no_fault [OF assms, of "frame_record (EncodePayload e)" path] assms by (simp add: WalWriter_Append_def)
qed (use assms in \<open>simp_all add: WalWriter_Sync_def WalWriter_Open_def sys_call_no_fault\<close>)

lemma SwitchMemtable_clean:
  assumes "w_io w = []"
  shows "\<exists>db' w'. SwitchMemtable db w = (OK, db', w') \<and> w_io w' = [] \<and> roomy db'"
  using WalWriter_clean(3) [OF assms, of "WalPath (db_dir db) (db_next_file db)"]
  by (auto simp: SwitchMemtable_def Let_def roomy_def MemTable_new_def)

text \<open>Without faults a write succeeds and leaves the engine ready for the next one.\<close>

lemma write_entry_clean:
  assumes w: "w_io w = []" and r: "is_ok (db_bg_error db)" "\<not> db_shutdown db" "modest (db_options db)"
    and x: "write_entry rng op key val db w = Some (s, db', w')"
  shows "is_ok s \<and> w_io w' = [] \<and> is_ok (db_bg_error db') \<and> \<not> db_shutdown db' \<and> roomy db'"
proof -
  let ?p = "WalPath (db_dir db) (db_wal_number db)"
  obtain w1 where a: "WalWriter_Append ?p (new_entry db op key val) w = (OK, w1)" "w_io w1 = []"
    using WalWriter_clean(1) [OF w] by blast
  have eq: "write_entry rng op key val db w = map_option
      (\<lambda>m. let db = db\<lparr>db_last_seq := db_last_seq db + 1, db_mem := m\<rparr>
         in if mt_bytes m \<ge> opt_write_buffer_size (db_options db)
            then (case SwitchMemtable db w1 of (s, db, w3) \<Rightarrow> if is_ok s then (OK, db, w3) else (s, db, w3))
            else (OK, db, w1))
      (MemTable_Add rng (db_last_seq db + 1) op key val (db_mem db))"
    using r a(1) WalWriter_clean(2) [OF a(2)] by (cases "opt_fsync_writes (db_options db)") (simp_all add: write_entry_def Let_def)
  obtain m where m: "MemTable_Add rng (db_last_seq db + 1) op key val (db_mem db) = Some m"
    using x unfolding eq by auto
  let ?db = "db\<lparr>db_last_seq := db_last_seq db + 1, db_mem := m\<rparr>"
  show ?thesis
  proof (cases "mt_bytes m \<ge> opt_write_buffer_size (db_options db)")
    case True
    obtain db2 w2 where sw: "SwitchMemtable ?db w1 = (OK, db2, w2)" "w_io w2 = []" "roomy db2" using SwitchMemtable_clean [OF a(2)] by blast
    note F = SwitchMemtable_fields [OF sw(1)]
    have "s = OK" "db' = db2" "w' = w2" using x m sw(1) True unfolding eq by (auto simp: Let_def)
    then show ?thesis using sw F r by simp
  next
    case False
    have "s = OK" "db' = ?db" "w' = w1" using x m False unfolding eq by (auto simp: Let_def)
    then show ?thesis using a(2) r False by (simp add: roomy_def modest_def)
  qed
qed

lemma written_entry:
  assumes "wrote db (new_entry db op key val) M Is Vs db'" and "shows_all (all_of M Is Vs) h"
    and "\<forall>b\<in>all_of M Is Vs. en_seqno b \<le> db_last_seq db" and "db_last_seq db \<noteq> - 1"
  shows "serves db' (written op key val h)"
proof -
  let ?e = "new_entry db op key val"
  have "\<forall>b\<in>all_of M Is Vs. en_seqno b < en_seqno ?e" using assms(3) less_plus_1 [OF assms(4)] by fastforce
  from shows_all_insert [OF assms(2) this]
  have "shows_all (insert ?e (all_of M Is Vs)) (written op key val h)" by (cases op) (simp_all add: shown_def)
  then show ?thesis using assms(1) unfolding wrote_def serves_def by metis
qed

lemma WriteImpl_outcome:
  assumes "serves db h" and "length key + length val \<le> 2 ^ 25" and seq: "db_last_seq db \<noteq> - 1" and "roomy db"
  shows "\<exists>s db' w'. WriteImpl rng op key val db w = Some (s, db', w') \<and> write_outcome op key val db h s db' \<and>
    (w_io w = [] \<and> is_ok (db_bg_error db) \<and> \<not> db_shutdown db \<longrightarrow>
       is_ok s \<and> w_io w' = [] \<and> is_ok (db_bg_error db') \<and> \<not> db_shutdown db' \<and> roomy db')"
proof -
  obtain db1 w1 where a: "wait_below 2 db w = Some (db1, w1)" "worked db w h db1 w1"
    using wait_below_worked [OF assms(1), of 2 w] by auto
  obtain M Is Vs where ok: "db_ok db1 M Is Vs" and sh: "shows_all (all_of M Is Vs) h" using a(2) by (auto simp: worked_def serves_def)
  have k: "db_last_seq db1 = db_last_seq db" "db_mem db1 = db_mem db" "db_shutdown db1 = db_shutdown db"
    using a(2) by (simp_all add: worked_def kept_def)
  obtain s db' w' where b: "write_entry rng op key val db1 w1 = Some (s, db', w')"
      "if is_ok s then wrote db1 (new_entry db1 op key val) M Is Vs db' else db' = db1 \<or> wrote db1 (new_entry db1 op key val) M Is Vs db'"
    using write_entry_ok [OF ok, where op = op and key = key and val = val and w = w1 and rng = rng] assms(2,4) seq k by (auto simp: small_entry_def roomy_def)
  have x: "WriteImpl rng op key val db w = Some (s, db', w')" using a(1) b(1) by (simp add: WriteImpl_def)
  have sq: "db_last_seq db + 1 \<noteq> db_last_seq db" by simp
  have old: "\<forall>b\<in>all_of M Is Vs. en_seqno b \<le> db_last_seq db1" using ok by (simp add: db_ok_def)
  have "serves db1 h" using ok sh by (auto simp: serves_def)
  moreover have "db_last_seq db' = db_last_seq db + 1 \<and> serves db' (written op key val h)"
    if "wrote db1 (new_entry db1 op key val) M Is Vs db'"
    using written_entry [OF that sh old] that k(1) seq by (simp only: wrote_def simp_thms)
  ultimately have "write_outcome op key val db h s db'"
    using b(2) k(1) sq by (cases "is_ok s"; cases "db' = db1") (simp_all add: write_outcome_def)
  moreover have "is_ok s \<and> w_io w' = [] \<and> is_ok (db_bg_error db') \<and> \<not> db_shutdown db' \<and> roomy db'"
    if "w_io w = [] \<and> is_ok (db_bg_error db) \<and> \<not> db_shutdown db"
    by (rule write_entry_clean [OF _ _ _ _ b(1)]) (use that a(2) k ok in \<open>auto simp: worked_def db_ok_def\<close>)
  ultimately show ?thesis using x by blast
qed

subsection \<open>Flushing on demand\<close>

lemma SwitchMemtable_serves:
  assumes "serves db h" and "SwitchMemtable db w = (s, db', w')"
  shows "serves db' h"
proof -
  obtain M Is Vs where ok: "db_ok db M Is Vs" and sh: "shows_all (all_of M Is Vs) h" using assms(1) by (auto simp: serves_def)
  note S = SwitchMemtable_ok [OF ok assms(2)]
  show ?thesis using S sh unfolding serves_def by (metis (no_types))
qed

lemma wait_flushed_outcome:
  assumes "serves db h"
  shows "\<exists>s db' w'. wait_flushed db w = Some (s, db', w') \<and> worked db w h db' w' \<and> (is_ok s \<longrightarrow> db_imm db' = []) \<and>
    (w_io w = [] \<and> is_ok (db_bg_error db) \<and> \<not> db_shutdown db \<longrightarrow> is_ok s)"
proof -
  obtain db' w' where a: "wait_below 1 db w = Some (db', w')" "worked db w h db' w'"
      "length (db_imm db') < 1 \<or> \<not> is_ok (db_bg_error db') \<or> db_shutdown db'"
    using wait_below_worked [OF assms, of 1 w] by auto
  then show ?thesis by (auto simp: wait_flushed_def worked_def kept_def)
qed

lemma DB_Flush_outcome:
  assumes "serves db h"
  shows "\<exists>s db' w'. DB_Flush db w = Some (s, db', w') \<and> serves db' h \<and> db_last_seq db' = db_last_seq db \<and>
    (is_ok s \<longrightarrow> db_imm db' = [] \<and> mt_count (db_mem db') = 0) \<and> (roomy db \<longrightarrow> roomy db') \<and>
    (w_io w = [] \<and> is_ok (db_bg_error db) \<and> \<not> db_shutdown db \<longrightarrow>
       is_ok s \<and> w_io w' = [] \<and> is_ok (db_bg_error db') \<and> \<not> db_shutdown db')"
proof (cases "mt_count (db_mem db) > 0")
  case False
  obtain s db' w' where "wait_flushed db w = Some (s, db', w')" "worked db w h db' w'" "is_ok s \<longrightarrow> db_imm db' = []"
      "w_io w = [] \<and> is_ok (db_bg_error db) \<and> \<not> db_shutdown db \<longrightarrow> is_ok s"
    using wait_flushed_outcome [OF assms] by blast
  then show ?thesis using False by (auto simp: DB_Flush_def worked_def kept_def roomy_def)
next
  case True
  obtain s1 db1 w1 where sw: "SwitchMemtable db w = (s1, db1, w1)" by (metis surj_pair)
  note F = SwitchMemtable_fields [OF sw] and S = SwitchMemtable_serves [OF assms sw]
  have c: "w_io w = [] \<longrightarrow> is_ok s1 \<and> w_io w1 = []" using SwitchMemtable_clean [of w db] sw by auto
  show ?thesis
  proof (cases "is_ok s1")
    case False
    then show ?thesis using True sw S F c by (auto simp: DB_Flush_def roomy_def)
  next
    case ok: True
    obtain s db' w' where "wait_flushed db1 w1 = Some (s, db', w')" "worked db1 w1 h db' w'" "is_ok s \<longrightarrow> db_imm db' = []"
        "w_io w1 = [] \<and> is_ok (db_bg_error db1) \<and> \<not> db_shutdown db1 \<longrightarrow> is_ok s"
      using wait_flushed_outcome [OF S] by blast
    then show ?thesis using True ok sw F c by (auto simp: DB_Flush_def worked_def kept_def roomy_def MemTable_new_def)
  qed
qed

subsection \<open>Opening an empty directory\<close>

lemma load_version_empty:
  assumes "w_files w (manifest_path (db_dir db)) = None" and l: "load_version db w = (r, w')"
  shows "r = Inr (empty_manifest, replicate 7 []) \<or> (\<exists>s. r = Inl s \<and> \<not> is_ok s)"
proof -
  obtain x w0 where n: "next_io w = (x, w0)" by fastforce
  have "w_files w0 (manifest_path (db_dir db)) = None" using next_ioD(1) [OF n] assms(1) by simp
  then have "\<exists>s w1. ReadFileToString (manifest_path (db_dir db)) w = (Inl s, w1) \<and> \<not> is_ok s"
    using n by (cases x) (simp_all add: ReadFileToString_def Errno_def)
  then obtain s w1 where rd: "LoadManifest (db_dir db) w = (Inl s, w1)" "\<not> is_ok s" by (auto simp: LoadManifest_def)
  have "map (\<lambda>i. SortLevel i (replicate kNumLevels [] ! i)) [0..<kNumLevels] = replicate 7 []"
    by (rule nth_equalityI) (simp_all add: kNumLevels_def SortLevel_def)
  then show ?thesis
    using l rd by (auto simp: load_version_def empty_manifest_def split: if_splits)
qed

lemma sys_call_files: "sys_call id w = (r, w') \<Longrightarrow> w_files w' = w_files w"
  by (auto elim!: sys_callD)

lemma DB_Open_empty:
  assumes "w_files w (manifest_path dir) = None" and "DB_Open rng [] opts dir w = Some (Inr db, w')"
  shows "db = (DB_new opts dir)\<lparr>db_next_file := 2, db_wal_number := 1\<rparr>"
proof -
  let ?new = "DB_new opts dir"
  obtain s w2 where r: "Recover rng [] ?new w = Some (s, db, w2)" "is_ok s"
    using assms(2) by (auto simp: DB_Open_def split: if_splits)
  obtain w1 where c: "sys_call id w = (None, w1)" using r by (auto simp: Recover_def split: prod.splits option.splits)
  obtain q w3 where l: "load_version ?new w1 = (q, w3)" by fastforce
  have "w_files w1 (manifest_path (db_dir ?new)) = None" using sys_call_files [OF c] assms(1) by (simp add: DB_new_def)
  from load_version_empty [OF this l] have E: "q = Inr (empty_manifest, replicate 7 [])"
    using r c l by (auto simp: Recover_def)
  let ?db = "?new\<lparr>db_next_file := 1, db_last_seq := 0, db_version := replicate 7 []\<rparr>"
  have "start_wal [] ?db w3 = (s, db, w2)"
    using r(1) c l E by (simp add: Recover_def empty_manifest_def Let_def flush_replayed_def DB_new_def MemTable_new_def)
  then show ?thesis
    using r(2) by (auto simp: start_wal_def Let_def DB_new_def kNumLevels_def split: prod.splits if_splits)
qed

lemma fresh_serves:
  assumes "modest opts"
  shows "serves ((DB_new opts dir)\<lparr>db_next_file := n, db_wal_number := k\<rparr>) Map.empty"
proof -
  let ?db = "(DB_new opts dir)\<lparr>db_next_file := n, db_wal_number := k\<rparr>" and ?Vs = "replicate 7 [] :: Entry list list list"
  have L: "layers [] [] ?Vs = replicate 7 []" by (simp add: layers_def numeral_eq_Suc)
  have "stack_ok (layers [] [] ?Vs)"
    unfolding L by (simp add: stack_ok_def coherent_def numeral_eq_Suc hides_def)
  then have "rep ?db [] [] ?Vs"
    using mem_holds_new by (auto simp: rep_def db_holds_def DB_new_def kNumLevels_def numeral_eq_Suc level_ok_def)
  moreover have "numbers_ok ?db" by (simp add: numbers_ok_def DB_new_def kNumLevels_def)
  ultimately have "db_ok ?db [] [] ?Vs"
    using assms by (simp add: db_ok_def DB_new_def all_of_def MemTable_new_def)
  moreover have "shows_all (all_of [] [] ?Vs) Map.empty"
    by (auto simp: shows_all_def shows_at_def all_of_def is_newest_def)
  ultimately show ?thesis unfolding serves_def by blast
qed

lemma DB_Open_empty_serves:
  assumes "modest opts" and "w_files w (manifest_path dir) = None" and "DB_Open rng [] opts dir w = Some (Inr db, w')"
  shows "serves db Map.empty" "roomy db"
  using fresh_serves [OF assms(1)] DB_Open_empty [OF assms(2,3)]
  by (simp_all add: roomy_def DB_new_def MemTable_new_def)

subsection \<open>Histories\<close>

text \<open>
  The histories of an engine that starts in an empty directory: any order of writes, flushes on
  demand, steps of the background thread and the destructor, under any outcomes of the system
  calls.  The last argument is the map that the writes build: a write takes effect when it gets a
  sequence number.  A write needs a key and a value that a request can carry, an unused sequence
  number, and a memtable that has not outgrown its buffer because its log could not be rotated.
\<close>

inductive engine :: "(nat \<Rightarrow> u32) \<Rightarrow> DB \<Rightarrow> world \<Rightarrow> (bytes \<rightharpoonup> bytes) \<Rightarrow> bool" for rng where
  opened: "engine rng db w' Map.empty"
    if "modest opts" and "w_files w (manifest_path dir) = None" and "DB_Open rng [] opts dir w = Some (Inr db, w')"
| wrote_key: "engine rng db' w' (if db_last_seq db' = db_last_seq db then h else written op key val h)"
    if "engine rng db w h" and "length key + length val \<le> 2 ^ 25" and "db_last_seq db \<noteq> - 1" and "roomy db"
    and "WriteImpl rng op key val db w = Some (s, db', w')"
| flushed: "engine rng db' w' h" if "engine rng db w h" and "DB_Flush db w = Some (s, db', w')"
| worked_on: "engine rng db' w' h" if "engine rng db w h" and "background_step db w = Some (db', w')"
| closing: "engine rng (DB_close db) w h" if "engine rng db w h"
| outcomes: "engine rng db (w\<lparr>w_io := io\<rparr>) h" if "engine rng db w h"

lemma DB_close_serves: "serves db h \<Longrightarrow> serves (DB_close db) h"
  unfolding serves_def db_ok_def rep_def db_holds_def numbers_ok_def DB_close_def by simp

lemma engine_serves: "engine rng db w h \<Longrightarrow> serves db h"
proof (induction rule: engine.induct)
  case (opened opts w dir db w')
  then show ?case by (rule DB_Open_empty_serves)
next
  case (wrote_key db w h key val op s db' w')
  from WriteImpl_outcome [OF wrote_key.IH wrote_key.hyps(2-4), of rng op w] wrote_key.hyps(5)
  have "write_outcome op key val db h s db'" by auto
  then show ?case by (simp add: write_outcome_def split: if_splits)
next
  case (flushed db w h s db' w')
  then show ?case using DB_Flush_outcome [of db h w] by auto
next
  case (worked_on db w h db' w')
  then show ?case using background_step_worked by (auto simp: worked_def)
next
  case (closing db w h)
  then show ?case by (simp add: DB_close_serves)
qed

lemma DB_Get_serves:
  assumes "serves db h" and "is_ok (db_bg_error db)"
  shows "DB_Get k db = (case h k of None \<Rightarrow> Inl (NotFound []) | Some v \<Rightarrow> Inr v)"
  using assms DB_Get_shows unfolding serves_def by blast

text \<open>Opening an empty directory without faults.\<close>

lemma fresh_open:
  assumes "w_io w = []" and "w_files w (manifest_path dir) = None"
  shows "\<exists>db w'. DB_Open rng [] opts dir w = Some (Inr db, w') \<and> w_io w' = [] \<and> is_ok (db_bg_error db) \<and>
    \<not> db_shutdown db \<and> db_last_seq db = 0"
proof -
  let ?new = "DB_new opts dir"
  have c: "sys_call id w = (None, w)" using sys_call_no_fault [OF assms(1)] by simp
  have lm: "LoadManifest dir w = (Inl (NotFound (manifest_path dir)), w)"
    using assms by (simp add: LoadManifest_def ReadFileToString_no_fault)
  have lv: "load_version ?new w = (Inr (empty_manifest, map (\<lambda>i. SortLevel i (replicate kNumLevels [] ! i)) [0..<kNumLevels]), w)"
    using lm by (simp add: load_version_def DB_new_def empty_manifest_def IsNotFound_def)
  let ?db = "?new\<lparr>db_next_file := 1, db_last_seq := 0, db_version := map (\<lambda>i. SortLevel i (replicate kNumLevels [] ! i)) [0..<kNumLevels]\<rparr>"
  obtain w1 where w1: "SaveManifest dir (CurrentManifestData ?db) w = (OK, w1)" "w_io w1 = []"
    using SaveManifest_clean [OF assms(1)] by blast
  obtain w2 where w2: "WalWriter_Open (WalPath dir 1) w1 = (OK, w2)" "w_io w2 = []"
    using WalWriter_clean(3) [OF w1(2)] by blast
  have "start_wal [] ?db w = (OK, ?db\<lparr>db_wal_number := 1, db_next_file := 2\<rparr>, w2)"
    using w1(1) w2(1) by (simp add: start_wal_def DB_new_def)
  then have "Recover rng [] ?new w = Some (OK, ?db\<lparr>db_wal_number := 1, db_next_file := 2\<rparr>, w2)"
    using c lv by (simp add: Recover_def Let_def flush_replayed_def DB_new_def MemTable_new_def empty_manifest_def)
  then show ?thesis using w2(2) by (simp add: DB_Open_def DB_new_def)
qed

lemma fresh_engine:
  "\<exists>db w. engine rng db w Map.empty \<and> w_io w = [] \<and> is_ok (db_bg_error db) \<and> \<not> db_shutdown db \<and>
     db_last_seq db = 0 \<and> roomy db"
proof -
  have m: "modest default_options" by (simp add: modest_def default_options_def)
  obtain db w' where o: "DB_Open rng [] default_options [47, 100] \<lparr>w_files = Map.empty, w_io = []\<rparr> = Some (Inr db, w')"
    and r: "w_io w' = []" "is_ok (db_bg_error db)" "\<not> db_shutdown db" "db_last_seq db = 0"
    using fresh_open [of "\<lparr>w_files = Map.empty, w_io = []\<rparr>" "[47, 100]" rng default_options] by auto
  have n: "w_files \<lparr>w_files = Map.empty, w_io = []\<rparr> (manifest_path [47, 100]) = None" by simp
  show ?thesis using engine.opened [OF m n o] DB_Open_empty_serves(2) [OF m n o] r by blast
qed

subsection \<open>Properties\<close>



text \<open>
  (C3) A write is atomic under any failure.  Whatever the system calls return, a write of an engine
  returns; when it reports success the key has the new value, and when it reports an error the
  write has either not happened at all or happened completely.  No other key changes.
\<close>
theorem write_atomic:
  assumes "engine rng db w h" and "length key + length val \<le> 2 ^ 25" and "db_last_seq db \<noteq> - 1" and "roomy db"
  shows "\<exists>s db' w' h'. WriteImpl rng op key val db w = Some (s, db', w') \<and> engine rng db' w' h' \<and>
    (if is_ok s then h' = written op key val h else h' = h \<or> h' = written op key val h) \<and>
    (is_ok (db_bg_error db') \<longrightarrow> (\<forall>k. DB_Get k db' = (case h' k of None \<Rightarrow> Inl (NotFound []) | Some v \<Rightarrow> Inr v)))"
proof -
  obtain s db' w' where a: "WriteImpl rng op key val db w = Some (s, db', w')" "write_outcome op key val db h s db'"
    using WriteImpl_outcome [OF engine_serves [OF assms(1)] assms(2-4)] by blast
  define h' where "h' = (if db_last_seq db' = db_last_seq db then h else written op key val h)"
  have e: "engine rng db' w' h'" unfolding h'_def by (rule engine.wrote_key [OF assms a(1)])
  moreover have "if is_ok s then h' = written op key val h else h' = h \<or> h' = written op key val h"
    using a(2) by (cases "db_last_seq db' = db_last_seq db") (auto simp: h'_def write_outcome_def)
  ultimately show ?thesis using a(1) DB_Get_serves [OF engine_serves [OF e]] by blast
qed

theorem write_atomic_witness:
  "\<exists>db w s db' w' h'. WriteImpl (\<lambda>_. 0) kDelete [1] [] db w = Some (s, db', w') \<and> engine (\<lambda>_. 0) db' w' h' \<and> h' [1] = None"
proof -
  obtain db w where e: "engine (\<lambda>_. 0) db w Map.empty" "db_last_seq db = 0" "roomy db" using fresh_engine by blast
  from write_atomic [OF e(1), of "[1]" "[]" kDelete] e(2,3)
  obtain s db' w' h' where "WriteImpl (\<lambda>_. 0) kDelete [1] [] db w = Some (s, db', w')" "engine (\<lambda>_. 0) db' w' h'"
      "if is_ok s then h' = written kDelete [1] [] Map.empty else h' = Map.empty \<or> h' = written kDelete [1] [] Map.empty"
    by auto
  moreover from this(3) have "h' [1] = None" by (auto split: if_splits)
  ultimately show ?thesis by blast
qed

text \<open>
  (C4) Without faults a write succeeds and is visible at once.  On an open engine with no recorded
  error, when no system call fails, \<open>Put\<close> returns success, the next \<open>Get\<close> of the key returns the
  value, every other key reads as before, and the engine is ready for the next write.
\<close>
theorem put_then_get:
  assumes "engine rng db w h" and "length key + length val \<le> 2 ^ 25" and "db_last_seq db \<noteq> - 1" and "roomy db"
    and "w_io w = []" and "is_ok (db_bg_error db)" and "\<not> db_shutdown db"
  shows "\<exists>s db' w'. DB_Put rng key val db w = Some (s, db', w') \<and> is_ok s \<and> DB_Get key db' = Inr val \<and>
    (\<forall>k. k \<noteq> key \<longrightarrow> DB_Get k db' = DB_Get k db) \<and> engine rng db' w' (h(key \<mapsto> val)) \<and>
    w_io w' = [] \<and> is_ok (db_bg_error db') \<and> \<not> db_shutdown db' \<and> roomy db'"
proof -
  have sv: "serves db h" by (rule engine_serves [OF assms(1)])
  obtain s db' w' where a: "WriteImpl rng kPut key val db w = Some (s, db', w')" "write_outcome kPut key val db h s db'"
      "is_ok s" "w_io w' = []" "is_ok (db_bg_error db')" "\<not> db_shutdown db'" "roomy db'"
    using WriteImpl_outcome [OF sv assms(2-4)] assms(5-7) by blast
  have n: "db_last_seq db' \<noteq> db_last_seq db" using a(2,3) by (auto simp: write_outcome_def)
  have e: "engine rng db' w' (h(key \<mapsto> val))" using engine.wrote_key [OF assms(1-4) a(1)] n by simp
  note g = DB_Get_serves [OF engine_serves [OF e] a(5)] DB_Get_serves [OF sv assms(6)]
  show ?thesis using a e g by (intro exI [of _ s] exI [of _ db'] exI [of _ w']) (simp add: DB_Put_def)
qed

theorem put_then_get_witness:
  "\<exists>db w s db' w'. DB_Put (\<lambda>_. 0) [1] [2] db w = Some (s, db', w') \<and> is_ok s \<and> DB_Get [1] db' = Inr [2]"
proof -
  obtain db w where e: "engine (\<lambda>_. 0) db w Map.empty" "db_last_seq db = 0" "roomy db" "w_io w = []" "is_ok (db_bg_error db)"
      "\<not> db_shutdown db" using fresh_engine by blast
  have "length [1::byte] + length [2::byte] \<le> 2 ^ 25" "db_last_seq db \<noteq> - 1" using e(2) by simp_all
  from put_then_get [OF e(1) this e(3-6)] show ?thesis by blast
qed





end
