(* ===== verification/DBKv.thy ===== *)
theory DBKv
  imports DBEngine KvStore
begin

text \<open>
  The storage engine provides the key-value interface: on any history without faults it satisfies
  the laws of \<open>kv_store\<close>.
\<close>

definition engine_ops :: "(nat \<Rightarrow> u32) \<Rightarrow> (DB \<times> world) kv_ops" where
  "engine_ops rng =
     \<lparr>kv_Get = \<lambda>k (db, w). DB_Get k db,
      kv_SeekToFirst = \<lambda>(db, w). Option.bind (dbi_SeekToFirst (merging_ops source_ops) (DB_NewIterator db))
        (\<lambda>d. dbi_loop (merging_ops source_ops) (\<lambda>k v acc. (acc @ [(k, v)], True)) d []),
      kv_Seek = \<lambda>k (db, w). Option.bind (dbi_Seek (merging_ops source_ops) k (DB_NewIterator db))
        (\<lambda>d. dbi_loop (merging_ops source_ops) (\<lambda>k v acc. (acc @ [(k, v)], True)) d []),
      kv_Put = \<lambda>k v (db, w). DB_Put rng k v db w,
      kv_Delete = \<lambda>k (db, w). DB_Delete rng k db w\<rparr>"

definition ready :: "DB \<Rightarrow> world \<Rightarrow> bool" where
  "ready db w \<longleftrightarrow> w_io w = [] \<and> is_ok (db_bg_error db) \<and> \<not> db_shutdown db \<and> roomy db"

definition engine_holds :: "(nat \<Rightarrow> u32) \<Rightarrow> nat \<Rightarrow> DB \<times> world \<Rightarrow> (bytes \<rightharpoonup> bytes) \<Rightarrow> bool" where
  "engine_holds rng n d h \<longleftrightarrow> engine rng (fst d) (snd d) h \<and> ready (fst d) (snd d) \<and> n + unat (db_last_seq (fst d)) < 2 ^ 64"

lemma unat_next: "x \<noteq> - 1 \<Longrightarrow> unat (x + 1) = unat x + 1" for x :: u64
  using unatSuc [of x] by (metis add.commute add_eq_0_iff Suc_eq_plus1)

lemma engine_write:
  assumes "engine_holds rng (Suc n) (db, w) h" and "kv_small k v"
  shows "\<exists>s db' w'. WriteImpl rng op k v db w = Some (s, db', w') \<and> is_ok s \<and> engine_holds rng n (db', w') (written op k v h)"
proof -
  have e: "engine rng db w h" and r: "ready db w" and n: "Suc n + unat (db_last_seq db) < 2 ^ 64"
    using assms(1) by (simp_all add: engine_holds_def)
  have ne: "db_last_seq db \<noteq> - 1"
  proof
    assume "db_last_seq db = - 1"
    then have "unat (db_last_seq db) = 2 ^ 64 - 1" by (simp add: unat_max_u64)
    then show False using n by simp
  qed
  have pre: "length k + length v \<le> 2 ^ 25" "roomy db" using assms(2) r by (simp_all add: kv_small_def ready_def)
  obtain s db' w' where a: "WriteImpl rng op k v db w = Some (s, db', w')" "write_outcome op k v db h s db'"
      "is_ok s" "w_io w' = []" "is_ok (db_bg_error db')" "\<not> db_shutdown db'" "roomy db'"
    using WriteImpl_outcome [OF engine_serves [OF e] pre(1) ne pre(2), of rng op w] r unfolding ready_def by blast
  have q: "db_last_seq db' = db_last_seq db + 1" "db_last_seq db' \<noteq> db_last_seq db" using a(2,3) by (auto simp: write_outcome_def split: if_splits)
  have "engine rng db' w' (written op k v h)" using engine.wrote_key [OF e pre(1) ne pre(2) a(1)] q(2) by simp
  then show ?thesis using a q(1) n unat_next [OF ne] by (auto simp: engine_holds_def ready_def)
qed

text \<open>The pairs that an iteration from the first key meets.\<close>

lemma rep_first:
  assumes "rep db M Is Vs" and "\<forall>k. shows_at (all_of M Is Vs) k (h k)"
  shows "\<exists>d ps. dbi_SeekToFirst (merging_ops source_ops) (DB_NewIterator db) = Some d \<and>
     (\<forall>body s :: 's. dbi_loop (merging_ops source_ops) body d s = Some (pairs_loop body ps s)) \<and>
     sorted_wrt (<) (map fst ps) \<and> (\<forall>k. map_of ps k = h k)"
proof -
  let ?m = "merged (M # Is @ concat Vs)"
  obtain d ys where d: "dbi_SeekToFirst (merging_ops source_ops) (DB_NewIterator db) = Some d"
      "dbi_at (merging_at source_ops source_at) d ?m ys" "visible ys = visible ?m"
    using source_children.merge.dbi_first [OF rep_children [OF assms(1)]] by blast
  have s: "sorted_entries ?m" by (rule sorted_merged)
  have all: "set ?m = all_of M Is Vs" by (auto simp: merged_set all_of_def)
  have "shown (find_key k ?m) = h k" for k
    using shows_at_unique [OF rep_coherent [OF assms(1)]] shows_at_find [OF s] assms(2) all by metis
  then have "\<forall>k. map_of (visible ?m) k = h k" by (simp only: visible_map [OF s]) simp
  moreover have "\<forall>body s :: 's. dbi_loop (merging_ops source_ops) body d s = Some (pairs_loop body (visible ?m) s)"
    by (simp add: source_children.merge.dbi_loop_at [OF d(2)] d(3))
  ultimately show ?thesis using d(1) visible_sorted [OF s] by blast
qed

interpretation engine_store: kv_store "engine_ops rng" "engine_holds rng" for rng
proof
  fix n m :: nat and d :: "DB \<times> world" and h :: "bytes \<rightharpoonup> bytes" and k v :: bytes
  obtain db w where d: "d = (db, w)" by fastforce
  show "kv_Get (engine_ops rng) k d = (case h k of None \<Rightarrow> Inl (NotFound []) | Some v \<Rightarrow> Inr v)" if "engine_holds rng n d h"
    using that DB_Get_serves [OF engine_serves, of rng db w h] by (simp add: d engine_ops_def engine_holds_def ready_def)
  show "\<exists>ps. kv_SeekToFirst (engine_ops rng) d = Some ps \<and> sorted_wrt (<) (map fst ps) \<and> (\<forall>k. map_of ps k = h k)"
    if "engine_holds rng n d h"
  proof -
    have "engine rng db w h" using that by (simp add: d engine_holds_def)
    then obtain M Is Vs where r: "rep db M Is Vs" "\<forall>k. shows_at (all_of M Is Vs) k (h k)"
      using engine_serves unfolding serves_def db_ok_def shows_all_def by blast
    show ?thesis
      using rep_first [OF r, where 's = "(bytes \<times> bytes) list"] pairs_loop_collect [of _ "[]"]
      by (fastforce simp: d engine_ops_def)
  qed
  show "\<exists>ps. kv_Seek (engine_ops rng) k d = Some ps \<and> sorted_wrt (<) (map fst ps) \<and>
      (\<forall>k'. map_of ps k' = (if k \<le> k' then h k' else None))" if "engine_holds rng n d h"
  proof -
    have "engine rng db w h" using that by (simp add: d engine_holds_def)
    then obtain M Is Vs where r: "rep db M Is Vs" "\<forall>k. shows_at (all_of M Is Vs) k (h k)"
      using engine_serves unfolding serves_def db_ok_def shows_all_def by blast
    show ?thesis
      using rep_scan [OF r, where start = k and 's = "(bytes \<times> bytes) list"] pairs_loop_collect [of _ "[]"]
      by (fastforce simp: d engine_ops_def)
  qed
  show "\<exists>s d'. kv_Put (engine_ops rng) k v d = Some (s, d') \<and> is_ok s \<and> engine_holds rng n d' (h(k \<mapsto> v))"
    if "engine_holds rng (Suc n) d h" "kv_small k v"
    using engine_write [of rng n db w h k v kPut] that by (auto simp: d engine_ops_def DB_Put_def)
  show "\<exists>s d'. kv_Delete (engine_ops rng) k d = Some (s, d') \<and> is_ok s \<and> engine_holds rng n d' (h(k := None))"
    if "engine_holds rng (Suc n) d h" "kv_small k []"
    using engine_write [of rng n db w h k "[]" kDelete] that by (auto simp: d engine_ops_def DB_Delete_def)
  show "engine_holds rng m d h" if "engine_holds rng n d h" "m \<le> n" using that by (simp add: engine_holds_def)
qed

text \<open>Background work and flushes between the operations.\<close>

lemma engine_holds_background:
  assumes "engine_holds rng n (db, w) h" and "background_step db w = Some (db', w')"
  shows "engine_holds rng n (db', w') h"
proof -
  have e: "engine rng db w h" "ready db w" using assms(1) by (simp_all add: engine_holds_def)
  show ?thesis
    using assms e background_step_worked [OF engine_serves [OF e(1)] assms(2)] engine.worked_on [OF e(1) assms(2)]
    by (simp add: engine_holds_def ready_def worked_def kept_def roomy_def)
qed

lemma engine_holds_flush:
  assumes "engine_holds rng n (db, w) h" and "DB_Flush db w = Some (s, db', w')"
  shows "engine_holds rng n (db', w') h"
proof -
  have e: "engine rng db w h" "ready db w" using assms(1) by (simp_all add: engine_holds_def)
  show ?thesis
    using assms e DB_Flush_outcome [OF engine_serves [OF e(1)], of w] engine.flushed [OF e(1) assms(2)]
    by (auto simp: engine_holds_def ready_def)
qed

lemma fresh_holds: "\<exists>d. engine_holds rng 1000000 d Map.empty"
proof -
  obtain db w where "engine rng db w Map.empty" "w_io w = []" "is_ok (db_bg_error db)" "\<not> db_shutdown db" "db_last_seq db = 0" "roomy db"
    using fresh_engine by blast
  then have "engine_holds rng 1000000 (db, w) Map.empty" by (simp add: engine_holds_def ready_def)
  then show ?thesis by blast
qed

end
