(* ===== verification/TxnIsolation.thy ===== *)
theory TxnIsolation
  imports TxnInv DBKv
begin

text \<open>
  Transactions over the storage engine.  The histories run prewrites, commits and rollbacks of any
  transactions on any keys in any order, with raw writes, flushes and compactions between them.
\<close>

definition raw_key :: "bytes \<Rightarrow> bool" where
  "raw_key x \<longleftrightarrow> take 2 x \<noteq> kLockPrefix \<and> take 2 x \<noteq> kWritePrefix \<and> take 2 x \<noteq> kDataPrefix"

text \<open>
  The premises on a transaction: it starts at a timestamp other than 0, commits after its start
  and prewrites a put or a deletion; a history has sequence numbers left for its writes.
\<close>

definition seq_room :: "nat \<Rightarrow> DB \<times> world \<Rightarrow> bool" where
  "seq_room n d \<longleftrightarrow> n + unat (db_last_seq (fst d)) < 2 ^ 64"

inductive txns :: "(nat \<Rightarrow> u32) \<Rightarrow> DB \<times> world \<Rightarrow> bool" for rng where
  started: "txns rng d" if "engine_holds rng n d h" and "\<forall>x\<in>dom h. raw_key x"
| prewrite: "txns rng d'" if "txns rng d" and "seq_room 2 d" and "start_ts \<noteq> 0" and "op = 1 \<or> op = 2"
    and "txn_fits key val primary" and "ApplyPrewrite (engine_ops rng) key val op start_ts primary wall_ms d = Some (s, d')"
| commit: "txns rng d'" if "txns rng d" and "seq_room 2 d" and "start_ts < commit_ts" and "txn_fits key [] []"
    and "ApplyCommit (engine_ops rng) key start_ts commit_ts d = Some (s, d')"
| rollback: "txns rng d'" if "txns rng d" and "seq_room 3 d" and "start_ts \<noteq> 0" and "txn_fits key [] []"
    and "ApplyRollback (engine_ops rng) key start_ts d = Some (s, d')"
| raw_put: "txns rng d'" if "txns rng d" and "seq_room 1 d" and "raw_key key" and "kv_small key val"
    and "kv_Put (engine_ops rng) key val d = Some (s, d')"
| raw_delete: "txns rng d'" if "txns rng d" and "seq_room 1 d" and "raw_key key" and "kv_small key []"
    and "kv_Delete (engine_ops rng) key d = Some (s, d')"
| background: "txns rng (db', w')" if "txns rng (db, w)" and "background_step db w = Some (db', w')"
| flush: "txns rng (db', w')" if "txns rng (db, w)" and "DB_Flush db w = Some (s, db', w')"

definition txn_state :: "(nat \<Rightarrow> u32) \<Rightarrow> DB \<times> world \<Rightarrow> kv_map \<Rightarrow> bool" where
  "txn_state rng d h \<longleftrightarrow> engine_holds rng 0 d h \<and> txn_inv h"

lemma raw_key_columns: "raw_key x \<Longrightarrow> x \<noteq> LockKey k \<and> x \<noteq> WriteKey k c \<and> x \<noteq> DataKey k c"
  by (auto simp: raw_key_def)

lemma raw_upd:
  assumes "raw_key x"
  shows "lock_at (h(x := v)) = lock_at h" "write_at (h(x := v)) = write_at h" "(h(x := v)) (DataKey k s) = h (DataKey k s)"
  using raw_key_columns [OF assms] by (auto simp: lock_at_def write_at_def fun_eq_iff)

lemma raw_inv:
  assumes "txn_inv h" and "raw_key x"
  shows "txn_inv (h(x := v))"
proof -
  let ?h = "h(x := v)"
  note u = raw_upd [OF assms(2), of h v]
  have "columns_ok ?h"
    using assms raw_key_columns [OF assms(2)] unfolding txn_inv_def columns_ok_def u(1,2)
    by (auto simp: raw_key_def split: if_splits)
  moreover have "data_ok ?h" using assms(1) unfolding txn_inv_def data_ok_def u by blast
  moreover have "locks_ok ?h" using assms(1) unfolding txn_inv_def locks_ok_def u too_late_cong [OF u(2)] by blast
  ultimately show ?thesis using assms(1) outcomes_cong [OF u(2)] by (simp add: txn_inv_def)
qed

lemma empty_inv:
  assumes "\<forall>x\<in>dom h. raw_key x"
  shows "txn_inv h"
proof -
  have n: "h (LockKey k) = None" "h (WriteKey k c) = None" for k c
    using assms raw_key_columns by (metis domIff)+
  then have "lock_at h k = None" "write_at h k c = None" for k c by (simp_all add: lock_at_def write_at_def)
  then show ?thesis
    using assms n by (auto simp: txn_inv_def columns_ok_def slots_ok_def data_ok_def locks_ok_def isolated_def
        one_outcome_def committed_def raw_key_def)
qed

lemma more_room: "engine_holds rng m d h \<Longrightarrow> seq_room n d \<Longrightarrow> engine_holds rng n d h"
  by (simp add: engine_holds_def seq_room_def)

lemma txn_stateD:
  assumes "txn_state rng d h"
  shows "columns_ok h" "slots_ok h" "data_ok h" "txn_inv h" "engine_holds rng 0 d h"
  using assms by (simp_all add: txn_state_def txn_inv_def)

subsection \<open>Every operation keeps the state well formed\<close>

text \<open>The refinements of \<open>TxnSpec\<close> on the engine.\<close>

lemmas engine_prewrite = kv_store.prewrite_refines [OF engine_store.kv_store_axioms]
lemmas engine_commit = kv_store.commit_refines [OF engine_store.kv_store_axioms]
lemmas engine_rollback = kv_store.rollback_refines [OF engine_store.kv_store_axioms]
lemmas engine_read = kv_store.read_refines [OF engine_store.kv_store_axioms]

lemma prewrite_state:
  assumes st: "txn_state rng d h" and pre: "seq_room 2 d" "start_ts \<noteq> 0" "op = 1 \<or> op = 2" "txn_fits key val primary"
    and x: "ApplyPrewrite (engine_ops rng) key val op start_ts primary wall_ms d = Some (s, d')"
  shows "\<exists>h'. txn_state rng d' h' \<and>
    prewrite_ref h key val \<lparr>lk_start_ts = start_ts, lk_op = op, lk_wall_ms = wall_ms, lk_primary = primary\<rparr> (is_ok s) h'"
proof -
  note S = txn_stateD [OF st]
  let ?l = "\<lparr>lk_start_ts = start_ts, lk_op = op, lk_wall_ms = wall_ms, lk_primary = primary\<rparr>"
  have "engine_holds rng (Suc (Suc 0)) d h" using more_room [OF S(5) pre(1)] by (simp add: numeral_2_eq_2)
  from engine_prewrite [OF this S(1,2) pre(2,4), where op = op and wall = wall_ms] x
  obtain h' where h': "engine_holds rng 0 d' h'" "prewrite_ref h key val ?l (is_ok s) h'" by auto
  have "txn_inv h'" by (rule prewrite_inv [OF S(4) h'(2)]) (use pre txn_fitsD(6) [OF pre(4)] in simp_all)
  then show ?thesis using h' by (auto simp: txn_state_def)
qed

lemma commit_state:
  assumes st: "txn_state rng d h" and pre: "seq_room 2 d" "start_ts < commit_ts" "txn_fits key [] []"
    and x: "ApplyCommit (engine_ops rng) key start_ts commit_ts d = Some (s, d')"
  shows "\<exists>h'. txn_state rng d' h' \<and> commit_ref h key start_ts commit_ts (is_ok s) h'"
proof -
  note S = txn_stateD [OF st]
  have "engine_holds rng (Suc (Suc 0)) d h" using more_room [OF S(5) pre(1)] by (simp add: numeral_2_eq_2)
  from engine_commit [OF this S(1,2) pre(3), where s = start_ts and c = commit_ts] x
  obtain h' where "engine_holds rng 0 d' h'" "commit_ref h key start_ts commit_ts (is_ok s) h'" by auto
  then show ?thesis using commit_inv [OF S(4) _ pre(2)] by (auto simp: txn_state_def)
qed

lemma rollback_state:
  assumes st: "txn_state rng d h" and pre: "seq_room 3 d" "start_ts \<noteq> 0" "txn_fits key [] []"
    and x: "ApplyRollback (engine_ops rng) key start_ts d = Some (s, d')"
  shows "\<exists>h'. txn_state rng d' h' \<and> rollback_ref h key start_ts (is_ok s) h'"
proof -
  note S = txn_stateD [OF st]
  have "engine_holds rng (Suc (Suc (Suc 0))) d h" using more_room [OF S(5) pre(1)] by (simp add: numeral_3_eq_3)
  from engine_rollback [OF this S(1,2) pre(3), where s = start_ts] x
  obtain h' where "engine_holds rng 0 d' h'" "rollback_ref h key start_ts (is_ok s) h'" by auto
  then show ?thesis using rollback_inv [OF S(4) _ pre(2)] by (auto simp: txn_state_def)
qed

lemma read_state:
  assumes "txn_state rng d h"
  shows "\<exists>res. TxnGet (engine_ops rng) k ts d = Some (Inr res) \<and> read_ref h k ts res"
  using engine_read [OF txn_stateD(5,1-3) [OF assms]] .

lemma txns_state: "txns rng d \<Longrightarrow> \<exists>h. txn_state rng d h"
proof (induction rule: txns.induct)
  case (started n d h)
  then show ?case using empty_inv engine_store.less [OF started(1), of 0] by (auto simp: txn_state_def)
next
  case (raw_put d key val s d')
  then obtain h where h: "txn_state rng d h" by blast
  have "engine_holds rng (Suc 0) d h" using more_room [OF txn_stateD(5) [OF h] raw_put.hyps(2)] by simp
  from engine_store.put [OF this raw_put.hyps(4)] raw_put.hyps(5)
  have "engine_holds rng 0 d' (h(key \<mapsto> val))" by auto
  then show ?case using raw_inv [OF txn_stateD(4) [OF h] raw_put.hyps(3)] by (auto simp: txn_state_def)
next
  case (raw_delete d key s d')
  then obtain h where h: "txn_state rng d h" by blast
  have "engine_holds rng (Suc 0) d h" using more_room [OF txn_stateD(5) [OF h] raw_delete.hyps(2)] by simp
  from engine_store.del [OF this raw_delete.hyps(4)] raw_delete.hyps(5)
  have "engine_holds rng 0 d' (h(key := None))" by auto
  then show ?case using raw_inv [OF txn_stateD(4) [OF h] raw_delete.hyps(3)] by (auto simp: txn_state_def)
next
  case (background db w db' w')
  then show ?case using engine_holds_background unfolding txn_state_def by blast
next
  case (flush db w s db' w')
  then show ?case using engine_holds_flush unfolding txn_state_def by blast
next
  case (prewrite d start_ts op key val primary wall_ms s d')
  then obtain h where "txn_state rng d h" by blast
  from prewrite_state [OF this prewrite.hyps(2-6)] show ?case by blast
next
  case (commit d start_ts commit_ts key s d')
  then obtain h where "txn_state rng d h" by blast
  from commit_state [OF this commit.hyps(2-5)] show ?case by blast
next
  case (rollback d start_ts key s d')
  then obtain h where "txn_state rng d h" by blast
  from rollback_state [OF this rollback.hyps(2-5)] show ?case by blast
qed

text \<open>The write record of a key that a client of the engine finds in a slot.\<close>

definition record_in :: "DB \<Rightarrow> bytes \<Rightarrow> u64 \<Rightarrow> WriteRecord option" where
  "record_in db k c = (case DB_Get (WriteKey k c) db of Inl _ \<Rightarrow> None | Inr raw \<Rightarrow> DecodeWrite raw)"

lemma record_in_state:
  assumes "txn_state rng d h"
  shows "record_in (fst d) k c = write_at h k c"
proof -
  have "kv_Get (engine_ops rng) (WriteKey k c) d = (case h (WriteKey k c) of None \<Rightarrow> Inl (NotFound []) | Some v \<Rightarrow> Inr v)"
    by (rule engine_store.get [OF txn_stateD(5) [OF assms]])
  then show ?thesis by (auto simp: engine_ops_def case_prod_beta write_at_def record_in_def split: option.splits)
qed

subsection \<open>A transaction from prewrite to commit\<close>

lemma holds_room: "engine_holds rng n d h \<Longrightarrow> m \<le> n \<Longrightarrow> seq_room m d"
  by (simp add: engine_holds_def seq_room_def)

lemma run_put:
  assumes h: "engine_holds rng (Suc (Suc (Suc (Suc n)))) d h" and inv: "txn_inv h"
    and free: "lock_at h k = None" "\<not> too_late h k s" and s: "s \<noteq> 0" "s < c" and fits: "txn_fits k val primary"
  shows "\<exists>st1 d1 st2 d2 h2. ApplyPrewrite (engine_ops rng) k val 1 s primary wall d = Some (st1, d1) \<and> is_ok st1 \<and>
    ApplyCommit (engine_ops rng) k s c d1 = Some (st2, d2) \<and> is_ok st2 \<and> engine_holds rng n d2 h2 \<and> txn_inv h2 \<and>
    (txns rng d \<longrightarrow> txns rng d2) \<and> lock_at h2 k = None \<and> h2 (DataKey k s) = Some val \<and>
    (\<forall>k' c'. write_at h2 k' c' = (if k' = k \<and> c' = c then Some \<lparr>wr_kind = kWritePut, wr_start_ts = s\<rparr> else write_at h k' c')) \<and>
    (\<forall>ts\<ge>c. reads_as h2 k ts (Some val))"
proof -
  let ?l = "\<lparr>lk_start_ts = s, lk_op = 1, lk_wall_ms = wall, lk_primary = primary\<rparr>"
  have ok: "columns_ok h" "slots_ok h" using inv by (simp_all add: txn_inv_def)
  obtain st1 d1 h1 where p: "ApplyPrewrite (engine_ops rng) k val 1 s primary wall d = Some (st1, d1)"
      "engine_holds rng (Suc (Suc n)) d1 h1" "prewrite_ref h k val ?l (is_ok st1) h1"
    using engine_prewrite [OF h ok s(1) fits, where op = 1 and wall = wall] by blast
  have h1: "is_ok st1" "h1 = locked_map h k val ?l" using p(3) free by (simp_all add: prewrite_ref_def)
  have inv1: "txn_inv h1" by (rule prewrite_inv [OF inv p(3)]) (use s fits txn_fitsD(6) in auto)
  have sz: "size32 primary" by (rule txn_fitsD(6) [OF fits])
  have l1: "lock_at h1 k = Some ?l" "h1 (DataKey k s) = Some val" "write_at h1 = write_at h"
    using sz by (simp_all add: h1(2) locked_map_def)
  have fits': "txn_fits k [] []" using fits by (simp add: txn_fits_def)
  have ok1: "columns_ok h1" "slots_ok h1" using inv1 by (simp_all add: txn_inv_def)
  obtain st2 d2 h2 where q: "ApplyCommit (engine_ops rng) k s c d1 = Some (st2, d2)" "engine_holds rng n d2 h2"
      "commit_ref h1 k s c (is_ok st2) h2"
    using engine_commit [OF p(2) ok1 fits', where s = s and c = c] by blast
  have inv2: "txn_inv h2" by (rule commit_inv [OF inv1 q(3) s(2)])
  have h2: "is_ok st2" "h2 = h1(WriteKey k c \<mapsto> EncodeWrite \<lparr>wr_kind = kWritePut, wr_start_ts = s\<rparr>, LockKey k := None)"
    using q(3) l1(1) by (simp_all add: commit_ref_def holds_lock_def commit_record_def)
  have t: "txns rng d2" if "txns rng d"
  proof -
    have "txns rng d1" by (rule txns.prewrite [OF that holds_room [OF h] s(1) _ fits p(1)]) simp_all
    then show ?thesis by (rule txns.commit [OF _ holds_room [OF p(2)] s(2) fits' q(1)]) simp_all
  qed
  have "reads_as h2 k ts (Some val)" if "c \<le> ts" for ts
    using commit_shows [OF inv1 q(3) l1(1) _ s(2) that] l1(2) by simp
  moreover have "lock_at h2 k = None" "h2 (DataKey k s) = Some val"
    "\<forall>k' c'. write_at h2 k' c' = (if k' = k \<and> c' = c then Some \<lparr>wr_kind = kWritePut, wr_start_ts = s\<rparr> else write_at h k' c')"
    using l1 by (simp_all add: h2(2))
  ultimately show ?thesis using p(1) h1(1) q(1,2) h2(1) inv2 t by blast
qed

lemma readable_get:
  assumes "txn_state rng d h" and "reads_as h k ts v"
  shows "TxnGet (engine_ops rng) k ts d =
    Some (Inr (case v of None \<Rightarrow> no_result | Some val \<Rightarrow> no_result\<lparr>rr_found := True, rr_value := val\<rparr>))"
proof -
  obtain res where r: "TxnGet (engine_ops rng) k ts d = Some (Inr res)" "read_ref h k ts res" using read_state [OF assms(1)] by blast
  have nl: "\<not> (\<exists>l. lock_at h k = Some l \<and> lk_start_ts l \<le> ts)" using assms(2) by (auto simp: reads_as_def not_le)
  obtain u where u: "snapshot h k ts u" "res = (case u of None \<Rightarrow> no_result | Some val \<Rightarrow> no_result\<lparr>rr_found := True, rr_value := val\<rparr>)"
    using r(2) unfolding read_ref_def if_not_P [OF nl] by blast
  have "snapshot h k ts u \<Longrightarrow> u = v" for u
    using assms(2) last_commit_unique unfolding reads_as_def snapshot_def by (metis (no_types, lifting))
  then show ?thesis using r(1) u by blast
qed

lemma get_readable:
  assumes "txn_state rng d h" and "TxnGet (engine_ops rng) k ts d = Some (Inr res)" and "\<not> rr_locked res"
  shows "\<exists>v. reads_as h k ts v \<and> res = (case v of None \<Rightarrow> no_result | Some val \<Rightarrow> no_result\<lparr>rr_found := True, rr_value := val\<rparr>)"
proof -
  have "read_ref h k ts res" using read_state [OF assms(1), of k ts] assms(2) by auto
  then show ?thesis using assms(3) unfolding read_ref_def reads_as_def by (auto simp: not_le split: if_splits)
qed

lemma two_commits:
  "\<exists>d. txns rng d \<and> record_in (fst d) [7] 2 = Some \<lparr>wr_kind = kWritePut, wr_start_ts = 1\<rparr> \<and>
     record_in (fst d) [7] 4 = Some \<lparr>wr_kind = kWritePut, wr_start_ts = 3\<rparr> \<and> seq_room 10 d"
proof -
  obtain d where d: "engine_holds rng 1000000 d Map.empty" using fresh_holds by blast
  then have d8: "engine_holds rng (Suc (Suc (Suc (Suc (Suc (Suc (Suc (Suc 10)))))))) d Map.empty" by (rule engine_store.less) simp
  have t: "txns rng d" by (rule txns.started [OF d]) simp
  have inv: "txn_inv Map.empty" by (rule empty_inv) simp
  have f: "txn_fits [7] [9] [7]" by (simp add: txn_fits_def)
  have e: "lock_at Map.empty [7] = None" "write_at Map.empty k c = None" for k c by (simp_all add: lock_at_def write_at_def)
  have n1: "\<not> too_late Map.empty [7] 1" by (simp add: too_late_def e)
  obtain d1 h1 where 1: "engine_holds rng (Suc (Suc (Suc (Suc 10)))) d1 h1" "txn_inv h1" "txns rng d1" "lock_at h1 [7] = None"
      "\<forall>k' c'. write_at h1 k' c' = (if k' = [7] \<and> c' = 2 then Some \<lparr>wr_kind = kWritePut, wr_start_ts = 1\<rparr> else write_at Map.empty k' c')"
    using run_put [OF d8 inv e(1) n1 _ _ f, where c = 2] t by (simp del: split_paired_Ex) blast
  have n3: "\<not> too_late h1 [7] 3" by (auto simp: too_late_def 1(5) e(2) is_commit_def)
  obtain d2 h2 where 2: "engine_holds rng 10 d2 h2" "txn_inv h2" "txns rng d2"
      "\<forall>k' c'. write_at h2 k' c' = (if k' = [7] \<and> c' = 4 then Some \<lparr>wr_kind = kWritePut, wr_start_ts = 3\<rparr> else write_at h1 k' c')"
    using run_put [OF 1(1,2,4) n3 _ _ f, where c = 4] 1(3) by (simp del: split_paired_Ex) blast
  have "txn_state rng d2 h2" using engine_store.less [OF 2(1), of 0] 2(2) by (simp add: txn_state_def)
  then show ?thesis using 1(5) 2(3,4) holds_room [OF 2(1)] record_in_state by (intro exI [of _ d2]) simp
qed

subsection \<open>Properties\<close>

text \<open>
  (C7) Snapshot isolation: no lost update.  In every history of prewrites, commits and rollbacks
  of any transactions over the engine, two transactions that committed the same key did not
  overlap: the one with the later commit timestamp started after the other had committed.  And no
  transaction has both a commit record and a rollback marker on a key.
\<close>
theorem snapshot_isolation:
  assumes "txns rng d"
  shows "(\<forall>k c1 r1 c2 r2. record_in (fst d) k c1 = Some r1 \<and> wr_kind r1 \<noteq> kWriteRollback \<and>
      record_in (fst d) k c2 = Some r2 \<and> wr_kind r2 \<noteq> kWriteRollback \<and> c1 < c2 \<longrightarrow> c1 < wr_start_ts r2 \<and> wr_start_ts r2 < c2) \<and>
    (\<forall>k c r m. record_in (fst d) k c = Some r \<and> wr_kind r \<noteq> kWriteRollback \<longrightarrow>
      \<not> (record_in (fst d) k (wr_start_ts r) = Some m \<and> wr_kind m = kWriteRollback))"
proof -
  obtain h where h: "txn_state rng d h" using txns_state [OF assms] by blast
  have i: "isolated h" "one_outcome h" "slots_ok h" using txn_stateD(4) [OF h] by (simp_all add: txn_inv_def)
  have "c1 < wr_start_ts r2 \<and> wr_start_ts r2 < c2"
    if "write_at h k c1 = Some r1" "is_commit r1" "write_at h k c2 = Some r2" "is_commit r2" "c1 < c2" for k c1 r1 c2 r2
  proof
    show "c1 < wr_start_ts r2" using i(1) that unfolding isolated_def by blast
    show "wr_start_ts r2 < c2" using i(3) that(3,4) unfolding slots_ok_def by (metis (full_types))
  qed
  moreover have "\<not> (write_at h k (wr_start_ts r) = Some m \<and> \<not> is_commit m)"
    if "write_at h k c = Some r" "is_commit r" for k c r m
    using i(2) that unfolding one_outcome_def committed_def rolled_back_def by blast
  ultimately show ?thesis unfolding record_in_state [OF h] is_commit_def by blast
qed

theorem snapshot_isolation_witness:
  "\<exists>d r1 r2. txns (\<lambda>_. 0) d \<and> record_in (fst d) [7] 2 = Some r1 \<and> record_in (fst d) [7] 4 = Some r2 \<and> 2 < wr_start_ts r2"
proof -
  obtain d where d: "txns (\<lambda>_. 0) d" "record_in (fst d) [7] 2 = Some \<lparr>wr_kind = kWritePut, wr_start_ts = 1\<rparr>"
     "record_in (fst d) [7] 4 = Some \<lparr>wr_kind = kWritePut, wr_start_ts = 3\<rparr>" using two_commits by blast
  have "2 < wr_start_ts \<lparr>wr_kind = kWritePut, wr_start_ts = 3\<rparr>"
    by (rule snapshot_isolation [OF d(1), THEN conjunct1, rule_format, THEN conjunct1,
        of "[7]" 2 "\<lparr>wr_kind = kWritePut, wr_start_ts = 1\<rparr>" 4]) (use d(2,3) in simp)
  then show ?thesis using d by blast
qed

text \<open>
  (C8) Snapshot reads repeat.  A read at \<open>ts\<close> that no lock blocks returns, and it returns the
  same again after a prewrite of a transaction that starts after \<open>ts\<close>, after a commit at a
  timestamp after \<open>ts\<close>, and after a rollback of a transaction whose start is no commit timestamp.
\<close>
theorem repeatable_read:
  assumes "txns rng d" and "TxnGet (engine_ops rng) k ts d = Some (Inr res)" and "\<not> rr_locked res"
  shows "(\<forall>key val op start_ts primary wall_ms s d'. seq_room 2 d \<and> (op = 1 \<or> op = 2) \<and> txn_fits key val primary \<and> ts < start_ts \<and>
      ApplyPrewrite (engine_ops rng) key val op start_ts primary wall_ms d = Some (s, d') \<longrightarrow>
      TxnGet (engine_ops rng) k ts d' = Some (Inr res)) \<and>
    (\<forall>key start_ts commit_ts s d'. seq_room 2 d \<and> txn_fits key [] [] \<and> start_ts < commit_ts \<and> ts < commit_ts \<and>
      ApplyCommit (engine_ops rng) key start_ts commit_ts d = Some (s, d') \<longrightarrow>
      TxnGet (engine_ops rng) k ts d' = Some (Inr res)) \<and>
    (\<forall>key start_ts s d'. seq_room 3 d \<and> txn_fits key [] [] \<and> start_ts \<noteq> 0 \<and>
      (\<forall>r. record_in (fst d) key start_ts = Some r \<longrightarrow> wr_kind r = kWriteRollback) \<and>
      ApplyRollback (engine_ops rng) key start_ts d = Some (s, d') \<longrightarrow>
      TxnGet (engine_ops rng) k ts d' = Some (Inr res))"
proof (intro conjI allI impI)
  obtain h where h: "txn_state rng d h" using txns_state [OF assms(1)] by blast
  note inv = txn_stateD(4) [OF h]
  obtain v where v: "reads_as h k ts v" "res = (case v of None \<Rightarrow> no_result | Some val \<Rightarrow> no_result\<lparr>rr_found := True, rr_value := val\<rparr>)"
    using get_readable [OF h assms(2,3)] by blast
  {
    fix key val op start_ts primary wall_ms s d'
    assume a: "seq_room 2 d \<and> (op = 1 \<or> op = 2) \<and> txn_fits key val primary \<and> ts < start_ts \<and>
      ApplyPrewrite (engine_ops rng) key val op start_ts primary wall_ms d = Some (s, d')"
    then have nz: "start_ts \<noteq> 0" by auto
    obtain h' where h': "txn_state rng d' h'"
        "prewrite_ref h key val \<lparr>lk_start_ts = start_ts, lk_op = op, lk_wall_ms = wall_ms, lk_primary = primary\<rparr> (is_ok s) h'"
      using prewrite_state [OF h _ nz] a by blast
    have "reads_as h' k ts v" by (rule prewrite_readable [OF inv h'(2) _ _ v(1)]) (use a txn_fitsD(6) in auto)
    then show "TxnGet (engine_ops rng) k ts d' = Some (Inr res)" using readable_get [OF h'(1)] v(2) by simp
  next
    fix key start_ts commit_ts s d'
    assume a: "seq_room 2 d \<and> txn_fits key [] [] \<and> start_ts < commit_ts \<and> ts < commit_ts \<and>
      ApplyCommit (engine_ops rng) key start_ts commit_ts d = Some (s, d')"
    obtain h' where h': "txn_state rng d' h'" "commit_ref h key start_ts commit_ts (is_ok s) h'" using commit_state [OF h] a by blast
    have "reads_as h' k ts v" by (rule commit_readable [OF h'(2) _ v(1)]) (use a in simp)
    then show "TxnGet (engine_ops rng) k ts d' = Some (Inr res)" using readable_get [OF h'(1)] v(2) by simp
  next
    fix key start_ts s d'
    assume a: "seq_room 3 d \<and> txn_fits key [] [] \<and> start_ts \<noteq> 0 \<and>
      (\<forall>r. record_in (fst d) key start_ts = Some r \<longrightarrow> wr_kind r = kWriteRollback) \<and>
      ApplyRollback (engine_ops rng) key start_ts d = Some (s, d')"
    obtain h' where h': "txn_state rng d' h'" "rollback_ref h key start_ts (is_ok s) h'" using rollback_state [OF h] a by blast
    have "reads_as h' k ts v"
      by (rule rollback_readable [OF inv h'(2) _ v(1)]) (use a in \<open>auto simp: record_in_state [OF h] is_commit_def\<close>)
    then show "TxnGet (engine_ops rng) k ts d' = Some (Inr res)" using readable_get [OF h'(1)] v(2) by simp
  }
qed


lemma fresh_txns:
  "\<exists>d. txns rng d \<and> seq_room 100 d \<and> GetLock (engine_ops rng) k d = Inr None \<and> (\<forall>c. record_in (fst d) k c = None) \<and>
     engine_holds rng 100 d Map.empty"
proof -
  obtain d where "engine_holds rng 1000000 d Map.empty" using fresh_holds by blast
  then have d: "engine_holds rng 100 d Map.empty" by (rule engine_store.less) simp
  have t: "txns rng d" by (rule txns.started [OF d]) simp
  have i: "txn_inv Map.empty" by (rule empty_inv) simp
  have st: "txn_state rng d Map.empty" using engine_store.less [OF d, of 0] i by (simp add: txn_state_def)
  have "GetLock (engine_ops rng) k d = Inr None"
    using kv_store.GetLock_spec [OF engine_store.kv_store_axioms d, of k] i by (simp add: txn_inv_def lock_at_def)
  moreover have "record_in (fst d) k c = None" for c unfolding record_in_state [OF st] by (simp add: write_at_def)
  ultimately show ?thesis using t d holds_room [OF d] by blast
qed


theorem repeatable_read_witness:
  "\<exists>d s d'. txns (\<lambda>_. 0) d \<and> TxnGet (engine_ops (\<lambda>_. 0)) [7] 3 d = Some (Inr no_result) \<and>
     ApplyPrewrite (engine_ops (\<lambda>_. 0)) [7] [9] 1 5 [7] 0 d = Some (s, d') \<and>
     TxnGet (engine_ops (\<lambda>_. 0)) [7] 3 d' = Some (Inr no_result)"
proof -
  obtain d where d: "txns (\<lambda>_. 0) d" "seq_room 100 d" "engine_holds (\<lambda>_. 0) 100 d Map.empty" using fresh_txns by blast
  have i: "txn_inv Map.empty" by (rule empty_inv) simp
  have st: "txn_state (\<lambda>_. 0) d Map.empty" using engine_store.less [OF d(3), of 0] i by (simp add: txn_state_def)
  have "reads_as Map.empty [7] 3 None" by (simp add: reads_as_def snapshot_def last_commit_def lock_at_def write_at_def)
  from readable_get [OF st this] have g: "TxnGet (engine_ops (\<lambda>_. 0)) [7] 3 d = Some (Inr no_result)" by simp
  have e: "engine_holds (\<lambda>_. 0) (Suc (Suc 0)) d Map.empty" using engine_store.less [OF d(3)] by simp
  have f: "txn_fits [7] [9] [7]" "seq_room 2 d" using d(2) by (simp_all add: seq_room_def txn_fits_def)
  obtain s d' where p: "ApplyPrewrite (engine_ops (\<lambda>_. 0)) [7] [9] 1 5 [7] 0 d = Some (s, d')"
    using engine_prewrite [OF e _ _ _ f(1), of 5 1 0] i by (auto simp: txn_inv_def)
  have "TxnGet (engine_ops (\<lambda>_. 0)) [7] 3 d' = Some (Inr no_result)"
    by (rule repeatable_read [OF d(1) g, THEN conjunct1, rule_format, of 1 "[7]" "[9]" "[7]" 5 0 s])
      (use f p in \<open>simp_all add: no_result_def\<close>)
  then show ?thesis using d(1) g p by blast
qed

text \<open>
  (C10) A prewrite that is applied again after a crash loses its value.  \<open>ApplyPrewrite\<close> writes the
  lock and the value with two separate writes.  When the process stops between them, the command
  is applied again after the restart: it finds its own lock, reports success and does not write
  the value.  The transaction then commits, and every later read of the key reports corruption.
\<close>
theorem replayed_prewrite_loses_value:
  assumes "txns rng d" and "seq_room 5 d" and "GetLock (engine_ops rng) key d = Inr None"
    and "\<forall>c r. record_in (fst d) key c = Some r \<longrightarrow> c < start_ts" and "start_ts \<noteq> 0" and "start_ts < commit_ts" and "commit_ts \<le> ts"
    and "DB_Get (DataKey key start_ts) (fst d) = Inl (NotFound [])" and "txn_fits key val primary"
    and "kv_Put (engine_ops rng) (LockKey key)
      (EncodeLock \<lparr>lk_start_ts = start_ts, lk_op = 1, lk_wall_ms = wall_ms, lk_primary = primary\<rparr>) d = Some (s0, d0)"
  shows "\<exists>s1 d1 s2 d2. ApplyPrewrite (engine_ops rng) key val 1 start_ts primary wall_ms d0 = Some (s1, d1) \<and> is_ok s1 \<and>
    ApplyCommit (engine_ops rng) key start_ts commit_ts d1 = Some (s2, d2) \<and> is_ok s2 \<and>
    TxnGet (engine_ops rng) key ts d2 = Some (Inl (Corruption (str ''missing data record'')))"
proof -
  let ?l = "\<lparr>lk_start_ts = start_ts, lk_op = 1, lk_wall_ms = wall_ms, lk_primary = primary\<rparr>"
  obtain h where h: "txn_state rng d h" using txns_state [OF assms(1)] by blast
  note S = txn_stateD [OF h]
  define h0 where "h0 = h(LockKey key \<mapsto> EncodeLock ?l)"
  have sz: "size32 primary" by (rule txn_fitsD(6) [OF assms(9)])
  have "engine_holds rng (Suc (Suc (Suc (Suc (Suc 0))))) d h" using more_room [OF S(5) assms(2)] by (simp add: eval_nat_numeral)
  from engine_store.put [OF this, of "LockKey key" "EncodeLock ?l"] assms(10) txn_fitsD(1) [OF assms(9), of ?l]
  have e0: "engine_holds rng (Suc (Suc (Suc (Suc 0)))) d0 h0" by (auto simp: h0_def)
  have ok0: "columns_ok h0" "slots_ok h0" using S(1,2) columns_ok_upd(4) [OF S(1), of ?l] sz by (simp_all add: h0_def slots_ok_def)
  have n: "\<not> too_late h key start_ts"
    using assms(4) unfolding too_late_def record_in_state [OF h] by (metis leD less_irrefl)
  then have n0: "\<not> too_late h0 key start_ts" by (simp add: h0_def too_late_def)
  have l0: "lock_at h0 key = Some ?l" using sz by (simp add: h0_def)
  have d0: "h0 (DataKey key start_ts) = None"
    using engine_store.get [OF S(5), of "DataKey key start_ts"] assms(8)
    by (cases "h (DataKey key start_ts)") (simp_all add: h0_def engine_ops_def case_prod_beta)
  obtain s1 d1 h1 where p: "ApplyPrewrite (engine_ops rng) key val 1 start_ts primary wall_ms d0 = Some (s1, d1)"
      "engine_holds rng (Suc (Suc 0)) d1 h1" "prewrite_ref h0 key val ?l (is_ok s1) h1"
    using engine_prewrite [OF e0 ok0 assms(5,9), where op = 1 and wall = wall_ms] by blast
  have h1: "is_ok s1" "h1 = h0" using p(3) n0 l0 by (simp_all add: prewrite_ref_def holds_lock_def)
  have f: "txn_fits key [] []" using assms(9) by (simp add: txn_fits_def)
  obtain s2 d2 h2 where q: "ApplyCommit (engine_ops rng) key start_ts commit_ts d1 = Some (s2, d2)" "engine_holds rng 0 d2 h2"
      "commit_ref h0 key start_ts commit_ts (is_ok s2) h2"
    using engine_commit [OF p(2) [unfolded h1] ok0 f, where s = start_ts and c = commit_ts] by blast
  let ?r = "\<lparr>wr_kind = kWritePut, wr_start_ts = start_ts\<rparr>"
  have h2: "is_ok s2" "h2 = h0(WriteKey key commit_ts \<mapsto> EncodeWrite ?r, LockKey key := None)"
    using q(3) l0 by (simp_all add: commit_ref_def holds_lock_def commit_record_def)
  have old: "c' \<le> commit_ts" if "write_at h key c' = Some r'" for c' r'
    using assms(4,6) that unfolding record_in_state [OF h] by (metis less_imp_le less_trans)
  have "last_commit h2 key ts commit_ts ?r"
    unfolding last_commit_def using assms(7) old by (auto simp: h2(2) h0_def is_commit_def)
  moreover have "columns_ok h2" using columns_ok_upd(1,3) ok0(1) by (simp add: h2(2))
  moreover have "slots_ok h2" using ok0(2) assms(5,6) by (auto simp: h2(2) slots_ok_def is_commit_def)
  moreover have "lock_at h2 key = None" "h2 (DataKey key (wr_start_ts ?r)) = None" using d0 by (simp_all add: h2(2))
  ultimately have "TxnGet (engine_ops rng) key ts d2 = Some (Inl (Corruption (str ''missing data record'')))"
    using kv_store.read_missing [OF engine_store.kv_store_axioms q(2), of key ts commit_ts ?r] by simp
  then show ?thesis using p(1) q(1) h1(1) h2(1) by blast
qed

theorem replayed_prewrite_loses_value_witness:
  "\<exists>d0 s1 d1 s2 d2. ApplyPrewrite (engine_ops (\<lambda>_. 0)) [7] [9] 1 5 [7] 0 d0 = Some (s1, d1) \<and> is_ok s1 \<and>
     ApplyCommit (engine_ops (\<lambda>_. 0)) [7] 5 6 d1 = Some (s2, d2) \<and> is_ok s2 \<and>
     TxnGet (engine_ops (\<lambda>_. 0)) [7] 6 d2 = Some (Inl (Corruption (str ''missing data record'')))"
proof -
  obtain d where d: "txns (\<lambda>_. 0) d" "seq_room 100 d" "GetLock (engine_ops (\<lambda>_. 0)) [7] d = Inr None"
    "\<forall>c. record_in (fst d) [7] c = None" "engine_holds (\<lambda>_. 0) 100 d Map.empty" using fresh_txns by blast
  have f: "seq_room 5 d" "txn_fits [7] [9] [7]" using d(2) by (simp_all add: seq_room_def txn_fits_def)
  have g: "DB_Get (DataKey [7] 5) (fst d) = Inl (NotFound [])"
    using engine_store.get [OF d(5), of "DataKey [7] 5"] by (simp add: engine_ops_def case_prod_beta)
  let ?l = "\<lparr>lk_start_ts = 5, lk_op = 1, lk_wall_ms = 0, lk_primary = [7]\<rparr> :: LockRecord"
  have "engine_holds (\<lambda>_. 0) (Suc 0) d Map.empty" using engine_store.less [OF d(5)] by simp
  from engine_store.put [OF this, of "LockKey [7]" "EncodeLock ?l"] txn_fitsD(1) [OF f(2), of ?l]
  obtain s0 d0 where k: "kv_Put (engine_ops (\<lambda>_. 0)) (LockKey [7]) (EncodeLock ?l) d = Some (s0, d0)" by (auto simp del: split_paired_Ex)
  from replayed_prewrite_loses_value [OF d(1) f(1) d(3), of 5 6 6 "[9]" "[7]" 0 s0 d0] d(4) g f(2) k
  show ?thesis by (simp del: split_paired_Ex) blast
qed

end
