(* ===== verification/SqlLexer.thy ===== *)
theory SqlLexer
  imports Status
begin

text \<open>
  The tokens of SQL statements, \<open>src/sql/lexer.h\<close> and \<open>lexer.cc\<close>.  The scanner walks over the input
  with an index; here it recurses on what is left of the input and carries the index along, since
  the tokens record it.  Literals are read as by \<open>strtoll\<close>, which saturates.

  Scanning the text of a list of tokens gives these tokens back.
\<close>

datatype TokenType = kKeyword | kIdentifier | kInt_token | kString | kSymbol | kEnd

record Token =
  tk_type :: TokenType
  tk_text :: bytes
  tk_int_value :: int
  tk_pos :: nat

definition empty_token :: Token where
  "empty_token = \<lparr>tk_type = kEnd, tk_text = [], tk_int_value = 0, tk_pos = 0\<rparr>"

definition Keywords :: "bytes list" where
  "Keywords = map str
     [''CREATE'', ''TABLE'', ''INT'', ''TEXT'', ''PRIMARY'', ''KEY'', ''INSERT'', ''INTO'', ''VALUES'', ''SELECT'', ''FROM'',
      ''WHERE'', ''AND'', ''UPDATE'', ''SET'', ''DELETE'', ''DROP'']"

subsection \<open>Characters\<close>

definition is_blank :: "byte \<Rightarrow> bool" where
  "is_blank c \<longleftrightarrow> c = 32 \<or> (9 \<le> c \<and> c \<le> 13)"

definition is_alpha :: "byte \<Rightarrow> bool" where
  "is_alpha c \<longleftrightarrow> (65 \<le> c \<and> c \<le> 90) \<or> (97 \<le> c \<and> c \<le> 122)"

definition to_upper :: "byte \<Rightarrow> byte" where
  "to_upper c = (if 97 \<le> c \<and> c \<le> 122 then c - 32 else c)"

definition word_start :: "byte \<Rightarrow> bool" where
  "word_start c \<longleftrightarrow> is_alpha c \<or> c = 95"

definition word_char :: "byte \<Rightarrow> bool" where
  "word_char c \<longleftrightarrow> is_alpha c \<or> is_digit c \<or> c = 95"

text \<open>\<open>strtoll\<close> on an optional minus sign and digits.\<close>

definition strtoll :: "bytes \<Rightarrow> int" where
  "strtoll s =
     (let v = (if s \<noteq> [] \<and> hd s = 45 then - int (digits_value (tl s)) else int (digits_value s))
      in max (- (2 ^ 63)) (min (2 ^ 63 - 1) v))"

subsection \<open>The scanner\<close>

definition lex_word :: "nat \<Rightarrow> bytes \<Rightarrow> Token \<times> bytes" where
  "lex_word i input =
     (let text = takeWhile word_char input; upper = map to_upper text
      in (if upper \<in> set Keywords
          then empty_token\<lparr>tk_pos := i, tk_type := kKeyword, tk_text := upper\<rparr>
          else empty_token\<lparr>tk_pos := i, tk_type := kIdentifier, tk_text := text\<rparr>,
          dropWhile word_char input))"

definition lex_number :: "nat \<Rightarrow> bytes \<Rightarrow> Token \<times> bytes" where
  "lex_number i input =
     (let sign = (if hd input = 45 then [45] else []); rest = (if hd input = 45 then tl input else input);
          text = sign @ takeWhile is_digit rest
      in (empty_token\<lparr>tk_pos := i, tk_type := kInt_token, tk_text := text, tk_int_value := strtoll text\<rparr>,
          dropWhile is_digit rest))"

text \<open>The value of a string literal and what follows its closing quote, behind the opening one.\<close>

fun lex_string :: "bytes \<Rightarrow> (bytes \<times> bytes) option" where
  "lex_string [] = None"
| "lex_string (c # input) =
     (if c = 39
      then (case input of
              d # rest \<Rightarrow> if d = 39 then map_option (\<lambda>(v, r). (39 # v, r)) (lex_string rest) else Some ([], input)
            | [] \<Rightarrow> Some ([], input))
      else map_option (\<lambda>(v, r). (c # v, r)) (lex_string input))"

definition lex_token :: "nat \<Rightarrow> bytes \<Rightarrow> (status, Token \<times> bytes) sum" where
  "lex_token i input =
     (let c = hd input; rest = tl input
      in if word_start c then Inr (lex_word i input)
         else if is_digit c \<or> (c = 45 \<and> rest \<noteq> [] \<and> is_digit (hd rest)) then Inr (lex_number i input)
         else if c = 39 then
           (case lex_string rest of
              None \<Rightarrow> Inl (InvalidArgument (str ''unterminated string literal at offset '' @ to_string i))
            | Some (v, r) \<Rightarrow> Inr (empty_token\<lparr>tk_pos := i, tk_type := kString, tk_text := v\<rparr>, r))
         else if c = 60 \<or> c = 62 \<or> c = 33 then
           (if rest \<noteq> [] \<and> hd rest = 61
            then Inr (empty_token\<lparr>tk_pos := i, tk_type := kSymbol, tk_text := [c, 61]\<rparr>, tl rest)
            else if c = 33 then Inl (InvalidArgument (str ''expected != at offset '' @ to_string i))
            else Inr (empty_token\<lparr>tk_pos := i, tk_type := kSymbol, tk_text := [c]\<rparr>, rest))
         else if c \<in> set (str ''(),;*='') then Inr (empty_token\<lparr>tk_pos := i, tk_type := kSymbol, tk_text := [c]\<rparr>, rest)
         else Inl (InvalidArgument (str ''unexpected character '' @ [39, c, 39] @ str '' at offset '' @ to_string i)))"

lemma lex_string_shorter: "lex_string s = Some (v, r) \<Longrightarrow> length r < length s"
proof (induction s arbitrary: v r rule: lex_string.induct)
  case (2 c input)
  then show ?case by (cases input) (force split: if_splits)+
qed simp

lemma lex_token_shorter:
  assumes "lex_token i (c # s) = Inr (t, r)"
  shows "length r < length (c # s)"
proof -
  have w: "length (dropWhile P s) < length (c # s)" for P by (simp add: length_dropWhile_le less_Suc_eq_le)
  have d: "length (dropWhile P (c # s)) < length (c # s)" if "P c" for P using w [of P] that by simp
  show ?thesis
    using assms w [of is_digit] d [of word_char] d [of is_digit] lex_string_shorter [of s]
    by (fastforce simp: lex_token_def lex_word_def lex_number_def Let_def word_start_def word_char_def
        split: if_splits option.splits)
qed

function lex_from :: "nat \<Rightarrow> bytes \<Rightarrow> (status, Token list) sum" where
  "lex_from i input =
     (if input = [] then Inr [empty_token\<lparr>tk_pos := i\<rparr>]
      else if is_blank (hd input) then lex_from (i + 1) (tl input)
      else case lex_token i input of
             Inl s \<Rightarrow> Inl s
           | Inr (token, rest) \<Rightarrow> map_sum id ((#) token) (lex_from (i + (length input - length rest)) rest))"
  by pat_completeness auto
termination
proof (relation "measure (length \<circ> snd)")
  fix i input x token rest
  assume a: "input \<noteq> []" "lex_token i input = Inr x" "(token, rest) = x"
  obtain c s where "input = c # s" using a(1) by (cases input) auto
  then show "((i + (length input - length rest), rest), i, input) \<in> measure (length \<circ> snd)"
    using a lex_token_shorter [of i c s token rest] by auto
qed auto

declare lex_from.simps [simp del]

definition Lex :: "bytes \<Rightarrow> (status, Token list) sum" where
  "Lex input = lex_from 0 input"

subsection \<open>Shape of the result\<close>

text \<open>The last token, and no other, is the end token.\<close>

lemma lex_token_type: "lex_token i s = Inr (t, r) \<Longrightarrow> tk_type t \<noteq> kEnd"
  by (auto simp: lex_token_def lex_word_def lex_number_def Let_def split: if_splits option.splits)

lemma map_sum_Inr: "map_sum f g x = Inr y \<longleftrightarrow> (\<exists>z. x = Inr z \<and> y = g z)"
  by (cases x) auto

lemma lex_from_end: "lex_from i s = Inr ts \<Longrightarrow> \<exists>us e. ts = us @ [e] \<and> tk_type e = kEnd \<and> (\<forall>t\<in>set us. tk_type t \<noteq> kEnd)"
proof (induction i s arbitrary: ts rule: lex_from.induct)
  case (1 i input)
  show ?case
  proof (cases "input = [] \<or> is_blank (hd input)")
    case True
    then show ?thesis using 1 by (auto simp: lex_from.simps [of i input] empty_token_def split: if_splits)
  next
    case False
    then obtain t r ts' where t: "lex_token i input = Inr (t, r)" "lex_from (i + (length input - length r)) r = Inr ts'" "ts = t # ts'"
      using 1(3) by (auto simp: lex_from.simps [of i input] map_sum_Inr split: sum.splits)
    obtain us e where "ts' = us @ [e]" "tk_type e = kEnd" "\<forall>t\<in>set us. tk_type t \<noteq> kEnd"
      using 1(2) [OF _ _ t(1) refl t(2)] False by blast
    then show ?thesis using t(3) lex_token_type [OF t(1)] by (intro exI [of _ "t # us"] exI [of _ e]) auto
  qed
qed

subsection \<open>The text of tokens\<close>

fun quoted :: "bytes \<Rightarrow> bytes" where
  "quoted [] = []"
| "quoted (c # s) = (if c = 39 then [39, 39] else [c]) @ quoted s"

fun token_text :: "TokenType \<times> bytes \<times> int \<Rightarrow> bytes" where
  "token_text (kString, text, n) = [39] @ quoted text @ [39]"
| "token_text (_, text, n) = text"

definition token_data :: "Token \<Rightarrow> TokenType \<times> bytes \<times> int" where
  "token_data t = (tk_type t, tk_text t, tk_int_value t)"

text \<open>Words that are no keywords in any case, and the symbols of the language.\<close>

definition plain_word :: "bytes \<Rightarrow> bool" where
  "plain_word s \<longleftrightarrow> s \<noteq> [] \<and> word_start (hd s) \<and> list_all word_char s \<and> map to_upper s \<notin> set Keywords"

definition symbols :: "bytes list" where
  "symbols = map str [''('', '')'', '','', '';'', ''*'', ''='', ''!='', ''<'', ''<='', ''>'', ''>='']"

definition int_text :: "int \<Rightarrow> bytes" where
  "int_text n = (if n < 0 then 45 # to_string (nat (- n)) else to_string (nat n))"

fun token_ok :: "TokenType \<times> bytes \<times> int \<Rightarrow> bool" where
  "token_ok (kKeyword, text, n) \<longleftrightarrow> text \<in> set Keywords \<and> n = 0"
| "token_ok (kIdentifier, text, n) \<longleftrightarrow> plain_word text \<and> n = 0"
| "token_ok (kInt_token, text, n) \<longleftrightarrow> text = int_text n \<and> - (2 ^ 63) \<le> n \<and> n < 2 ^ 63"
| "token_ok (kString, text, n) \<longleftrightarrow> n = 0"
| "token_ok (kSymbol, text, n) \<longleftrightarrow> text \<in> set symbols \<and> n = 0"
| "token_ok (kEnd, text, n) \<longleftrightarrow> False"

text \<open>Tokens separated by blanks.\<close>

definition spaced :: "(TokenType \<times> bytes \<times> int) list \<Rightarrow> bytes" where
  "spaced ts = concat (map (\<lambda>t. token_text t @ [32]) ts)"

lemma lex_string_quoted: "lex_string (quoted s @ 39 # 32 # r) = Some (s, 32 # r)"
  by (induction s) auto

lemma takeWhile_stop: "list_all P s \<Longrightarrow> \<not> P c \<Longrightarrow> takeWhile P (s @ c # r) = s \<and> dropWhile P (s @ c # r) = c # r"
  by (induction s) auto

lemma not_word_blank: "\<not> word_char 32" "\<not> is_digit 32"
  by (simp_all add: word_char_def is_alpha_def is_digit_def)

lemma keyword_word:
  assumes "s \<in> set Keywords"
  shows "s \<noteq> [] \<and> word_start (hd s) \<and> list_all word_char s \<and> map to_upper s = s"
proof -
  have "list_all (\<lambda>s. s \<noteq> [] \<and> word_start (hd s) \<and> list_all word_char s \<and> map to_upper s = s) Keywords"
    by (simp add: Keywords_def str_def word_start_def word_char_def is_alpha_def to_upper_def)
  then show ?thesis using assms by (simp add: list_all_iff)
qed

lemma lex_word_text:
  "list_all word_char s \<Longrightarrow> lex_word i (s @ 32 # r) =
     (if map to_upper s \<in> set Keywords
      then empty_token\<lparr>tk_pos := i, tk_type := kKeyword, tk_text := map to_upper s\<rparr>
      else empty_token\<lparr>tk_pos := i, tk_type := kIdentifier, tk_text := s\<rparr>, 32 # r)"
  using takeWhile_stop [of word_char s 32 r] not_word_blank by (simp add: lex_word_def Let_def)

lemma lex_token_word:
  "s \<noteq> [] \<Longrightarrow> word_start (hd s) \<Longrightarrow> lex_token i (s @ 32 # r) = Inr (lex_word i (s @ 32 # r))"
  by (cases s) (simp_all add: lex_token_def)

lemma digit_not_word: "is_digit c \<Longrightarrow> \<not> word_start c" "\<not> word_start 45" "\<not> word_start 39" "\<not> is_digit 45"
  by (auto simp: word_start_def is_alpha_def is_digit_def word_le_nat_alt)

lemma strtoll_int_text: "- (2 ^ 63) \<le> n \<Longrightarrow> n < 2 ^ 63 \<Longrightarrow> strtoll (int_text n) = n"
proof -
  assume b: "- (2 ^ 63) \<le> n" "n < 2 ^ 63"
  have "hd (to_string m) \<noteq> 45" for m
    using to_string_digits [of m] digit_not_word(4) by (cases "to_string m") auto
  then show ?thesis using b by (auto simp: strtoll_def int_text_def Let_def)
qed

lemma lex_token_int:
  assumes "- (2 ^ 63) \<le> n" and "n < 2 ^ 63"
  shows "\<exists>t. lex_token i (int_text n @ 32 # r) = Inr (t, 32 # r) \<and> token_data t = (kInt_token, int_text n, n)"
proof -
  obtain d ds where m: "to_string (nat (abs n)) = d # ds" by (cases "to_string (nat (abs n))") auto
  have dig: "is_digit d" "list_all is_digit ds" using to_string_digits [of "nat (abs n)"] by (simp_all add: m)
  have cut: "takeWhile is_digit ((d # ds) @ 32 # r) = d # ds" "dropWhile is_digit ((d # ds) @ 32 # r) = 32 # r"
    using takeWhile_stop [of is_digit "d # ds" 32 r] dig not_word_blank by auto
  have ne: "d \<noteq> 45" using dig(1) digit_not_word(4) by auto
  show ?thesis
  proof (cases "n < 0")
    case True
    then have t: "int_text n = 45 # d # ds" using m by (simp add: int_text_def)
    then show ?thesis
      using cut dig digit_not_word strtoll_int_text [OF assms]
      by (simp add: lex_token_def lex_number_def Let_def token_data_def)
  next
    case False
    then have t: "int_text n = d # ds" using m by (simp add: int_text_def)
    then show ?thesis
      using cut dig digit_not_word ne strtoll_int_text [OF assms]
      by (simp add: lex_token_def lex_number_def Let_def token_data_def)
  qed
qed

lemma lex_token_symbol:
  assumes "s \<in> set symbols"
  shows "lex_token i (s @ 32 # r) = Inr (empty_token\<lparr>tk_pos := i, tk_type := kSymbol, tk_text := s\<rparr>, 32 # r)"
proof -
  have "list_all (\<lambda>s. lex_token i (s @ 32 # r) = Inr (empty_token\<lparr>tk_pos := i, tk_type := kSymbol, tk_text := s\<rparr>, 32 # r)) symbols"
    by (simp add: symbols_def str_def lex_token_def Let_def word_start_def is_alpha_def is_digit_def)
  then show ?thesis using assms by (simp add: list_all_iff)
qed

lemma lex_token_text:
  assumes "token_ok td"
  shows "\<exists>t. lex_token i (token_text td @ 32 # r) = Inr (t, 32 # r) \<and> token_data t = td"
proof -
  obtain ty s n where td: "td = (ty, s, n)" by (cases td)
  show ?thesis
  proof (cases ty)
    case kKeyword
    then show ?thesis using assms keyword_word [of s]
      by (simp add: td lex_token_word lex_word_text token_data_def empty_token_def)
  next
    case kIdentifier
    then show ?thesis using assms
      by (simp add: td plain_word_def lex_token_word lex_word_text token_data_def empty_token_def)
  next
    case kInt_token
    then show ?thesis using assms lex_token_int [of n i r] by (simp add: td)
  next
    case kString
    then show ?thesis using assms digit_not_word
      by (simp add: td lex_token_def Let_def lex_string_quoted token_data_def empty_token_def is_digit_def)
  next
    case kSymbol
    then show ?thesis using assms by (simp add: td lex_token_symbol token_data_def empty_token_def)
  next
    case kEnd
    then show ?thesis using assms by (simp add: td)
  qed
qed

lemma token_text_start: "token_ok td \<Longrightarrow> token_text td \<noteq> [] \<and> \<not> is_blank (hd (token_text td @ r))"
proof -
  assume ok: "token_ok td"
  obtain ty s n where td: "td = (ty, s, n)" by (cases td)
  have w: "\<not> is_blank c" if "word_start c" for c
    using that by (auto simp: word_start_def is_alpha_def is_blank_def word_le_nat_alt)
  have d: "\<not> is_blank c" if "is_digit c" for c
    using that by (auto simp: is_digit_def is_blank_def word_le_nat_alt)
  have i: "int_text n \<noteq> [] \<and> \<not> is_blank (hd (int_text n))" for n
    using to_string_digits [of "nat n"] d by (cases "to_string (nat n)") (auto simp: int_text_def is_blank_def)
  have "list_all (\<lambda>s. s \<noteq> [] \<and> \<not> is_blank (hd s)) symbols" by (simp add: symbols_def str_def is_blank_def)
  then have y: "s \<noteq> [] \<and> \<not> is_blank (hd s)" if "s \<in> set symbols" for s using that by (simp add: list_all_iff)
  show ?thesis
    using ok w i [of n] y [of s] keyword_word [of s]
    by (cases ty) (auto simp: td plain_word_def is_blank_def)
qed

lemma lex_from_spaced:
  assumes "list_all token_ok tds"
  shows "\<exists>ts. lex_from i (spaced tds) = Inr (ts @ [empty_token\<lparr>tk_pos := i + length (spaced tds)\<rparr>]) \<and> map token_data ts = tds"
  using assms
proof (induction tds arbitrary: i)
  case Nil
  then show ?case by (simp add: spaced_def lex_from.simps [of i "[]"])
next
  case (Cons td tds)
  let ?r = "spaced tds"
  have s: "spaced (td # tds) = token_text td @ 32 # ?r" by (simp add: spaced_def)
  obtain t where t: "lex_token i (token_text td @ 32 # ?r) = Inr (t, 32 # ?r)" "token_data t = td"
    using lex_token_text Cons.prems by fastforce
  define j where "j = i + length (token_text td)"
  have "lex_from i (spaced (td # tds)) = map_sum id ((#) t) (lex_from j (32 # ?r))"
    using t(1) token_text_start [of td "[]"] Cons.prems unfolding s
    by (subst lex_from.simps) (simp add: j_def)
  also have "lex_from j (32 # ?r) = lex_from (j + 1) ?r"
    by (subst lex_from.simps) (simp add: is_blank_def)
  finally have e: "lex_from i (spaced (td # tds)) = map_sum id ((#) t) (lex_from (j + 1) ?r)" .
  obtain ts where ts: "lex_from (j + 1) ?r = Inr (ts @ [empty_token\<lparr>tk_pos := j + 1 + length ?r\<rparr>])" "map token_data ts = tds"
    using Cons.IH [of "j + 1"] Cons.prems by auto
  show ?case using e ts t(2) by (intro exI [of _ "t # ts"]) (simp add: s j_def)
qed

lemma Lex_spaced:
  "list_all token_ok tds \<Longrightarrow> \<exists>ts e. Lex (spaced tds) = Inr (ts @ [e]) \<and> tk_type e = kEnd \<and> map token_data ts = tds"
  using lex_from_spaced [of tds 0] by (fastforce simp: Lex_def empty_token_def)

end
