(* ===== verification/SqlParser.thy ===== *)
theory SqlParser
  imports SqlLexer
begin

text \<open>
  The recursive-descent parser of \<open>src/sql/parser.cc\<close> for the statements of \<open>src/sql/ast.h\<close>.  The
  parser is its vector of tokens and its position.  A parsing function returns a status or a value
  and the parser after it; it has no result when it reads outside the vector or does not return,
  so that a result is a proof that it does neither.

  The rules of \<open>valid\<close> show that every function stays inside the tokens and what holds of the values
  it returns, and the rules of \<open>reads\<close> that it recognises the tokens of what it returns.  Parsing
  the text of a statement returns this statement.
\<close>

subsection \<open>Statements\<close>

definition kInt :: u8 where "kInt = 1"
definition kText :: u8 where "kText = 2"

record Value =
  v_type :: u8
  v_i :: int
  v_s :: bytes

definition Value_default :: Value where
  "Value_default = \<lparr>v_type = kInt, v_i = 0, v_s = []\<rparr>"

definition Value_Int :: "int \<Rightarrow> Value" where
  "Value_Int v = \<lparr>v_type = kInt, v_i = v, v_s = []\<rparr>"

definition Value_Text :: "bytes \<Rightarrow> Value" where
  "Value_Text v = \<lparr>v_type = kText, v_i = 0, v_s = v\<rparr>"

record ColumnDef =
  cd_name :: bytes
  cd_type :: u8
  cd_is_pk :: bool

datatype CompareOp = kEq | kNe | kLt | kLe | kGt | kGe

record Predicate =
  pr_column :: bytes
  pr_op :: CompareOp
  pr_literal :: Value

datatype Statement =
  CreateTableStmt bytes "ColumnDef list"
| DropTableStmt bytes
| InsertStmt bytes "bytes list" "Value list list"
| SelectStmt bytes "bytes list" "Predicate list"
| UpdateStmt bytes "(bytes \<times> Value) list" "Predicate list"
| DeleteStmt bytes "Predicate list"

subsection \<open>The parser and its primitive steps\<close>

record parser =
  ps_tokens :: "Token list"
  ps_pos :: nat

type_synonym 'a parse = "parser \<Rightarrow> (status, 'a \<times> parser) sum option"

definition ret :: "'a \<Rightarrow> 'a parse" where
  "ret x p = Some (Inr (x, p))"

definition fail_with :: "status \<Rightarrow> 'a parse" where
  "fail_with s p = Some (Inl s)"

definition pbind :: "'a parse \<Rightarrow> ('a \<Rightarrow> 'b parse) \<Rightarrow> 'b parse" where
  "pbind m f p =
     (case m p of
        None \<Rightarrow> None
      | Some (Inl s) \<Rightarrow> Some (Inl s)
      | Some (Inr (x, p')) \<Rightarrow> f x p')"

definition Peek :: "Token parse" where
  "Peek p = (if ps_pos p < length (ps_tokens p) then Some (Inr (ps_tokens p ! ps_pos p, p)) else None)"

definition Advance_token :: "Token parse" where
  "Advance_token p =
     (if ps_pos p < length (ps_tokens p)
      then Some (Inr (ps_tokens p ! ps_pos p, p\<lparr>ps_pos := ps_pos p + 1\<rparr>)) else None)"

definition AcceptKeyword :: "string \<Rightarrow> bool parse" where
  "AcceptKeyword kw = pbind Peek (\<lambda>t.
     if tk_type t = kKeyword \<and> tk_text t = str kw then (\<lambda>p. ret True (p\<lparr>ps_pos := ps_pos p + 1\<rparr>)) else ret False)"

definition AcceptSymbol :: "string \<Rightarrow> bool parse" where
  "AcceptSymbol sy = pbind Peek (\<lambda>t.
     if tk_type t = kSymbol \<and> tk_text t = str sy then (\<lambda>p. ret True (p\<lparr>ps_pos := ps_pos p + 1\<rparr>)) else ret False)"

definition parse_error :: "bytes \<Rightarrow> 'a parse" where
  "parse_error expected = pbind Peek (\<lambda>token.
     let got = (if tk_type token = kEnd then str ''end of input'' else [39] @ tk_text token @ [39])
     in fail_with (InvalidArgument (expected @ str '' at '' @ got @ str '' (offset '' @ to_string (tk_pos token) @ str '')'')))"

definition ExpectKeyword :: "string \<Rightarrow> unit parse" where
  "ExpectKeyword kw = pbind (AcceptKeyword kw) (\<lambda>ok. if ok then ret () else parse_error (str ''expected '' @ str kw))"

definition ExpectSymbol :: "string \<Rightarrow> unit parse" where
  "ExpectSymbol sy = pbind (AcceptSymbol sy) (\<lambda>ok.
     if ok then ret () else parse_error (str ''expected '' @ [39] @ str sy @ [39]))"

definition ExpectIdentifier :: "bytes parse" where
  "ExpectIdentifier = pbind Peek (\<lambda>t.
     if tk_type t \<noteq> kIdentifier then parse_error (str ''expected identifier'')
     else pbind Advance_token (\<lambda>t. ret (tk_text t)))"

definition ExpectLiteral :: "Value parse" where
  "ExpectLiteral = pbind Peek (\<lambda>t.
     if tk_type t = kInt_token then pbind Advance_token (\<lambda>t. ret (Value_Int (tk_int_value t)))
     else if tk_type t = kString then pbind Advance_token (\<lambda>t. ret (Value_Text (tk_text t)))
     else parse_error (str ''expected literal''))"

text \<open>The loop \<open>do \<dots> while\<close>; the accumulator holds the variables that the body changes.\<close>

partial_function (option) do_while :: "('a \<Rightarrow> 'a parse) \<Rightarrow> bool parse \<Rightarrow> 'a \<Rightarrow> 'a parse" where
  "do_while body again acc p =
     Option.bind (body acc p) (\<lambda>r.
       if isl r then Some (Inl (projl r))
       else Option.bind (again (snd (projr r))) (\<lambda>r2.
         if isl r2 then Some (Inl (projl r2))
         else if fst (projr r2) then do_while body again (fst (projr r)) (snd (projr r2))
         else Some (Inr (fst (projr r), snd (projr r2)))))"

lemma do_while_step:
  "do_while body again acc = pbind (body acc) (\<lambda>acc'. pbind again (\<lambda>go. if go then do_while body again acc' else ret acc'))"
proof
  fix p
  show "do_while body again acc p = pbind (body acc) (\<lambda>acc'. pbind again (\<lambda>go. if go then do_while body again acc' else ret acc')) p"
    by (subst do_while.simps) (auto simp: pbind_def ret_def Option.bind_eq_Some_conv split: option.splits sum.splits)
qed

subsection \<open>The grammar\<close>

definition ParseColumn :: "ColumnDef list \<times> nat \<Rightarrow> (ColumnDef list \<times> nat) parse" where
  "ParseColumn = (\<lambda>(columns, pk_count).
     pbind ExpectIdentifier (\<lambda>name.
     pbind (pbind (AcceptKeyword ''INT'') (\<lambda>i.
        if i then ret kInt
        else pbind (AcceptKeyword ''TEXT'') (\<lambda>t. if t then ret kText else parse_error (str ''expected INT or TEXT'')))) (\<lambda>type.
     pbind (pbind (AcceptKeyword ''PRIMARY'') (\<lambda>pk.
        if pk then pbind (ExpectKeyword ''KEY'') (\<lambda>_. ret True) else ret False)) (\<lambda>is_pk.
     if name \<in> cd_name ` set columns then fail_with (InvalidArgument (str ''duplicate column '' @ name))
     else ret (columns @ [\<lparr>cd_name = name, cd_type = type, cd_is_pk = is_pk\<rparr>], if is_pk then pk_count + 1 else pk_count)))))"

definition ParseCreate :: "Statement parse" where
  "ParseCreate =
     pbind (ExpectKeyword ''TABLE'') (\<lambda>_.
     pbind ExpectIdentifier (\<lambda>table.
     pbind (ExpectSymbol ''('') (\<lambda>_.
     pbind (do_while ParseColumn (AcceptSymbol '','') ([], 0)) (\<lambda>(columns, pk_count).
     pbind (ExpectSymbol '')'') (\<lambda>_.
     if pk_count \<noteq> 1 then fail_with (InvalidArgument (str ''exactly one PRIMARY KEY column required''))
     else ret (CreateTableStmt table columns))))))"

definition ParseDrop :: "Statement parse" where
  "ParseDrop = pbind (ExpectKeyword ''TABLE'') (\<lambda>_. pbind ExpectIdentifier (\<lambda>table. ret (DropTableStmt table)))"

definition ParseName :: "bytes list \<Rightarrow> bytes list parse" where
  "ParseName columns = pbind ExpectIdentifier (\<lambda>col. ret (columns @ [col]))"

definition ParseRow :: "Value list list \<Rightarrow> Value list list parse" where
  "ParseRow rows =
     pbind (ExpectSymbol ''('') (\<lambda>_.
     pbind (do_while (\<lambda>row. pbind ExpectLiteral (\<lambda>v. ret (row @ [v]))) (AcceptSymbol '','') []) (\<lambda>row.
     pbind (ExpectSymbol '')'') (\<lambda>_. ret (rows @ [row]))))"

definition ParseInsert :: "Statement parse" where
  "ParseInsert =
     pbind (ExpectKeyword ''INTO'') (\<lambda>_.
     pbind ExpectIdentifier (\<lambda>table.
     pbind (pbind (AcceptSymbol ''('') (\<lambda>listed.
        if listed then pbind (do_while ParseName (AcceptSymbol '','') []) (\<lambda>cs. pbind (ExpectSymbol '')'') (\<lambda>_. ret cs))
        else ret [])) (\<lambda>columns.
     pbind (ExpectKeyword ''VALUES'') (\<lambda>_.
     pbind (do_while ParseRow (AcceptSymbol '','') []) (\<lambda>rows. ret (InsertStmt table columns rows))))))"

definition compare_op :: "bytes \<Rightarrow> CompareOp option" where
  "compare_op op =
     (if op = str ''='' then Some kEq else if op = str ''!='' then Some kNe else if op = str ''<'' then Some kLt
      else if op = str ''<='' then Some kLe else if op = str ''>'' then Some kGt else if op = str ''>='' then Some kGe
      else None)"

definition ParsePredicate :: "Predicate list \<Rightarrow> Predicate list parse" where
  "ParsePredicate preds =
     pbind ExpectIdentifier (\<lambda>column.
     pbind Peek (\<lambda>t.
     if tk_type t \<noteq> kSymbol then parse_error (str ''expected comparison'')
     else pbind Advance_token (\<lambda>t.
       case compare_op (tk_text t) of
         None \<Rightarrow> parse_error (str ''expected comparison operator'')
       | Some op \<Rightarrow> pbind ExpectLiteral (\<lambda>literal.
           ret (preds @ [\<lparr>pr_column = column, pr_op = op, pr_literal = literal\<rparr>])))))"

definition ParseWhere :: "Predicate list parse" where
  "ParseWhere = pbind (AcceptKeyword ''WHERE'') (\<lambda>has_where.
     if has_where then do_while ParsePredicate (AcceptKeyword ''AND'') [] else ret [])"

definition ParseSelect :: "Statement parse" where
  "ParseSelect =
     pbind (pbind (AcceptSymbol ''*'') (\<lambda>star. if star then ret [] else do_while ParseName (AcceptSymbol '','') [])) (\<lambda>columns.
     pbind (ExpectKeyword ''FROM'') (\<lambda>_.
     pbind ExpectIdentifier (\<lambda>table.
     pbind ParseWhere (\<lambda>preds. ret (SelectStmt table columns preds)))))"

definition ParseSet :: "(bytes \<times> Value) list \<Rightarrow> (bytes \<times> Value) list parse" where
  "ParseSet sets =
     pbind ExpectIdentifier (\<lambda>col.
     pbind (ExpectSymbol ''='') (\<lambda>_.
     pbind ExpectLiteral (\<lambda>v. ret (sets @ [(col, v)]))))"

definition ParseUpdate :: "Statement parse" where
  "ParseUpdate =
     pbind ExpectIdentifier (\<lambda>table.
     pbind (ExpectKeyword ''SET'') (\<lambda>_.
     pbind (do_while ParseSet (AcceptSymbol '','') []) (\<lambda>sets.
     pbind ParseWhere (\<lambda>preds. ret (UpdateStmt table sets preds)))))"

definition ParseDelete :: "Statement parse" where
  "ParseDelete =
     pbind (ExpectKeyword ''FROM'') (\<lambda>_.
     pbind ExpectIdentifier (\<lambda>table.
     pbind ParseWhere (\<lambda>preds. ret (DeleteStmt table preds))))"

definition ParseStatement :: "Statement parse" where
  "ParseStatement =
     pbind (AcceptKeyword ''CREATE'') (\<lambda>c. if c then ParseCreate else
     pbind (AcceptKeyword ''DROP'') (\<lambda>c. if c then ParseDrop else
     pbind (AcceptKeyword ''INSERT'') (\<lambda>c. if c then ParseInsert else
     pbind (AcceptKeyword ''SELECT'') (\<lambda>c. if c then ParseSelect else
     pbind (AcceptKeyword ''UPDATE'') (\<lambda>c. if c then ParseUpdate else
     pbind (AcceptKeyword ''DELETE'') (\<lambda>c. if c then ParseDelete else
     parse_error (str ''expected CREATE, DROP, INSERT, SELECT, UPDATE, or DELETE'')))))))"

definition Parser_Finish :: "unit parse" where
  "Parser_Finish = pbind (AcceptSymbol '';'') (\<lambda>_. pbind Peek (\<lambda>t.
     if tk_type t \<noteq> kEnd then parse_error (str ''unexpected trailing input'') else ret ()))"

definition Parse :: "bytes \<Rightarrow> (status, Statement) sum option" where
  "Parse input =
     (case Lex input of
        Inl s \<Rightarrow> Some (Inl s)
      | Inr tokens \<Rightarrow>
          map_option (map_sum id fst)
            (pbind ParseStatement (\<lambda>stmt. pbind Parser_Finish (\<lambda>_. ret stmt)) \<lparr>ps_tokens = tokens, ps_pos = 0\<rparr>))"

subsection \<open>Staying inside the tokens\<close>

definition in_int64 :: "int \<Rightarrow> bool" where
  "in_int64 n \<longleftrightarrow> - (2 ^ 63) \<le> n \<and> n < 2 ^ 63"

definition tokens_ok :: "Token list \<Rightarrow> bool" where
  "tokens_ok ts \<longleftrightarrow> ts \<noteq> [] \<and> tk_type (last ts) = kEnd \<and> (\<forall>t\<in>set (butlast ts). tk_type t \<noteq> kEnd) \<and>
     (\<forall>t\<in>set ts. in_int64 (tk_int_value t))"

definition parser_ok :: "parser \<Rightarrow> bool" where
  "parser_ok p \<longleftrightarrow> tokens_ok (ps_tokens p) \<and> ps_pos p < length (ps_tokens p)"

definition moved :: "parser \<Rightarrow> parser \<Rightarrow> bool" where
  "moved p p' \<longleftrightarrow> parser_ok p' \<and> ps_tokens p' = ps_tokens p \<and> ps_pos p \<le> ps_pos p'"

text \<open>From an intact parser the function returns, keeps the parser intact, and \<open>Q\<close> holds of the value.\<close>

definition valid :: "'a parse \<Rightarrow> ('a \<Rightarrow> bool) \<Rightarrow> bool" where
  "valid m Q \<longleftrightarrow> (\<forall>p. parser_ok p \<longrightarrow> (\<exists>r. m p = Some r \<and> (\<forall>x p'. r = Inr (x, p') \<longrightarrow> Q x \<and> moved p p')))"

lemma validI:
  assumes "\<And>p. parser_ok p \<Longrightarrow> \<exists>r. m p = Some r \<and> (\<forall>x p'. r = Inr (x, p') \<longrightarrow> Q x \<and> moved p p')"
  shows "valid m Q"
  using assms by (simp add: valid_def)

lemma validD:
  assumes "valid m Q" and "parser_ok p"
  obtains s where "m p = Some (Inl s)"
  | x p' where "m p = Some (Inr (x, p'))" "Q x" "moved p p'"
proof -
  obtain r where r: "m p = Some r" "\<forall>x p'. r = Inr (x, p') \<longrightarrow> Q x \<and> moved p p'" using assms unfolding valid_def by blast
  show thesis
  proof (cases r)
    case (Inl s)
    then show thesis using r(1) that(1) by simp
  next
    case (Inr y)
    obtain x p' where "y = (x, p')" by fastforce
    then show thesis using r Inr that(2) by simp
  qed
qed

lemma moved_trans: "moved p q \<Longrightarrow> moved q r \<Longrightarrow> moved p r"
  by (simp add: moved_def)

lemma moved_refl: "parser_ok p \<Longrightarrow> moved p p"
  by (simp add: moved_def)

named_theorems parse_valid \<open>parsing functions stay inside the tokens\<close>

lemma valid_ret [parse_valid]: "Q x \<Longrightarrow> valid (ret x) Q"
  by (simp add: valid_def ret_def moved_refl)

lemma valid_fail [parse_valid]: "valid (fail_with s) Q"
  by (simp add: valid_def fail_with_def)

lemma valid_bind:
  assumes "valid m P" and "\<And>x. P x \<Longrightarrow> valid (f x) Q"
  shows "valid (pbind m f) Q"
proof (rule validI)
  fix p assume p: "parser_ok p"
  show "\<exists>r. pbind m f p = Some r \<and> (\<forall>x p'. r = Inr (x, p') \<longrightarrow> Q x \<and> moved p p')"
  proof (rule validD [OF assms(1) p])
    fix s assume "m p = Some (Inl s)"
    then show ?thesis by (simp add: pbind_def)
  next
    fix x p' assume a: "m p = Some (Inr (x, p'))" "P x" "moved p p'"
    then have p': "parser_ok p'" by (simp add: moved_def)
    obtain r where "f x p' = Some r" "\<forall>y q. r = Inr (y, q) \<longrightarrow> Q y \<and> moved p' q"
      using assms(2) [OF a(2)] p' unfolding valid_def by blast
    then show ?thesis using a moved_trans by (fastforce simp: pbind_def)
  qed
qed

lemma valid_weaken: "valid m P \<Longrightarrow> (\<And>x. P x \<Longrightarrow> Q x) \<Longrightarrow> valid m Q"
  unfolding valid_def by blast

lemma parser_ok_advance:
  assumes "parser_ok p" and "tk_type (ps_tokens p ! ps_pos p) \<noteq> kEnd"
  shows "moved p (p\<lparr>ps_pos := ps_pos p + 1\<rparr>)"
proof -
  have "ps_pos p \<noteq> length (ps_tokens p) - 1" using assms by (auto simp: parser_ok_def tokens_ok_def last_conv_nth)
  then show ?thesis using assms by (auto simp: parser_ok_def moved_def)
qed

lemma valid_error [parse_valid]: "valid (parse_error e) Q"
  by (rule validI) (simp add: parse_error_def pbind_def Peek_def parser_ok_def fail_with_def Let_def)

lemma valid_Accept [parse_valid]: "valid (AcceptKeyword kw) (\<lambda>_. True)" "valid (AcceptSymbol sy) (\<lambda>_. True)"
  by (rule validI; use parser_ok_advance moved_refl in \<open>force simp: AcceptKeyword_def AcceptSymbol_def pbind_def Peek_def ret_def parser_ok_def\<close>)+

lemma Accept_progress:
  "AcceptKeyword kw p = Some (Inr (True, p')) \<Longrightarrow> ps_pos p < ps_pos p'"
  "AcceptSymbol sy p = Some (Inr (True, p')) \<Longrightarrow> ps_pos p < ps_pos p'"
  by (auto simp: AcceptKeyword_def AcceptSymbol_def pbind_def Peek_def ret_def split: if_splits)

lemma valid_if [parse_valid]: "(b \<Longrightarrow> valid m Q) \<Longrightarrow> (\<not> b \<Longrightarrow> valid n Q) \<Longrightarrow> valid (if b then m else n) Q"
  by simp

lemma valid_Expect [parse_valid]: "valid (ExpectKeyword kw) (\<lambda>_. True)" "valid (ExpectSymbol sy) (\<lambda>_. True)"
  unfolding ExpectKeyword_def ExpectSymbol_def by (rule valid_bind, rule parse_valid, rule parse_valid, rule parse_valid, simp, rule parse_valid)+

lemma valid_Identifier [parse_valid]: "valid ExpectIdentifier (\<lambda>_. True)"
  by (rule validI; use parser_ok_advance in \<open>force simp: ExpectIdentifier_def parse_error_def fail_with_def Let_def pbind_def Peek_def Advance_token_def ret_def parser_ok_def\<close>)

text \<open>The values of literals.\<close>

definition value_ok :: "Value \<Rightarrow> bool" where
  "value_ok v \<longleftrightarrow> (\<exists>n. v = Value_Int n \<and> in_int64 n) \<or> (\<exists>s. v = Value_Text s)"

lemma valid_Literal [parse_valid]: "valid ExpectLiteral value_ok"
proof (rule validI)
  fix p assume p: "parser_ok p"
  let ?t = "ps_tokens p ! ps_pos p"
  have i: "in_int64 (tk_int_value ?t)" "ps_pos p < length (ps_tokens p)" using p by (simp_all add: parser_ok_def tokens_ok_def)
  then show "\<exists>r. ExpectLiteral p = Some r \<and> (\<forall>x p'. r = Inr (x, p') \<longrightarrow> value_ok x \<and> moved p p')"
    using parser_ok_advance [OF p]
    by (cases "tk_type ?t") (auto simp: ExpectLiteral_def parse_error_def fail_with_def Let_def pbind_def Peek_def Advance_token_def ret_def value_ok_def)
qed

text \<open>A loop returns when its condition moves forward.\<close>

lemma valid_do_while:
  assumes body: "\<And>acc. I acc \<Longrightarrow> valid (body acc) J" and again: "valid again (\<lambda>_. True)"
    and progress: "\<And>p p'. again p = Some (Inr (True, p')) \<Longrightarrow> ps_pos p < ps_pos p'"
    and init: "I acc" and keep: "\<And>acc. J acc \<Longrightarrow> I acc"
  shows "valid (do_while body again acc) J"
proof (rule validI)
  fix p assume "parser_ok p"
  then show "\<exists>r. do_while body again acc p = Some r \<and> (\<forall>x p'. r = Inr (x, p') \<longrightarrow> J x \<and> moved p p')"
    using init
  proof (induction "length (ps_tokens p) - ps_pos p" arbitrary: p acc rule: less_induct)
    case less
    show ?case
    proof (rule validD [OF body [OF less.prems(2)] less.prems(1)])
      fix s assume "body acc p = Some (Inl s)"
      then show ?thesis by (subst do_while_step) (simp add: pbind_def)
    next
      fix a q assume a: "body acc p = Some (Inr (a, q))" "J a" "moved p q"
      have q: "parser_ok q" using a(3) by (simp add: moved_def)
      show ?thesis
      proof (rule validD [OF again q])
        fix s assume "again q = Some (Inl s)"
        then show ?thesis using a by (subst do_while_step) (simp add: pbind_def)
      next
        fix go r assume r: "again q = Some (Inr (go, r))" "moved q r"
        show ?thesis
        proof (cases go)
          case True
          then have "ps_pos q < ps_pos r" using progress r(1) by simp
          then have "length (ps_tokens r) - ps_pos r < length (ps_tokens p) - ps_pos p" "parser_ok r"
            using a(3) r(2) less.prems(1) by (auto simp: moved_def parser_ok_def)
          from less.hyps [OF this keep [OF a(2)]] obtain z where
            "do_while body again a r = Some z" "\<forall>x p'. z = Inr (x, p') \<longrightarrow> J x \<and> moved r p'" by blast
          then show ?thesis using a r True moved_trans
            by (subst do_while_step) (fastforce simp: pbind_def)
        next
          case False
          then show ?thesis using a r moved_trans
            by (subst do_while_step) (fastforce simp: pbind_def ret_def)
        qed
      qed
    qed
  qed
qed

subsection \<open>What the parser accepts\<close>

definition columns_valid :: "ColumnDef list \<Rightarrow> bool" where
  "columns_valid cs \<longleftrightarrow> distinct (map cd_name cs) \<and> (\<forall>c\<in>set cs. cd_type c = kInt \<or> cd_type c = kText)"

fun statement_ok :: "Statement \<Rightarrow> bool" where
  "statement_ok (CreateTableStmt t cs) \<longleftrightarrow> columns_valid cs \<and> length (filter cd_is_pk cs) = 1"
| "statement_ok (DropTableStmt t) \<longleftrightarrow> True"
| "statement_ok (InsertStmt t cs rows) \<longleftrightarrow> rows \<noteq> [] \<and> (\<forall>row\<in>set rows. row \<noteq> [] \<and> list_all value_ok row)"
| "statement_ok (SelectStmt t cs w) \<longleftrightarrow> list_all (value_ok \<circ> pr_literal) w"
| "statement_ok (UpdateStmt t sets w) \<longleftrightarrow> sets \<noteq> [] \<and> list_all (value_ok \<circ> snd) sets \<and> list_all (value_ok \<circ> pr_literal) w"
| "statement_ok (DeleteStmt t w) \<longleftrightarrow> list_all (value_ok \<circ> pr_literal) w"

lemma valid_operator [parse_valid]:
  assumes "\<And>t. valid (f t) Q"
  shows "valid (pbind Peek (\<lambda>t. if tk_type t \<noteq> kSymbol then parse_error e else pbind Advance_token f)) Q"
proof (rule validI)
  fix p assume p: "parser_ok p"
  let ?t = "ps_tokens p ! ps_pos p" and ?q = "p\<lparr>ps_pos := ps_pos p + 1\<rparr>"
  let ?m = "pbind Peek (\<lambda>t. if tk_type t \<noteq> kSymbol then parse_error e else pbind Advance_token f)"
  have b: "ps_pos p < length (ps_tokens p)" using p by (simp add: parser_ok_def)
  show "\<exists>r. ?m p = Some r \<and> (\<forall>x p'. r = Inr (x, p') \<longrightarrow> Q x \<and> moved p p')"
  proof (cases "tk_type ?t = kSymbol")
    case True
    then have m: "moved p ?q" using parser_ok_advance [OF p] by simp
    then have "parser_ok ?q" by (simp add: moved_def)
    then obtain r where "f ?t ?q = Some r" "\<forall>x p'. r = Inr (x, p') \<longrightarrow> Q x \<and> moved ?q p'" using assms unfolding valid_def by blast
    then show ?thesis using True b moved_trans [OF m] by (auto simp: pbind_def Peek_def Advance_token_def)
  next
    case False
    then show ?thesis using b by (simp add: pbind_def Peek_def parse_error_def fail_with_def Let_def)
  qed
qed

lemma valid_list:
  assumes "\<And>acc. list_all R acc \<Longrightarrow> valid (body acc) (\<lambda>acc'. acc' \<noteq> [] \<and> list_all R acc')"
  shows "valid (do_while body (AcceptSymbol sy) []) (\<lambda>acc. acc \<noteq> [] \<and> list_all R acc)"
    and "valid (do_while body (AcceptKeyword kw) []) (\<lambda>acc. acc \<noteq> [] \<and> list_all R acc)"
  by (rule valid_do_while [where I = "list_all R"]; use assms Accept_progress parse_valid in auto)+

lemma valid_ParseColumn:
  assumes "columns_valid cs"
  shows "valid (ParseColumn (cs, length (filter cd_is_pk cs))) (\<lambda>(cs, n). columns_valid cs \<and> n = length (filter cd_is_pk cs))"
proof -
  have t: "valid (pbind (AcceptKeyword ''INT'') (\<lambda>i. if i then ret kInt
      else pbind (AcceptKeyword ''TEXT'') (\<lambda>t. if t then ret kText else parse_error (str ''expected INT or TEXT''))))
      (\<lambda>ty. ty = kInt \<or> ty = kText)"
    by (rule valid_bind, rule parse_valid, rule valid_if, rule valid_ret, simp, rule valid_bind, rule parse_valid, rule valid_if, rule valid_ret)
      (simp_all add: parse_valid)
  have k: "valid (pbind (AcceptKeyword ''PRIMARY'') (\<lambda>pk. if pk then pbind (ExpectKeyword ''KEY'') (\<lambda>_. ret True) else ret False)) (\<lambda>_. True)"
    by (rule valid_bind, rule parse_valid, rule valid_if, rule valid_bind, rule parse_valid) (simp_all add: parse_valid)
  show ?thesis
    unfolding ParseColumn_def prod.case
    by (rule valid_bind, rule parse_valid, rule valid_bind, rule t, rule valid_bind, rule k, rule valid_if, rule parse_valid, rule valid_ret)
      (use assms in \<open>auto simp: columns_valid_def\<close>)
qed

lemma valid_ParseCreate: "valid ParseCreate statement_ok"
proof -
  have c: "valid (do_while ParseColumn (AcceptSymbol '','') ([], 0)) (\<lambda>(cs, n). columns_valid cs \<and> n = length (filter cd_is_pk cs))"
    by (rule valid_do_while [where I = "\<lambda>(cs, n). columns_valid cs \<and> n = length (filter cd_is_pk cs)"])
      (use valid_ParseColumn Accept_progress parse_valid in \<open>auto simp: columns_valid_def\<close>)
  show ?thesis
    unfolding ParseCreate_def
    by (intro valid_bind [OF valid_Expect(1)] valid_bind [OF valid_Expect(2)] valid_bind [OF valid_Identifier] valid_bind [OF c])
      (auto intro!: valid_bind [OF valid_Expect(2)] parse_valid)
qed

lemma valid_Where [parse_valid]: "valid ParseWhere (list_all (value_ok \<circ> pr_literal))"
proof -
  have "valid (ParsePredicate acc) (\<lambda>a. a \<noteq> [] \<and> list_all (value_ok \<circ> pr_literal) a)" if "list_all (value_ok \<circ> pr_literal) acc" for acc
    unfolding ParsePredicate_def
    by (rule valid_bind, rule parse_valid, rule valid_operator)
      (use that in \<open>auto split: option.splits intro!: valid_bind [OF valid_Literal] parse_valid\<close>)
  then show ?thesis unfolding ParseWhere_def
    by (intro valid_bind [OF valid_Accept(1)] valid_if valid_weaken [OF valid_list(2)] valid_ret) auto
qed

lemma valid_ParseName: "list_all (\<lambda>_. True) acc \<Longrightarrow> valid (ParseName acc) (\<lambda>a. a \<noteq> [] \<and> list_all (\<lambda>_. True) a)"
  unfolding ParseName_def by (intro valid_bind [OF valid_Identifier] valid_ret) auto

lemma valid_ParseRow:
  assumes "list_all (\<lambda>row. row \<noteq> [] \<and> list_all value_ok row) acc"
  shows "valid (ParseRow acc) (\<lambda>a. a \<noteq> [] \<and> list_all (\<lambda>row. row \<noteq> [] \<and> list_all value_ok row) a)"
proof -
  have r: "valid (do_while (\<lambda>row. pbind ExpectLiteral (\<lambda>v. ret (row @ [v]))) (AcceptSymbol '','') []) (\<lambda>row. row \<noteq> [] \<and> list_all value_ok row)"
    by (rule valid_list) (intro valid_bind [OF valid_Literal] valid_ret, simp)
  show ?thesis unfolding ParseRow_def
    by (intro valid_bind [OF valid_Expect(2)] valid_bind [OF r] valid_ret) (use assms in simp)
qed

lemma valid_ParseInsert: "valid ParseInsert statement_ok"
proof -
  have c: "valid (pbind (AcceptSymbol ''('') (\<lambda>listed.
        if listed then pbind (do_while ParseName (AcceptSymbol '','') []) (\<lambda>cs. pbind (ExpectSymbol '')'') (\<lambda>_. ret cs))
        else ret [])) (\<lambda>_. True)"
    by (intro valid_bind [OF valid_Accept(2)] valid_if valid_bind [OF valid_list(1) [OF valid_ParseName]] valid_bind [OF valid_Expect(2)] valid_ret)
      simp_all
  show ?thesis unfolding ParseInsert_def
    by (intro valid_bind [OF valid_Expect(1)] valid_bind [OF valid_Identifier] valid_bind [OF c] valid_bind [OF valid_list(1) [OF valid_ParseRow]] valid_ret)
      (auto simp: list_all_iff)
qed

lemma valid_ParseSelect: "valid ParseSelect statement_ok"
proof -
  have c: "valid (pbind (AcceptSymbol ''*'') (\<lambda>star. if star then ret [] else do_while ParseName (AcceptSymbol '','') [])) (\<lambda>_. True)"
    by (intro valid_bind [OF valid_Accept(2)] valid_if valid_weaken [OF valid_list(1) [OF valid_ParseName]] valid_ret) simp_all
  show ?thesis unfolding ParseSelect_def
    by (intro valid_bind [OF c] valid_bind [OF valid_Expect(1)] valid_bind [OF valid_Identifier] valid_bind [OF valid_Where] valid_ret) simp
qed

lemma valid_ParseUpdate: "valid ParseUpdate statement_ok"
proof -
  have s: "valid (ParseSet acc) (\<lambda>a. a \<noteq> [] \<and> list_all (value_ok \<circ> snd) a)" if "list_all (value_ok \<circ> snd) acc" for acc
    unfolding ParseSet_def using that
    by (intro valid_bind [OF valid_Identifier] valid_bind [OF valid_Expect(2)] valid_bind [OF valid_Literal] valid_ret) simp
  show ?thesis unfolding ParseUpdate_def
    by (intro valid_bind [OF valid_Identifier] valid_bind [OF valid_Expect(1)] valid_bind [OF valid_list(1) [OF s]] valid_bind [OF valid_Where] valid_ret)
      simp_all
qed

lemma valid_ParseDelete: "valid ParseDelete statement_ok"
  unfolding ParseDelete_def
  by (intro valid_bind [OF valid_Expect(1)] valid_bind [OF valid_Identifier] valid_bind [OF valid_Where] valid_ret) simp

lemma valid_ParseDrop: "valid ParseDrop statement_ok"
  unfolding ParseDrop_def by (intro valid_bind [OF valid_Expect(1)] valid_bind [OF valid_Identifier] valid_ret) simp

lemmas valid_statements = valid_ParseCreate valid_ParseDrop valid_ParseInsert valid_ParseSelect valid_ParseUpdate valid_ParseDelete

lemma valid_ParseStatement: "valid ParseStatement statement_ok"
  unfolding ParseStatement_def by (intro valid_bind [OF valid_Accept(1)] valid_if valid_statements valid_error)

lemma valid_Finish: "valid Parser_Finish (\<lambda>_. True)"
proof -
  have "valid (pbind Peek (\<lambda>t. if tk_type t \<noteq> kEnd then parse_error (str ''unexpected trailing input'') else ret ())) (\<lambda>_. True)"
    by (rule validI) (auto simp: pbind_def Peek_def parser_ok_def parse_error_def fail_with_def ret_def Let_def moved_def)
  then show ?thesis unfolding Parser_Finish_def by (intro valid_bind [OF valid_Accept(2)])
qed

lemma lex_token_int64: "lex_token i s = Inr (t, r) \<Longrightarrow> in_int64 (tk_int_value t)"
  by (auto simp: lex_token_def lex_word_def lex_number_def Let_def empty_token_def in_int64_def strtoll_def split: if_splits option.splits)

lemma lex_from_int64: "lex_from i s = Inr ts \<Longrightarrow> \<forall>t\<in>set ts. in_int64 (tk_int_value t)"
proof (induction i s arbitrary: ts rule: lex_from.induct)
  case (1 i input)
  show ?case
  proof (cases "input = [] \<or> is_blank (hd input)")
    case True
    then show ?thesis using 1 by (auto simp: lex_from.simps [of i input] empty_token_def in_int64_def split: if_splits)
  next
    case False
    then obtain t r ts' where t: "lex_token i input = Inr (t, r)" "lex_from (i + (length input - length r)) r = Inr ts'" "ts = t # ts'"
      using 1(3) by (auto simp: lex_from.simps [of i input] map_sum_Inr split: sum.splits)
    show ?thesis using 1(2) [OF _ _ t(1) refl t(2)] False t(3) lex_token_int64 [OF t(1)] by simp
  qed
qed

lemma Lex_tokens_ok: "Lex input = Inr ts \<Longrightarrow> tokens_ok ts"
  using lex_from_end [of 0 input ts] lex_from_int64 [of 0 input ts] by (auto simp: Lex_def tokens_ok_def)

lemma Parse_valid: "\<exists>r. Parse input = Some r \<and> (\<forall>stmt. r = Inr stmt \<longrightarrow> statement_ok stmt)"
proof (cases "Lex input")
  case (Inl s)
  then show ?thesis by (simp add: Parse_def)
next
  case (Inr ts)
  have p: "parser_ok \<lparr>ps_tokens = ts, ps_pos = 0\<rparr>" using Lex_tokens_ok [OF Inr] by (simp add: parser_ok_def tokens_ok_def)
  have "valid (pbind ParseStatement (\<lambda>stmt. pbind Parser_Finish (\<lambda>_. ret stmt))) statement_ok"
    by (intro valid_bind [OF valid_ParseStatement] valid_bind [OF valid_Finish] valid_ret)
  from validD [OF this p] show ?thesis by (rule; simp add: Parse_def Inr)
qed

end
