(* ===== verification/SqlPrint.thy ===== *)
theory SqlPrint
  imports SqlParser
begin

text \<open>
  The text of statements, and that the parser of \<open>SqlParser\<close> reads it back.  \<open>reads m ts x ks\<close>: in
  front of the tokens \<open>ts\<close>, when what follows them does not begin with one of \<open>ks\<close>, the parsing
  function \<open>m\<close> consumes exactly \<open>ts\<close> and returns \<open>x\<close>.
\<close>

subsection \<open>Tokens in front of the parser\<close>

type_synonym lexeme = "TokenType \<times> bytes \<times> int"

definition sees :: "parser \<Rightarrow> lexeme list \<Rightarrow> bool" where
  "sees p tds \<longleftrightarrow> map token_data (drop (ps_pos p) (ps_tokens p)) = tds"

definition free :: "(TokenType \<times> bytes) list \<Rightarrow> lexeme list \<Rightarrow> bool" where
  "free ks r \<longleftrightarrow> r \<noteq> [] \<and> (fst (hd r), fst (snd (hd r))) \<notin> set ks"

definition reads :: "'a parse \<Rightarrow> lexeme list \<Rightarrow> 'a \<Rightarrow> (TokenType \<times> bytes) list \<Rightarrow> bool" where
  "reads m ts x ks \<longleftrightarrow> (\<forall>p r. sees p (ts @ r) \<longrightarrow> free ks r \<longrightarrow> (\<exists>p'. m p = Some (Inr (x, p')) \<and> sees p' r))"

lemma readsI:
  "(\<And>p r. sees p (ts @ r) \<Longrightarrow> free ks r \<Longrightarrow> \<exists>p'. m p = Some (Inr (x, p')) \<and> sees p' r) \<Longrightarrow> reads m ts x ks"
  by (simp add: reads_def)

lemma readsD: "reads m ts x ks \<Longrightarrow> sees p (ts @ r) \<Longrightarrow> free ks r \<Longrightarrow> \<exists>p'. m p = Some (Inr (x, p')) \<and> sees p' r"
  by (simp add: reads_def)

lemma reads_ret: "reads (ret x) [] x ks"
  by (simp add: reads_def ret_def)

lemma reads_ret_eq: "x = y \<Longrightarrow> reads (ret x) [] y ks"
  by (simp add: reads_ret)

lemma reads_bind:
  assumes "reads m a x ks" and "reads (f x) b y ls" and "\<And>r. free ls r \<Longrightarrow> free ks (b @ r)"
  shows "reads (pbind m f) (a @ b) y ls"
proof (rule readsI)
  fix p r assume p: "sees p ((a @ b) @ r)" "free ls r"
  obtain q where "m p = Some (Inr (x, q))" "sees q (b @ r)" using readsD [OF assms(1), of p "b @ r"] assms(3) p by auto
  then show "\<exists>p'. pbind m f p = Some (Inr (y, p')) \<and> sees p' r" using readsD [OF assms(2)] p(2) by (fastforce simp: pbind_def)
qed

lemma reads_then: "reads m a x ks \<Longrightarrow> reads (f x) [] y ls \<Longrightarrow> (\<And>r. free ls r \<Longrightarrow> free ks r) \<Longrightarrow> reads (pbind m f) a y ls"
  using reads_bind [of m a x ks f "[]" y ls] by simp

lemma free_append: "b \<noteq> [] \<Longrightarrow> free ks (b @ r) \<longleftrightarrow> free ks b"
  by (cases b) (simp_all add: free_def)

lemma free_Nil_set: "free ls r \<Longrightarrow> set ks \<subseteq> set ls \<Longrightarrow> free ks r"
  by (auto simp: free_def)

lemma sees_Cons:
  assumes "sees p (td # r)"
  shows "ps_pos p < length (ps_tokens p)" "token_data (ps_tokens p ! ps_pos p) = td" "sees (p\<lparr>ps_pos := ps_pos p + 1\<rparr>) r"
proof -
  show b: "ps_pos p < length (ps_tokens p)" using assms by (metis sees_def drop_all leI list.simps(8) neq_Nil_conv not_Cons_self2)
  have "drop (ps_pos p) (ps_tokens p) = ps_tokens p ! ps_pos p # drop (Suc (ps_pos p)) (ps_tokens p)"
    by (rule Cons_nth_drop_Suc [symmetric, OF b])
  then show "token_data (ps_tokens p ! ps_pos p) = td" "sees (p\<lparr>ps_pos := ps_pos p + 1\<rparr>) r"
    using assms by (simp_all add: sees_def)
qed

lemma sees_Peek:
  assumes "sees p (td # r)"
  shows "\<exists>t. Peek p = Some (Inr (t, p)) \<and> Advance_token p = Some (Inr (t, p\<lparr>ps_pos := ps_pos p + 1\<rparr>)) \<and>
    tk_type t = fst td \<and> tk_text t = fst (snd td) \<and> tk_int_value t = snd (snd td)"
  using sees_Cons [OF assms] by (auto simp: Peek_def Advance_token_def token_data_def)

subsection \<open>Primitive steps\<close>

abbreviation kw :: "string \<Rightarrow> lexeme" where "kw s \<equiv> (kKeyword, str s, 0)"
abbreviation sy :: "string \<Rightarrow> lexeme" where "sy s \<equiv> (kSymbol, str s, 0)"
abbreviation ident :: "bytes \<Rightarrow> lexeme" where "ident s \<equiv> (kIdentifier, s, 0)"

definition lit :: "Value \<Rightarrow> lexeme" where
  "lit v = (if v_type v = kInt then (kInt_token, int_text (v_i v), v_i v) else (kString, v_s v, 0))"

lemma reads_Accept:
  "reads (AcceptKeyword k) [kw k] True []" "reads (AcceptKeyword k) [] False [(kKeyword, str k)]"
  "reads (AcceptSymbol k) [sy k] True []" "reads (AcceptSymbol k) [] False [(kSymbol, str k)]"
proof -
  show "reads (AcceptKeyword k) [kw k] True []"
    by (rule readsI) (use sees_Peek sees_Cons in \<open>fastforce simp: AcceptKeyword_def pbind_def ret_def\<close>)
  show "reads (AcceptSymbol k) [sy k] True []"
    by (rule readsI) (use sees_Peek sees_Cons in \<open>fastforce simp: AcceptSymbol_def pbind_def ret_def\<close>)
  have *: "\<exists>t. Peek p = Some (Inr (t, p)) \<and> (tk_type t, tk_text t) \<notin> set ks" if "sees p r" "free ks r" for p r ks
    using that sees_Peek [of p "hd r" "tl r"] by (cases r) (auto simp: free_def)
  show "reads (AcceptKeyword k) [] False [(kKeyword, str k)]"
    by (rule readsI) (use * in \<open>fastforce simp: AcceptKeyword_def pbind_def ret_def\<close>)
  show "reads (AcceptSymbol k) [] False [(kSymbol, str k)]"
    by (rule readsI) (use * in \<open>fastforce simp: AcceptSymbol_def pbind_def ret_def\<close>)
qed

lemma reads_Expect: "reads (ExpectKeyword k) [kw k] () []" "reads (ExpectSymbol k) [sy k] () []"
  unfolding ExpectKeyword_def ExpectSymbol_def
  by (rule reads_then, rule reads_Accept, simp add: reads_ret, simp)+

lemma reads_Identifier: "reads ExpectIdentifier [ident s] s []"
proof (rule readsI)
  fix p r assume "sees p ([ident s] @ r)"
  then have a: "sees p (ident s # r)" by simp
  show "\<exists>p'. ExpectIdentifier p = Some (Inr (s, p')) \<and> sees p' r"
    using sees_Peek [OF a] sees_Cons(3) [OF a] by (auto simp: ExpectIdentifier_def pbind_def ret_def)
qed

lemma reads_Literal: "value_ok v \<Longrightarrow> reads ExpectLiteral [lit v] v []"
proof (rule readsI)
  fix p r assume v: "value_ok v" and "sees p ([lit v] @ r)"
  then have a: "sees p (lit v # r)" by simp
  show "\<exists>p'. ExpectLiteral p = Some (Inr (v, p')) \<and> sees p' r"
    using v sees_Peek [OF a] sees_Cons(3) [OF a]
    by (auto simp: value_ok_def ExpectLiteral_def pbind_def ret_def lit_def Value_Int_def Value_Text_def kInt_def kText_def)
qed

text \<open>Sequences of steps, where the tokens of the first are written out.\<close>

lemma reads_first:
  "reads m [t] x [] \<Longrightarrow> reads (f x) b y ls \<Longrightarrow> reads (pbind m f) (t # b) y ls"
  using reads_bind [of m "[t]" x "[]" f b y ls] by (fastforce simp: free_def)

lemma reads_skip:
  "reads m [] x ks \<Longrightarrow> reads (f x) b y ls \<Longrightarrow> b \<noteq> [] \<Longrightarrow> free ks b \<Longrightarrow> reads (pbind m f) b y ls"
  using reads_bind [of m "[]" x ks f b y ls] by (simp add: free_append)

lemma reads_seq:
  "reads m a x ks \<Longrightarrow> reads (f x) b y ls \<Longrightarrow> b \<noteq> [] \<Longrightarrow> free ks b \<Longrightarrow> reads (pbind m f) (a @ b) y ls"
  using reads_bind [of m a x ks f b y ls] by (simp add: free_append)

subsection \<open>Lists\<close>

fun sep :: "'a list \<Rightarrow> 'a list list \<Rightarrow> 'a list" where
  "sep s [] = []"
| "sep s [a] = a"
| "sep s (a # b # r) = a @ s @ sep s (b # r)"

lemma reads_do_while:
  assumes "xs \<noteq> []"
    and "\<And>ys x zs. xs = ys @ x # zs \<Longrightarrow> reads (body (foldl g acc ys)) (t x) (foldl g acc (ys @ [x])) ks"
    and "reads again [c] True []" and "reads again [] False [(fst c, fst (snd c))]" and "(fst c, fst (snd c)) \<notin> set ks"
  shows "reads (do_while body again acc) (sep [c] (map t xs)) (foldl g acc xs) ((fst c, fst (snd c)) # ks)"
  using assms(1,2)
proof (induction xs arbitrary: acc rule: list_nonempty_induct)
  case (single x)
  have b: "reads (body acc) (t x) (g acc x) ks" using single [of "[]" x "[]"] by simp
  have "reads (pbind again (\<lambda>go. if go then do_while body again (g acc x) else ret (g acc x))) [] (g acc x) ((fst c, fst (snd c)) # ks)"
    by (rule reads_then [OF assms(4)]) (auto simp: reads_ret free_def)
  then show ?case by (subst do_while_step) (auto intro!: reads_then [OF b] simp: free_def)
next
  case (cons x xs)
  have b: "reads (body acc) (t x) (g acc x) ks" using cons.prems [of "[]" x xs] by simp
  have "reads (body (foldl g (g acc x) ys)) (t y) (foldl g (g acc x) (ys @ [y])) ks" if "xs = ys @ y # zs" for ys y zs
    using cons.prems [of "x # ys" y zs] that by simp
  then have "reads (do_while body again (g acc x)) (sep [c] (map t xs)) (foldl g (g acc x) xs) ((fst c, fst (snd c)) # ks)"
    by (rule cons.IH)
  then have "reads (pbind again (\<lambda>go. if go then do_while body again (g acc x) else ret (g acc x))) (c # sep [c] (map t xs))
      (foldl g (g acc x) xs) ((fst c, fst (snd c)) # ks)"
    by (intro reads_first [OF assms(3)]) simp
  moreover have "free ks (c # sep [c] (map t xs))" using assms(5) by (simp add: free_def)
  ultimately have "reads (pbind (body acc) (\<lambda>a. pbind again (\<lambda>go. if go then do_while body again a else ret a)))
      (t x @ c # sep [c] (map t xs)) (foldl g (g acc x) xs) ((fst c, fst (snd c)) # ks)"
    by (intro reads_seq [OF b]) simp_all
  moreover have "sep [c] (map t (x # xs)) = t x @ c # sep [c] (map t xs)" using cons.hyps by (cases xs) auto
  ultimately show ?case by (subst do_while_step) simp
qed

lemma foldl_append_one: "foldl (\<lambda>a x. a @ [x]) acc xs = acc @ xs"
  by (induction xs arbitrary: acc) auto

lemma reads_list:
  assumes "xs \<noteq> []" and "\<And>acc x. x \<in> set xs \<Longrightarrow> reads (body acc) (t x) (acc @ [x]) []"
  shows "reads (do_while body (AcceptSymbol s) []) (sep [sy s] (map t xs)) xs [(kSymbol, str s)]"
    and "reads (do_while body (AcceptKeyword k) []) (sep [kw k] (map t xs)) xs [(kKeyword, str k)]"
  using reads_do_while [OF assms(1), of body "\<lambda>a x. a @ [x]" "[]" t "[]" "AcceptSymbol s" "sy s"]
    reads_do_while [OF assms(1), of body "\<lambda>a x. a @ [x]" "[]" t "[]" "AcceptKeyword k" "kw k"] assms(2) reads_Accept
  by (simp_all add: foldl_append_one)

subsection \<open>The tokens of a statement\<close>

definition column_tokens :: "ColumnDef \<Rightarrow> lexeme list" where
  "column_tokens c = [ident (cd_name c), if cd_type c = kInt then kw ''INT'' else kw ''TEXT''] @
     (if cd_is_pk c then [kw ''PRIMARY'', kw ''KEY''] else [])"

fun op_text :: "CompareOp \<Rightarrow> string" where
  "op_text kEq = ''=''"
| "op_text kNe = ''!=''"
| "op_text kLt = ''<''"
| "op_text kLe = ''<=''"
| "op_text kGt = ''>''"
| "op_text kGe = ''>=''"

definition predicate_tokens :: "Predicate \<Rightarrow> lexeme list" where
  "predicate_tokens p = [ident (pr_column p), sy (op_text (pr_op p)), lit (pr_literal p)]"

definition where_tokens :: "Predicate list \<Rightarrow> lexeme list" where
  "where_tokens w = (if w = [] then [] else kw ''WHERE'' # sep [kw ''AND''] (map predicate_tokens w))"

definition name_tokens :: "bytes list \<Rightarrow> lexeme list" where
  "name_tokens cs = sep [sy '',''] (map (\<lambda>c. [ident c]) cs)"

definition row_tokens :: "Value list \<Rightarrow> lexeme list" where
  "row_tokens row = [sy ''(''] @ sep [sy '',''] (map (\<lambda>v. [lit v]) row) @ [sy '')'']"

definition set_tokens :: "bytes \<times> Value \<Rightarrow> lexeme list" where
  "set_tokens st = [ident (fst st), sy ''='', lit (snd st)]"

fun statement_tokens :: "Statement \<Rightarrow> lexeme list" where
  "statement_tokens (CreateTableStmt t cs) =
     [kw ''CREATE'', kw ''TABLE'', ident t, sy ''(''] @ sep [sy '',''] (map column_tokens cs) @ [sy '')'']"
| "statement_tokens (DropTableStmt t) = [kw ''DROP'', kw ''TABLE'', ident t]"
| "statement_tokens (InsertStmt t cs rows) =
     [kw ''INSERT'', kw ''INTO'', ident t] @ (if cs = [] then [] else [sy ''(''] @ name_tokens cs @ [sy '')'']) @
     [kw ''VALUES''] @ sep [sy '',''] (map row_tokens rows)"
| "statement_tokens (SelectStmt t cs w) =
     [kw ''SELECT''] @ (if cs = [] then [sy ''*''] else name_tokens cs) @ [kw ''FROM'', ident t] @ where_tokens w"
| "statement_tokens (UpdateStmt t sets w) =
     [kw ''UPDATE'', ident t, kw ''SET''] @ sep [sy '',''] (map set_tokens sets) @ where_tokens w"
| "statement_tokens (DeleteStmt t w) = [kw ''DELETE'', kw ''FROM'', ident t] @ where_tokens w"

text \<open>The names of tables and columns in a statement.\<close>

fun statement_names :: "Statement \<Rightarrow> bytes set" where
  "statement_names (CreateTableStmt t cs) = insert t (cd_name ` set cs)"
| "statement_names (DropTableStmt t) = {t}"
| "statement_names (InsertStmt t cs rows) = insert t (set cs)"
| "statement_names (SelectStmt t cs w) = insert t (set cs \<union> pr_column ` set w)"
| "statement_names (UpdateStmt t sets w) = insert t (fst ` set sets \<union> pr_column ` set w)"
| "statement_names (DeleteStmt t w) = insert t (pr_column ` set w)"

definition statement_text :: "Statement \<Rightarrow> bytes" where
  "statement_text s = spaced (statement_tokens s)"

subsection \<open>Reading statements\<close>

text \<open>The tokens that would continue a list, a row or a condition.\<close>

definition more :: "(TokenType \<times> bytes) list" where
  "more = [(kKeyword, str ''PRIMARY''), (kKeyword, str ''WHERE''), (kKeyword, str ''AND''), (kSymbol, str '','')]"

lemma reads_more: "reads m a x ks \<Longrightarrow> set ks \<subseteq> set more \<Longrightarrow> reads m a x more"
  unfolding reads_def using free_Nil_set by blast

lemma reads_more_bind: "reads m a x more \<Longrightarrow> reads (f x) [] y more \<Longrightarrow> reads (pbind m f) a y more"
  by (rule reads_then)

lemma reads_ParseColumn:
  assumes "cd_name c \<notin> cd_name ` set cs" and "cd_type c = kInt \<or> cd_type c = kText"
  shows "reads (ParseColumn (cs, n)) (column_tokens c) (cs @ [c], if cd_is_pk c then n + 1 else n) [(kKeyword, str ''PRIMARY'')]"
proof -
  let ?ty = "if cd_type c = kInt then kw ''INT'' else kw ''TEXT''"
  let ?pk = "if cd_is_pk c then [kw ''PRIMARY'', kw ''KEY''] else []"
  have kt: "kText \<noteq> kInt" by (simp add: kInt_def kText_def)
  have ty: "reads (pbind (AcceptKeyword ''INT'') (\<lambda>i. if i then ret kInt
        else pbind (AcceptKeyword ''TEXT'') (\<lambda>t. if t then ret kText else parse_error (str ''expected INT or TEXT''))))
      [?ty] (cd_type c) []"
  proof (cases "cd_type c = kInt")
    case True
    then show ?thesis by (simp add: reads_first [OF reads_Accept(1)] reads_ret)
  next
    case False
    then have "cd_type c = kText" using assms(2) by simp
    then show ?thesis using kt
      by (auto intro!: reads_skip [OF reads_Accept(2)] reads_first [OF reads_Accept(1)] simp: reads_ret free_def)
  qed
  have pk: "reads (pbind (AcceptKeyword ''PRIMARY'') (\<lambda>pk. if pk then pbind (ExpectKeyword ''KEY'') (\<lambda>_. ret True) else ret False))
      ?pk (cd_is_pk c) [(kKeyword, str ''PRIMARY'')]"
    by (auto intro!: reads_first [OF reads_Accept(1)] reads_first [OF reads_Expect(1)] reads_then [OF reads_Accept(2)] simp: reads_ret)
  have c: "\<lparr>cd_name = cd_name c, cd_type = cd_type c, cd_is_pk = cd_is_pk c\<rparr> = c" by simp
  show ?thesis
    unfolding ParseColumn_def column_tokens_def prod.case append_Cons append_Nil
    by (rule reads_first [OF reads_Identifier], rule reads_first [OF ty], rule reads_then [OF pk])
      (use assms(1) c in \<open>auto intro!: reads_ret_eq\<close>)
qed

lemma fold_columns: "foldl (\<lambda>(cs, n) c. (cs @ [c], if cd_is_pk c then n + 1 else n)) (cs, n) ds = (cs @ ds, n + length (filter cd_is_pk ds))"
  by (induction ds arbitrary: cs n) auto

lemma reads_columns:
  assumes "columns_valid cs" and "cs \<noteq> []"
  shows "reads (do_while ParseColumn (AcceptSymbol '','') ([], 0)) (sep [sy '',''] (map column_tokens cs)) (cs, length (filter cd_is_pk cs))
     [(kSymbol, str '',''), (kKeyword, str ''PRIMARY'')]"
proof -
  let ?g = "\<lambda>(cs, n) c. (cs @ [c], if cd_is_pk c then n + 1 else n)"
  have "reads (do_while ParseColumn (AcceptSymbol '','') ([], 0)) (sep [sy '',''] (map column_tokens cs)) (foldl ?g ([], 0) cs)
     ((fst (sy '',''), fst (snd (sy '',''))) # [(kKeyword, str ''PRIMARY'')])"
  proof (rule reads_do_while [OF assms(2) _ reads_Accept(3)])
    fix ys x zs assume "cs = ys @ x # zs"
    then have "cd_name x \<notin> cd_name ` set ys" "cd_type x = kInt \<or> cd_type x = kText"
      using assms(1) by (auto simp: columns_valid_def)
    from reads_ParseColumn [OF this]
    show "reads (ParseColumn (foldl ?g ([], 0) ys)) (column_tokens x) (foldl ?g ([], 0) (ys @ [x])) [(kKeyword, str ''PRIMARY'')]"
      by (simp add: fold_columns)
  qed (simp_all add: reads_Accept(4))
  then show ?thesis by (simp add: fold_columns)
qed

lemma reads_Create:
  assumes "statement_ok (CreateTableStmt t cs)"
  shows "reads ParseCreate (kw ''TABLE'' # ident t # sy ''('' # sep [sy '',''] (map column_tokens cs) @ [sy '')'']) (CreateTableStmt t cs) more"
proof -
  have cs: "columns_valid cs" "length (filter cd_is_pk cs) = 1" "cs \<noteq> []" using assms by auto
  show ?thesis
    unfolding ParseCreate_def
    by (rule reads_first [OF reads_Expect(1)], rule reads_first [OF reads_Identifier], rule reads_first [OF reads_Expect(2)],
        rule reads_seq [OF reads_columns [OF cs(1,3)]])
      (use cs in \<open>auto intro!: reads_first [OF reads_Expect(2)] reads_ret simp: free_def\<close>)
qed

lemma reads_Predicate: "value_ok (pr_literal p) \<Longrightarrow> reads (ParsePredicate acc) (predicate_tokens p) (acc @ [p]) []"
proof -
  assume v: "value_ok (pr_literal p)"
  have op: "compare_op (str (op_text (pr_op p))) = Some (pr_op p)" by (cases "pr_op p") (simp_all add: compare_op_def)
  let ?k = "\<lambda>t. case compare_op (tk_text t) of None \<Rightarrow> parse_error (str ''expected comparison operator'')
      | Some op \<Rightarrow> pbind ExpectLiteral (\<lambda>literal. ret (acc @ [\<lparr>pr_column = pr_column p, pr_op = op, pr_literal = literal\<rparr>]))"
  have k: "reads (?k t) [lit (pr_literal p)] (acc @ [p]) []" if "tk_text t = str (op_text (pr_op p))" for t
    using that op by (auto intro!: reads_first [OF reads_Literal [OF v]] reads_ret_eq)
  have "reads (pbind Peek (\<lambda>t. if tk_type t \<noteq> kSymbol then parse_error (str ''expected comparison'') else pbind Advance_token ?k))
      [sy (op_text (pr_op p)), lit (pr_literal p)] (acc @ [p]) []"
  proof (rule readsI)
    fix q r assume a: "sees q ([sy (op_text (pr_op p)), lit (pr_literal p)] @ r)" "free [] r"
    then have b: "sees q (sy (op_text (pr_op p)) # lit (pr_literal p) # r)" by simp
    obtain t where t: "Peek q = Some (Inr (t, q))" "Advance_token q = Some (Inr (t, q\<lparr>ps_pos := ps_pos q + 1\<rparr>))"
        "tk_type t = kSymbol" "tk_text t = str (op_text (pr_op p))" using sees_Peek [OF b] by auto
    obtain p' where "?k t (q\<lparr>ps_pos := ps_pos q + 1\<rparr>) = Some (Inr (acc @ [p], p'))" "sees p' r"
      using readsD [OF k [OF t(4)], of "q\<lparr>ps_pos := ps_pos q + 1\<rparr>" r] sees_Cons(3) [OF b] a(2) by auto
    then show "\<exists>p'. pbind Peek (\<lambda>t. if tk_type t \<noteq> kSymbol then parse_error (str ''expected comparison'') else pbind Advance_token ?k) q =
        Some (Inr (acc @ [p], p')) \<and> sees p' r"
      using t by (simp add: pbind_def)
  qed
  then show ?thesis unfolding ParsePredicate_def predicate_tokens_def by (intro reads_first [OF reads_Identifier])
qed

lemma reads_Where:
  assumes "list_all (value_ok \<circ> pr_literal) w"
  shows "reads ParseWhere (where_tokens w) w more"
proof (cases "w = []")
  case True
  have "reads ParseWhere [] [] [(kKeyword, str ''WHERE'')]"
    unfolding ParseWhere_def by (rule reads_then [OF reads_Accept(2)]) (simp_all add: reads_ret)
  then show ?thesis using True by (simp add: where_tokens_def, elim reads_more) (simp add: more_def)
next
  case False
  have "reads (do_while ParsePredicate (AcceptKeyword ''AND'') []) (sep [kw ''AND''] (map predicate_tokens w)) w [(kKeyword, str ''AND'')]"
    by (rule reads_list [OF False]) (use assms reads_Predicate in \<open>auto simp: list_all_iff\<close>)
  then have "reads ParseWhere (where_tokens w) w [(kKeyword, str ''AND'')]"
    unfolding ParseWhere_def where_tokens_def using False by (auto intro!: reads_first [OF reads_Accept(1)])
  then show ?thesis by (rule reads_more) (simp add: more_def)
qed

lemma reads_names: "cs \<noteq> [] \<Longrightarrow> reads (do_while ParseName (AcceptSymbol '','') []) (name_tokens cs) cs [(kSymbol, str '','')]"
  unfolding name_tokens_def
  by (rule reads_list) (auto simp: ParseName_def reads_ret intro!: reads_first [OF reads_Identifier])

lemma reads_Row:
  assumes "row \<noteq> []" and "list_all value_ok row"
  shows "reads (ParseRow acc) (row_tokens row) (acc @ [row]) []"
proof -
  have "reads (do_while (\<lambda>row. pbind ExpectLiteral (\<lambda>v. ret (row @ [v]))) (AcceptSymbol '','') []) (sep [sy '',''] (map (\<lambda>v. [lit v]) row)) row
      [(kSymbol, str '','')]"
    by (rule reads_list [OF assms(1)]) (use assms(2) in \<open>auto simp: list_all_iff reads_ret intro!: reads_first [OF reads_Literal]\<close>)
  then show ?thesis unfolding ParseRow_def row_tokens_def append_Cons append_Nil
    by (intro reads_first [OF reads_Expect(2)] reads_seq reads_ret) (auto intro!: reads_first [OF reads_Expect(2)] simp: reads_ret free_def)
qed

lemma reads_Insert:
  assumes "statement_ok (InsertStmt t cs rows)"
  shows "reads ParseInsert (kw ''INTO'' # ident t # (if cs = [] then [] else [sy ''(''] @ name_tokens cs @ [sy '')'']) @
     kw ''VALUES'' # sep [sy '',''] (map row_tokens rows)) (InsertStmt t cs rows) more"
proof -
  let ?c = "if cs = [] then [] else [sy ''(''] @ name_tokens cs @ [sy '')'']"
  have c: "reads (pbind (AcceptSymbol ''('') (\<lambda>listed.
        if listed then pbind (do_while ParseName (AcceptSymbol '','') []) (\<lambda>cs. pbind (ExpectSymbol '')'') (\<lambda>_. ret cs))
        else ret [])) ?c cs [(kSymbol, str ''('')]"
  proof (cases "cs = []")
    case True
    then show ?thesis by (simp add: reads_then [OF reads_Accept(4)] reads_ret)
  next
    case False
    have "reads (pbind (do_while ParseName (AcceptSymbol '','') []) (\<lambda>cs. pbind (ExpectSymbol '')'') (\<lambda>_. ret cs))) (name_tokens cs @ [sy '')'']) cs [(kSymbol, str ''('')]"
      by (rule reads_seq [OF reads_names [OF False]]) (auto intro!: reads_first [OF reads_Expect(2)] simp: reads_ret free_def)
    then show ?thesis using False by (auto intro!: reads_first [OF reads_Accept(3)])
  qed
  have r: "reads (do_while ParseRow (AcceptSymbol '','') []) (sep [sy '',''] (map row_tokens rows)) rows [(kSymbol, str '','')]"
    by (rule reads_list) (use assms in \<open>auto intro!: reads_Row\<close>)
  show ?thesis
    unfolding ParseInsert_def
    by (rule reads_first [OF reads_Expect(1)], rule reads_first [OF reads_Identifier], rule reads_seq [OF c], rule reads_first [OF reads_Expect(1)],
        rule reads_more_bind [OF reads_more [OF r]])
      (auto simp: reads_ret more_def free_def)
qed

lemma reads_Select:
  assumes "statement_ok (SelectStmt t cs w)"
  shows "reads ParseSelect ((if cs = [] then [sy ''*''] else name_tokens cs) @ kw ''FROM'' # ident t # where_tokens w) (SelectStmt t cs w) more"
proof -
  have start: "name_tokens cs \<noteq> [] \<and> free [(kSymbol, str ''*'')] (name_tokens cs)" if "cs \<noteq> []"
    using that unfolding name_tokens_def by (induction cs rule: list_nonempty_induct) (auto simp: free_def neq_Nil_conv)
  have c: "reads (pbind (AcceptSymbol ''*'') (\<lambda>star. if star then ret [] else do_while ParseName (AcceptSymbol '','') []))
      (if cs = [] then [sy ''*''] else name_tokens cs) cs [(kSymbol, str '','')]"
    using start reads_names
    by (auto intro!: reads_first [OF reads_Accept(3)] reads_skip [OF reads_Accept(4)] simp: reads_ret)
  have "list_all (value_ok \<circ> pr_literal) w" using assms by simp
  note w = reads_Where [OF this]
  show ?thesis
    unfolding ParseSelect_def
    by (rule reads_seq [OF c], rule reads_first [OF reads_Expect(1)], rule reads_first [OF reads_Identifier], rule reads_more_bind [OF w])
      (auto simp: reads_ret free_def)
qed

lemma reads_Update:
  assumes "statement_ok (UpdateStmt t sets w)"
  shows "reads ParseUpdate (ident t # kw ''SET'' # sep [sy '',''] (map set_tokens sets) @ where_tokens w) (UpdateStmt t sets w) more"
proof -
  have "reads (ParseSet acc) (set_tokens x) (acc @ [x]) []" if "x \<in> set sets" for acc x
    unfolding ParseSet_def set_tokens_def using assms that
    by (intro reads_first [OF reads_Identifier] reads_first [OF reads_Expect(2)] reads_first [OF reads_Literal])
      (auto simp: reads_ret list_all_iff)
  then have s: "reads (do_while ParseSet (AcceptSymbol '','') []) (sep [sy '',''] (map set_tokens sets)) sets [(kSymbol, str '','')]"
    using assms by (intro reads_list) auto
  have "list_all (value_ok \<circ> pr_literal) w" using assms by simp
  note w = reads_Where [OF this]
  have f: "free [(kSymbol, str '','')] (where_tokens w @ r)" if "free more r" for r
    using that by (auto simp: where_tokens_def free_def more_def)
  show ?thesis
    unfolding ParseUpdate_def
    by (rule reads_first [OF reads_Identifier], rule reads_first [OF reads_Expect(1)], rule reads_bind [OF s], rule reads_more_bind [OF w])
      (auto simp: reads_ret f)
qed

lemma reads_Delete:
  assumes "statement_ok (DeleteStmt t w)"
  shows "reads ParseDelete (kw ''FROM'' # ident t # where_tokens w) (DeleteStmt t w) more"
proof -
  have "list_all (value_ok \<circ> pr_literal) w" using assms by simp
  note w = reads_Where [OF this]
  show ?thesis
    unfolding ParseDelete_def
    by (rule reads_first [OF reads_Expect(1)], rule reads_first [OF reads_Identifier], rule reads_more_bind [OF w]) (simp add: reads_ret)
qed

lemma reads_Drop: "reads ParseDrop [kw ''TABLE'', ident t] (DropTableStmt t) more"
  unfolding ParseDrop_def by (rule reads_first [OF reads_Expect(1)], rule reads_first [OF reads_Identifier], rule reads_ret)

lemma reads_dispatch:
  "reads m ts x ks \<Longrightarrow> reads (pbind (AcceptKeyword k) (\<lambda>c. if c then m else n)) (kw k # ts) x ks"
  "j \<noteq> k \<Longrightarrow> reads n (kw j # ts) x ks \<Longrightarrow> reads (pbind (AcceptKeyword k) (\<lambda>c. if c then m else n)) (kw j # ts) x ks"
  by (auto intro!: reads_first [OF reads_Accept(1)] reads_skip [OF reads_Accept(2)] simp: free_def)

lemma reads_Statement:
  assumes "statement_ok s"
  shows "reads ParseStatement (statement_tokens s) s more"
  using assms unfolding ParseStatement_def
  by (cases s)
    (simp_all del: statement_ok.simps add: reads_dispatch reads_Create reads_Drop reads_Insert reads_Select reads_Update reads_Delete)

subsection \<open>The text of the tokens\<close>

lemma sep_all: "list_all P s \<Longrightarrow> list_all (list_all P) xs \<Longrightarrow> list_all P (sep s xs)"
  by (induction s xs rule: sep.induct) auto

lemma token_ok_lit: "value_ok v \<Longrightarrow> token_ok (lit v)"
  by (auto simp: value_ok_def lit_def Value_Int_def Value_Text_def kInt_def kText_def in_int64_def)

lemma token_ok_keywords:
  "list_all (\<lambda>k. token_ok (kw k)) [''CREATE'', ''TABLE'', ''INT'', ''TEXT'', ''PRIMARY'', ''KEY'', ''INSERT'', ''INTO'', ''VALUES'', ''SELECT'', ''FROM'',
      ''WHERE'', ''AND'', ''UPDATE'', ''SET'', ''DELETE'', ''DROP'']"
  "list_all (\<lambda>k. token_ok (sy k)) [''('', '')'', '','', '';'', ''*'', ''='', ''!='', ''<'', ''<='', ''>'', ''>='']"
  by (simp_all add: Keywords_def symbols_def)

lemma token_ok_op: "token_ok (sy (op_text c))"
  using token_ok_keywords(2) by (cases c) simp_all

lemmas token_ok_words = token_ok_keywords [unfolded list.pred_inject]

lemma where_tokens_ok:
  assumes "list_all (value_ok \<circ> pr_literal) w" and "\<forall>n\<in>pr_column ` set w. plain_word n"
  shows "list_all token_ok (where_tokens w)"
proof -
  have "list_all token_ok (sep [kw ''AND''] (map predicate_tokens w))"
    by (rule sep_all) (use assms token_ok_words token_ok_op token_ok_lit in \<open>auto simp: predicate_tokens_def list_all_iff\<close>)
  then show ?thesis using token_ok_words by (simp add: where_tokens_def)
qed

lemma name_tokens_ok: "\<forall>n\<in>set cs. plain_word n \<Longrightarrow> list_all token_ok (name_tokens cs)"
  unfolding name_tokens_def by (rule sep_all) (use token_ok_words in \<open>auto simp: list_all_iff\<close>)

lemma statement_tokens_ok:
  assumes "statement_ok s" and "\<forall>n\<in>statement_names s. plain_word n"
  shows "list_all token_ok (statement_tokens s)"
proof (cases s)
  case (CreateTableStmt t cs)
  have "list_all token_ok (sep [sy '',''] (map column_tokens cs))"
    by (rule sep_all) (use assms token_ok_words in \<open>auto simp: CreateTableStmt list_all_iff column_tokens_def\<close>)
  then show ?thesis using assms token_ok_words by (simp add: CreateTableStmt)
next
  case (InsertStmt t cs rows)
  have "list_all token_ok (sep [sy '',''] (map (\<lambda>v. [lit v]) row))" if "row \<in> set rows" for row
    by (rule sep_all) (use assms token_ok_words token_ok_lit that in \<open>auto simp: InsertStmt list_all_iff\<close>)
  then have "list_all token_ok (row_tokens row)" if "row \<in> set rows" for row
    using that token_ok_words by (simp add: row_tokens_def)
  then have "list_all token_ok (sep [sy '',''] (map row_tokens rows))"
    by (intro sep_all) (use token_ok_words in \<open>auto simp: list_all_iff\<close>)
  then show ?thesis using assms token_ok_words name_tokens_ok [of cs] by (simp add: InsertStmt)
next
  case (SelectStmt t cs w)
  then show ?thesis using assms token_ok_words name_tokens_ok [of cs] where_tokens_ok [of w] by simp
next
  case (UpdateStmt t sets w)
  have "list_all token_ok (sep [sy '',''] (map set_tokens sets))"
    by (rule sep_all) (use assms token_ok_words token_ok_lit in \<open>auto simp: UpdateStmt list_all_iff set_tokens_def\<close>)
  then show ?thesis using assms token_ok_words where_tokens_ok [of w] by (simp add: UpdateStmt)
qed (use assms token_ok_words where_tokens_ok in simp_all)

lemma Parse_text:
  assumes "statement_ok s" and "\<forall>n\<in>statement_names s. plain_word n"
  shows "Parse (statement_text s) = Some (Inr s)"
proof -
  obtain ts e where ts: "Lex (statement_text s) = Inr (ts @ [e])" "tk_type e = kEnd" "map token_data ts = statement_tokens s"
    using Lex_spaced [OF statement_tokens_ok [OF assms]] by (auto simp: statement_text_def)
  let ?p = "\<lparr>ps_tokens = ts @ [e], ps_pos = 0\<rparr>"
  have "sees ?p (statement_tokens s @ [token_data e])" using ts(3) by (simp add: sees_def)
  moreover have "free more [token_data e]" using ts(2) by (simp add: free_def more_def token_data_def)
  ultimately obtain q where q: "ParseStatement ?p = Some (Inr (s, q))" "sees q [token_data e]"
    using readsD [OF reads_Statement [OF assms(1)]] by blast
  have f: "free [(kSymbol, str '';'')] [token_data e]" using ts(2) by (simp add: free_def token_data_def)
  have "sees q ([] @ [token_data e])" using q(2) by simp
  from readsD [OF reads_Accept(4) this f]
  obtain q' where q': "AcceptSymbol '';'' q = Some (Inr (False, q'))" "sees q' [token_data e]" by blast
  obtain t where "Peek q' = Some (Inr (t, q'))" "tk_type t = kEnd" using sees_Peek [OF q'(2)] ts(2) by (auto simp: token_data_def)
  then have "Parser_Finish q = Some (Inr ((), q'))" using q'(1) by (simp add: Parser_Finish_def pbind_def ret_def)
  then show ?thesis using q(1) ts(1) by (simp add: Parse_def pbind_def ret_def)
qed

subsection \<open>Properties\<close>

text \<open>
  (C28) The parser always returns and never reads outside the tokens of the statement, and a
  statement that it accepts is well formed: a new table has distinct column names, column types
  that exist and exactly one primary key; a row to insert is not empty; integer literals are in
  the range of 64 bits.
\<close>
theorem parse_total: "\<exists>r. Parse input = Some r \<and> (\<forall>stmt. r = Inr stmt \<longrightarrow> statement_ok stmt)"
  by (rule Parse_valid)

theorem parse_total_witness:
  "\<exists>stmt. Parse (statement_text (DropTableStmt (str ''users''))) = Some (Inr stmt) \<and> statement_ok stmt"
proof -
  have "Parse (statement_text (DropTableStmt (str ''users''))) = Some (Inr (DropTableStmt (str ''users'')))"
    by (rule Parse_text) (simp_all add: plain_word_def str_def word_start_def word_char_def is_alpha_def Keywords_def to_upper_def)
  then show ?thesis using parse_total [of "statement_text (DropTableStmt (str ''users''))"] by simp
qed

text \<open>
  (C27) Printing and parsing: for every well-formed statement whose names are words and no
  keywords, the parser reads the text of the statement back as this statement, also when the text
  contains quotes within literals or negative numbers.
\<close>
theorem parse_print:
  assumes "statement_ok s" and "\<forall>n\<in>statement_names s. plain_word n"
  shows "Parse (statement_text s) = Some (Inr s)"
  using assms by (rule Parse_text)

theorem parse_print_witness:
  "Parse (statement_text (DeleteStmt (str ''users'')
      [\<lparr>pr_column = str ''name'', pr_op = kEq, pr_literal = Value_Text [79, 39, 66]\<rparr>])) =
   Some (Inr (DeleteStmt (str ''users'') [\<lparr>pr_column = str ''name'', pr_op = kEq, pr_literal = Value_Text [79, 39, 66]\<rparr>]))"
  by (rule parse_print)
    (auto simp: value_ok_def plain_word_def str_def word_start_def word_char_def is_alpha_def Keywords_def to_upper_def)

end
