(* ===== verification/SqlCatalog.thy ===== *)
theory SqlCatalog
  imports SqlParser TxnCodec
begin

text \<open>
  The catalog and the row format of the SQL layer, \<open>src/sql/catalog.h\<close> and \<open>catalog.cc\<close>.  Indices
  that the code gives as an \<open>int\<close> with -1 for none are optional numbers.

  Schemas and rows decode to themselves; row keys of a table are in the order of the primary key,
  the signed order of integers included, and the keys of a table are exactly those between its
  prefix and the end of its scans.
\<close>

subsection \<open>Values\<close>

definition Compare :: "Value \<Rightarrow> Value \<Rightarrow> int" where
  "Compare v w =
     (if v_type v = kInt then (if v_i v < v_i w then - 1 else if v_i v > v_i w then 1 else 0)
      else (if v_s v < v_s w then - 1 else if v_s v > v_s w then 1 else 0))"

definition Value_ToString :: "Value \<Rightarrow> bytes" where
  "Value_ToString v = (if v_type v = kInt then int_text (v_i v) else v_s v)"

subsection \<open>Schemas\<close>

record TableSchema =
  sc_table_id :: u32
  sc_name :: bytes
  sc_columns :: "ColumnDef list"

fun find_index :: "('a \<Rightarrow> bool) \<Rightarrow> 'a list \<Rightarrow> nat option" where
  "find_index P [] = None"
| "find_index P (x # xs) = (if P x then Some 0 else map_option Suc (find_index P xs))"

definition PkIndex :: "TableSchema \<Rightarrow> nat option" where
  "PkIndex schema = find_index cd_is_pk (sc_columns schema)"

definition ColumnIndex :: "TableSchema \<Rightarrow> bytes \<Rightarrow> nat option" where
  "ColumnIndex schema name = find_index (\<lambda>c. cd_name c = name) (sc_columns schema)"

definition CatalogKey :: "bytes \<Rightarrow> bytes" where
  "CatalogKey table_name = str ''__cat/'' @ table_name"

definition kNextTableIdKey :: bytes where
  "kNextTableIdKey = str ''__cat_next_id''"

definition put_column :: "ColumnDef \<Rightarrow> bytes" where
  "put_column col = PutLengthPrefixed (cd_name col) @ PutFixed8 (cd_type col) @ PutFixed8 (if cd_is_pk col then 1 else 0)"

definition get_column :: "decoder \<Rightarrow> ColumnDef \<times> decoder" where
  "get_column d =
     (let (name, d) = Str d; (type, d) = U8 d; (is_pk, d) = U8 d
      in (\<lparr>cd_name = name, cd_type = type, cd_is_pk = (is_pk \<noteq> 0)\<rparr>, d))"

definition EncodeSchema :: "TableSchema \<Rightarrow> bytes" where
  "EncodeSchema schema =
     PutFixed32 (sc_table_id schema) @ PutFixed32 (of_nat (length (sc_columns schema))) @
     concat (map put_column (sc_columns schema))"

definition DecodeSchema :: "bytes \<Rightarrow> bytes \<Rightarrow> TableSchema option" where
  "DecodeSchema name data =
     (let (table_id, d) = U32 (Decoder data); (ncols, d) = U32 d; (columns, d) = decode_n get_column (unat ncols) d;
          out = \<lparr>sc_table_id = table_id, sc_name = name, sc_columns = columns\<rparr>
      in if dec_ok d \<and> remaining d = 0 \<and> PkIndex out \<noteq> None then Some out else None)"

subsection \<open>Row keys\<close>

definition TablePrefix :: "u32 \<Rightarrow> bytes" where
  "TablePrefix table_id = str ''t'' @ map (\<lambda>i. ucast (drop_bit (8 * i) table_id)) (rev [0..<4]) @ str ''r''"

definition sign_bit :: u64 where
  "sign_bit = push_bit 63 1"

definition EncodePkValue :: "Value \<Rightarrow> bytes" where
  "EncodePkValue pk =
     (if v_type pk = kInt
      then (let bits = (of_int (v_i pk) :: u64) XOR sign_bit
            in map (\<lambda>i. ucast (drop_bit (8 * i) bits)) (rev [0..<8]))
      else v_s pk)"

definition RowKey :: "u32 \<Rightarrow> Value \<Rightarrow> bytes" where
  "RowKey table_id pk = TablePrefix table_id @ EncodePkValue pk"

subsection \<open>Rows\<close>

definition put_value :: "Value \<Rightarrow> bytes" where
  "put_value v = PutFixed8 (v_type v) @
     PutLengthPrefixed (if v_type v = kInt then PutFixed64 (of_int (v_i v)) else v_s v)"

definition EncodeRow :: "Value list \<Rightarrow> bytes" where
  "EncodeRow values = PutFixed32 (of_nat (length values)) @ concat (map put_value values)"

text \<open>One value of a row; nothing is an integer of a wrong size.\<close>

definition get_value :: "decoder \<Rightarrow> Value option \<times> decoder" where
  "get_value d =
     (let (type, d) = U8 d; (bytes, d) = Str d
      in if type = kInt
         then (if length bytes \<noteq> 8 then None
               else Some (Value_default\<lparr>v_type := type, v_i := sint (DecodeFixed64 bytes)\<rparr>), d)
         else (Some (Value_default\<lparr>v_type := type, v_s := bytes\<rparr>), d))"

fun decode_values :: "nat \<Rightarrow> decoder \<Rightarrow> (Value list \<times> decoder) option" where
  "decode_values 0 d = Some ([], d)"
| "decode_values (Suc n) d =
     (if dec_ok d
      then (case get_value d of
              (None, _) \<Rightarrow> None
            | (Some v, d) \<Rightarrow> map_option (\<lambda>(vs, d). (v # vs, d)) (decode_values n d))
      else Some ([], d))"

definition DecodeRow :: "bytes \<Rightarrow> TableSchema \<Rightarrow> Value list option" where
  "DecodeRow data schema =
     (let (count, d) = U32 (Decoder data)
      in if unat count \<noteq> length (sc_columns schema) then None
         else case decode_values (unat count) d of
                None \<Rightarrow> None
              | Some (vs, d) \<Rightarrow> if dec_ok d \<and> remaining d = 0 then Some vs else None)"

subsection \<open>Indices\<close>

lemma find_index_Some: "find_index P xs = Some i \<Longrightarrow> i < length xs \<and> P (xs ! i) \<and> (\<forall>j<i. \<not> P (xs ! j))"
  by (induction xs arbitrary: i) (auto simp: less_Suc_eq_0_disj split: if_splits)

lemma find_index_None: "find_index P xs = None \<longleftrightarrow> (\<forall>x\<in>set xs. \<not> P x)"
  by (induction xs) auto

lemma find_index_unique: "i < length xs \<Longrightarrow> P (xs ! i) \<Longrightarrow> \<forall>j<length xs. P (xs ! j) \<longrightarrow> j = i \<Longrightarrow> find_index P xs = Some i"
proof -
  assume a: "i < length xs" "P (xs ! i)" "\<forall>j<length xs. P (xs ! j) \<longrightarrow> j = i"
  have "xs ! i \<in> set xs" using a(1) by (rule nth_mem)
  then have "find_index P xs \<noteq> None" using a(2) unfolding find_index_None by blast
  then obtain j where j: "find_index P xs = Some j" by blast
  then have "j < length xs" "P (xs ! j)" using find_index_Some [OF j] by simp_all
  then show ?thesis using a(3) j by simp
qed

subsection \<open>Round trips\<close>

lemma get_column_at: "size32 (cd_name c) \<Longrightarrow> get_column (dec_at pre (put_column c @ rest)) = (c, dec_at (pre @ put_column c) rest)"
  by (simp add: get_column_def put_column_def codec)

interpretation column_item: wire_item put_column get_column "\<lambda>c. size32 (cd_name c)"
  by unfold_locales (rule get_column_at)

definition schema_fits :: "TableSchema \<Rightarrow> bool" where
  "schema_fits s \<longleftrightarrow> length (sc_columns s) < 2 ^ 32 \<and> (\<forall>c\<in>set (sc_columns s). size32 (cd_name c)) \<and> PkIndex s \<noteq> None"

lemma DecodeSchema_Encode: "schema_fits s \<Longrightarrow> DecodeSchema (sc_name s) (EncodeSchema s) = Some s"
  using column_item.decode_items [of "sc_columns s" _ "[]"]
  by (auto simp: schema_fits_def DecodeSchema_def EncodeSchema_def PkIndex_def codec unat_of_nat_u32 list_all_iff Let_def)

lemma sint_of_int64: "in_int64 n \<Longrightarrow> sint (of_int n :: u64) = n"
  by (simp add: in_int64_def int_word_sint)

lemma get_value_at:
  assumes "value_ok v" and "size32 (v_s v)"
  shows "get_value (dec_at pre (put_value v @ rest)) = (Some v, dec_at (pre @ put_value v) rest)"
proof -
  consider n where "v = Value_Int n" "in_int64 n" | s where "v = Value_Text s" using assms(1) unfolding value_ok_def by blast
  then show ?thesis
  proof cases
    case 1
    have "DecodeFixed64 (PutFixed64 (of_int n)) = of_int n" using DecodeFixed64_Put [of "of_int n" "[]"] by simp
    then have "sint (DecodeFixed64 (PutFixed64 (of_int n))) = n" using sint_of_int64 [OF 1(2)] by simp
    then show ?thesis
      by (simp add: 1(1) get_value_def put_value_def codec Value_Int_def Value_default_def)
  next
    case 2
    then show ?thesis using assms(2)
      by (simp add: get_value_def put_value_def codec Value_Text_def Value_default_def kInt_def kText_def)
  qed
qed

lemma decode_values_at:
  "list_all (\<lambda>v. value_ok v \<and> size32 (v_s v)) vs \<Longrightarrow>
   decode_values (length vs) (dec_at pre (concat (map put_value vs) @ rest)) = Some (vs, dec_at (pre @ concat (map put_value vs)) rest)"
  by (induction vs arbitrary: pre) (simp_all add: get_value_at codec)

lemma DecodeRow_Encode:
  assumes "list_all (\<lambda>v. value_ok v \<and> size32 (v_s v)) vs" and "length vs = length (sc_columns schema)" and "length vs < 2 ^ 32"
  shows "DecodeRow (EncodeRow vs) schema = Some vs"
  using decode_values_at [OF assms(1), of _ "[]"] assms(2,3)
  by (simp add: DecodeRow_def EncodeRow_def codec unat_of_nat_u32)

subsection \<open>Keys of a table\<close>

lemma EncodePkValue_Int: "EncodePkValue (Value_Int n) = be_bytes 8 ((of_int n :: u64) XOR sign_bit)"
  by (simp only: EncodePkValue_def Value_Int_def be_bytes_def le_bytes_def rev_map Let_def Value.select_convs simp_thms if_True)

lemma bit_sign_bit: "bit sign_bit n \<longleftrightarrow> n = 63"
  by (auto simp: sign_bit_def bit_push_bit_iff simp del: push_bit_of_1 push_bit_numeral)

lemma flip_top: "x XOR sign_bit = x + sign_bit" for x :: u64
proof (cases "bit x 63")
  case False
  have "x AND sign_bit = 0" by (rule bit_word_eqI) (use False in \<open>auto simp: bit_simps bit_sign_bit\<close>)
  then show ?thesis by (simp only: disjunctive_add_eq_xor)
next
  case True
  have "(x XOR sign_bit) AND sign_bit = 0" by (rule bit_word_eqI) (use True in \<open>auto simp: bit_simps bit_sign_bit\<close>)
  then have "(x XOR sign_bit) + sign_bit = (x XOR sign_bit) XOR sign_bit"
    by (rule disjunctive_add_eq_xor)
  also have "\<dots> = x" by (rule bit_word_eqI) (auto simp: bit_simps bit_sign_bit)
  finally have "x XOR sign_bit = x - sign_bit" by (simp only: eq_diff_eq)
  moreover have "sign_bit + sign_bit = 0" by (simp add: sign_bit_def)
  ultimately show ?thesis by (simp add: diff_eq_eq)
qed

lemma unat_flip_top: "in_int64 n \<Longrightarrow> unat ((of_int n :: u64) XOR sign_bit) = nat (n + 2 ^ 63)"
proof -
  assume n: "in_int64 n"
  have "(of_int n :: u64) + sign_bit = of_int (n + 2 ^ 63)" by (simp add: sign_bit_def)
  moreover have "uint (of_int (n + 2 ^ 63) :: u64) = n + 2 ^ 63" using n by (simp add: in_int64_def uint_word_of_int del: of_int_add)
  ultimately show ?thesis unfolding flip_top by (simp add: unat_eq_nat_uint)
qed

text \<open>The keys of a table with an integer primary key are in the order of the integers.\<close>

lemma EncodePkValue_less:
  assumes "in_int64 m" and "in_int64 n"
  shows "EncodePkValue (Value_Int m) < EncodePkValue (Value_Int n) \<longleftrightarrow> m < n"
proof -
  have m: "unat x mod 2 ^ (8 * 8) = unat x" for x :: u64 using unat_u64 [of x] by simp
  have "EncodePkValue (Value_Int m) < EncodePkValue (Value_Int n) \<longleftrightarrow> nat (m + 2 ^ 63) < nat (n + 2 ^ 63)"
    unfolding EncodePkValue_Int be_bytes_less m unfolding unat_flip_top [OF assms(1)] unat_flip_top [OF assms(2)] ..
  also have "\<dots> \<longleftrightarrow> m < n" using assms by (auto simp: in_int64_def)
  finally show ?thesis .
qed

lemma TablePrefix_length [simp]: "length (TablePrefix i) = 6"
  by (simp add: TablePrefix_def)

lemma TablePrefix_eq [simp]: "TablePrefix i = TablePrefix j \<longleftrightarrow> i = j"
proof
  assume "TablePrefix i = TablePrefix j"
  then have "rev (le_bytes 4 i) = rev (le_bytes 4 j)" by (simp add: TablePrefix_def le_bytes_def rev_map)
  then have "le_value (le_bytes 4 i) = (le_value (le_bytes 4 j) :: u32)" by simp
  then show "i = j" by (simp add: le_value_le_bytes take_bit_word_eq_self)
qed simp

lemma TablePrefix_inject [simp]: "TablePrefix i @ a = TablePrefix j @ b \<longleftrightarrow> i = j \<and> a = b"
  by simp

text \<open>The end of the scan over a table: its prefix with the last byte increased.\<close>

definition scan_end :: "bytes \<Rightarrow> bytes" where
  "scan_end prefix = butlast prefix @ [last prefix + 1]"

lemma between_last: "c \<noteq> - 1 \<Longrightarrow> q @ [c] \<le> k \<and> k < q @ [c + 1] \<longleftrightarrow> (\<exists>s. k = q @ c # s)" for c :: byte
proof (induction q arbitrary: k)
  case Nil
  have lt: "c < c + 1" using less_plus_1 [OF Nil] .
  show ?case
  proof (cases k)
    case (Cons d s)
    have "c \<le> d \<and> d < c + 1 \<longleftrightarrow> d = c" using lt unat_plus_1 [OF Nil] by (auto simp: word_le_nat_alt word_less_nat_alt word_unat_eq_iff)
    then show ?thesis using Cons lt by (auto simp: Cons)
  qed simp
next
  case (Cons a q)
  then show ?case by (cases k) auto
qed

lemma table_range: "TablePrefix i \<le> k \<and> k < scan_end (TablePrefix i) \<longleftrightarrow> (\<exists>s. k = TablePrefix i @ s)"
  using between_last [of 114 "str ''t'' @ map (\<lambda>j. ucast (drop_bit (8 * j) i)) (rev [0..<4])" k]
  by (simp add: scan_end_def TablePrefix_def butlast_append str_def)

end
