(* ===== verification/SqlExec.thy ===== *)
theory SqlExec
  imports SqlCatalog
begin

text \<open>
  The executor of SQL statements, \<open>src/sql/executor.cc\<close>, over the operations of a transaction.
  The results of a statement are collected in a \<open>ResultSet\<close>; a statement that fails leaves what it
  has collected and buffered behind, and the caller rolls the transaction back.
\<close>

subsection \<open>The operations of a transaction\<close>

record 't txn_ops =
  tx_Begin :: "'t \<Rightarrow> status \<times> 't"
  tx_Get :: "bytes \<Rightarrow> 't \<Rightarrow> (status, bytes) sum \<times> 't"
  tx_Scan :: "bytes \<Rightarrow> bytes \<Rightarrow> u32 \<Rightarrow> 't \<Rightarrow> (status, (bytes \<times> bytes) list) sum \<times> 't"
  tx_Put :: "bytes \<Rightarrow> bytes \<Rightarrow> 't \<Rightarrow> 't"
  tx_Delete :: "bytes \<Rightarrow> 't \<Rightarrow> 't"
  tx_Commit :: "'t \<Rightarrow> status \<times> 't"
  tx_Rollback :: "'t \<Rightarrow> status \<times> 't"

record ResultSet =
  rs_columns :: "bytes list"
  rs_rows :: "bytes list list"
  rs_affected :: nat
  rs_text :: bytes

definition empty_result :: ResultSet where
  "empty_result = \<lparr>rs_columns = [], rs_rows = [], rs_affected = 0, rs_text = []\<rparr>"

subsection \<open>Conditions\<close>

definition Matches :: "Predicate \<Rightarrow> Value \<Rightarrow> bool" where
  "Matches pred v =
     (if v_type v \<noteq> v_type (pr_literal pred) then False
      else let cmp = Compare v (pr_literal pred)
           in case pr_op pred of
                kEq \<Rightarrow> cmp = 0 | kNe \<Rightarrow> cmp \<noteq> 0 | kLt \<Rightarrow> cmp < 0 | kLe \<Rightarrow> cmp \<le> 0 | kGt \<Rightarrow> cmp > 0 | kGe \<Rightarrow> cmp \<ge> 0)"

fun CheckWhere :: "TableSchema \<Rightarrow> Predicate list \<Rightarrow> status" where
  "CheckWhere schema [] = OK"
| "CheckWhere schema (pred # preds) =
     (case ColumnIndex schema (pr_column pred) of
        None \<Rightarrow> InvalidArgument (str ''unknown column '' @ pr_column pred)
      | Some idx \<Rightarrow>
          if cd_type (sc_columns schema ! idx) \<noteq> v_type (pr_literal pred)
          then InvalidArgument (str ''type mismatch on '' @ pr_column pred)
          else CheckWhere schema preds)"

fun RowMatches :: "TableSchema \<Rightarrow> Predicate list \<Rightarrow> Value list \<Rightarrow> bool" where
  "RowMatches schema [] row = True"
| "RowMatches schema (pred # preds) row =
     (case ColumnIndex schema (pr_column pred) of
        None \<Rightarrow> False
      | Some idx \<Rightarrow> if \<not> Matches pred (row ! idx) then False else RowMatches schema preds row)"

fun PointLookup :: "TableSchema \<Rightarrow> Predicate list \<Rightarrow> Value option" where
  "PointLookup schema [] = None"
| "PointLookup schema (pred # preds) =
     (if pr_op pred = kEq \<and> ColumnIndex schema (pr_column pred) = PkIndex schema then Some (pr_literal pred)
      else PointLookup schema preds)"

subsection \<open>Fetching\<close>

definition LoadSchema :: "'t txn_ops \<Rightarrow> bytes \<Rightarrow> 't \<Rightarrow> (status, TableSchema) sum \<times> 't" where
  "LoadSchema ops table t =
     (case tx_Get ops (CatalogKey table) t of
        (Inl s, t) \<Rightarrow> (Inl (if IsNotFound s then InvalidArgument (str ''unknown table '' @ table) else s), t)
      | (Inr raw, t) \<Rightarrow>
          (case DecodeSchema table raw of
             None \<Rightarrow> Inl (Corruption (str ''bad schema for '' @ table))
           | Some schema \<Rightarrow> Inr schema, t))"

fun decode_rows ::
  "TableSchema \<Rightarrow> Predicate list \<Rightarrow> (bytes \<times> bytes) list \<Rightarrow> (status, (bytes \<times> Value list) list) sum" where
  "decode_rows schema preds [] = Inr []"
| "decode_rows schema preds ((key, raw) # rest) =
     (case DecodeRow raw schema of
        None \<Rightarrow> Inl (Corruption (str ''bad row''))
      | Some row \<Rightarrow>
          map_sum id (\<lambda>rows. if RowMatches schema preds row then (key, row) # rows else rows) (decode_rows schema preds rest))"

definition FetchRows ::
  "'t txn_ops \<Rightarrow> TableSchema \<Rightarrow> Predicate list \<Rightarrow> 't \<Rightarrow> (status, (bytes \<times> Value list) list) sum \<times> 't" where
  "FetchRows ops schema preds t =
     (let s = CheckWhere schema preds
      in if \<not> is_ok s then (Inl s, t)
         else case PointLookup schema preds of
           Some pk \<Rightarrow>
             (let key = RowKey (sc_table_id schema) pk
              in case tx_Get ops key t of
                   (Inl s, t) \<Rightarrow> (if IsNotFound s then Inr [] else Inl s, t)
                 | (Inr raw, t) \<Rightarrow>
                     (case DecodeRow raw schema of
                        None \<Rightarrow> Inl (Corruption (str ''bad row''))
                      | Some row \<Rightarrow> Inr (if RowMatches schema preds row then [(key, row)] else []), t))
         | None \<Rightarrow>
             (let prefix = TablePrefix (sc_table_id schema)
              in case tx_Scan ops prefix (scan_end prefix) (push_bit 20 1) t of
                   (Inl s, t) \<Rightarrow> (Inl s, t)
                 | (Inr raw_rows, t) \<Rightarrow> (decode_rows schema preds raw_rows, t)))"

subsection \<open>Statements\<close>

definition next_table_id :: "(status, bytes) sum \<Rightarrow> (status, u32) sum" where
  "next_table_id r =
     (case r of
        Inl s \<Rightarrow> if IsNotFound s then Inr 1 else Inl s
      | Inr raw \<Rightarrow> Inr (if length raw = 4 then DecodeFixed32 raw else 1))"

definition Execute_Create :: "'t txn_ops \<Rightarrow> bytes \<Rightarrow> ColumnDef list \<Rightarrow> ResultSet \<Rightarrow> 't \<Rightarrow> status \<times> ResultSet \<times> 't" where
  "Execute_Create ops table columns out t =
     (case tx_Get ops (CatalogKey table) t of
        (Inr _, t) \<Rightarrow> (InvalidArgument (str ''table '' @ table @ str '' exists''), out, t)
      | (Inl s, t) \<Rightarrow>
          if \<not> IsNotFound s then (s, out, t)
          else case tx_Get ops kNextTableIdKey t of (r, t) \<Rightarrow>
            (case next_table_id r of
               Inl s \<Rightarrow> (s, out, t)
             | Inr table_id \<Rightarrow>
                 (let t = tx_Put ops kNextTableIdKey (PutFixed32 (table_id + 1)) t;
                      schema = \<lparr>sc_table_id = table_id, sc_name = table, sc_columns = columns\<rparr>;
                      t = tx_Put ops (CatalogKey table) (EncodeSchema schema) t
                  in (OK, out\<lparr>rs_text := str ''table '' @ table @ str '' created''\<rparr>, t))))"

definition Execute_Drop :: "'t txn_ops \<Rightarrow> bytes \<Rightarrow> ResultSet \<Rightarrow> 't \<Rightarrow> status \<times> ResultSet \<times> 't" where
  "Execute_Drop ops table out t =
     (case LoadSchema ops table t of
        (Inl s, t) \<Rightarrow> (s, out, t)
      | (Inr schema, t) \<Rightarrow>
          (case FetchRows ops schema [] t of
             (Inl s, t) \<Rightarrow> (s, out, t)
           | (Inr rows, t) \<Rightarrow>
               (let t = foldl (\<lambda>t (key, row). tx_Delete ops key t) t rows;
                    t = tx_Delete ops (CatalogKey table) t
                in (OK, out\<lparr>rs_affected := length rows, rs_text := str ''table '' @ table @ str '' dropped''\<rparr>, t))))"

text \<open>The position in the row of every value that an \<open>INSERT\<close> lists.\<close>

fun map_columns :: "TableSchema \<Rightarrow> bytes list \<Rightarrow> (status, nat list) sum" where
  "map_columns schema [] = Inr []"
| "map_columns schema (name # names) =
     (case ColumnIndex schema name of
        None \<Rightarrow> Inl (InvalidArgument (str ''unknown column '' @ name))
      | Some idx \<Rightarrow> map_sum id ((#) idx) (map_columns schema names))"

definition insert_mapping :: "TableSchema \<Rightarrow> bytes list \<Rightarrow> (status, nat list) sum" where
  "insert_mapping schema columns =
     (if columns = [] then Inr [0..<length (sc_columns schema)]
      else if length columns \<noteq> length (sc_columns schema) then Inl (InvalidArgument (str ''all columns must be provided''))
      else map_columns schema columns)"

fun fill_row :: "TableSchema \<Rightarrow> (nat \<times> Value) list \<Rightarrow> Value list \<Rightarrow> (status, Value list) sum" where
  "fill_row schema [] row = Inr row"
| "fill_row schema ((target, v) # rest) row =
     (if v_type v \<noteq> cd_type (sc_columns schema ! target)
      then Inl (InvalidArgument (str ''type mismatch for column '' @ cd_name (sc_columns schema ! target)))
      else fill_row schema rest (row[target := v]))"

fun insert_rows ::
  "'t txn_ops \<Rightarrow> TableSchema \<Rightarrow> nat list \<Rightarrow> Value list list \<Rightarrow> ResultSet \<Rightarrow> 't \<Rightarrow> status \<times> ResultSet \<times> 't" where
  "insert_rows ops schema mapping [] out t = (OK, out, t)"
| "insert_rows ops schema mapping (literals # rest) out t =
     (if length literals \<noteq> length (sc_columns schema) then (InvalidArgument (str ''wrong value count''), out, t)
      else case fill_row schema (zip mapping literals) (replicate (length (sc_columns schema)) Value_default) of
        Inl s \<Rightarrow> (s, out, t)
      | Inr row \<Rightarrow>
          (let pk = row ! the (PkIndex schema); key = RowKey (sc_table_id schema) pk
           in case tx_Get ops key t of
                (Inr _, t) \<Rightarrow> (InvalidArgument (str ''duplicate primary key '' @ Value_ToString pk), out, t)
              | (Inl s, t) \<Rightarrow>
                  if \<not> IsNotFound s then (s, out, t)
                  else insert_rows ops schema mapping rest (out\<lparr>rs_affected := rs_affected out + 1\<rparr>) (tx_Put ops key (EncodeRow row) t)))"

definition Execute_Insert ::
  "'t txn_ops \<Rightarrow> bytes \<Rightarrow> bytes list \<Rightarrow> Value list list \<Rightarrow> ResultSet \<Rightarrow> 't \<Rightarrow> status \<times> ResultSet \<times> 't" where
  "Execute_Insert ops table columns rows out t =
     (case LoadSchema ops table t of
        (Inl s, t) \<Rightarrow> (s, out, t)
      | (Inr schema, t) \<Rightarrow>
          (case insert_mapping schema columns of
             Inl s \<Rightarrow> (s, out, t)
           | Inr mapping \<Rightarrow> insert_rows ops schema mapping rows out t))"

definition Execute_Select ::
  "'t txn_ops \<Rightarrow> bytes \<Rightarrow> bytes list \<Rightarrow> Predicate list \<Rightarrow> ResultSet \<Rightarrow> 't \<Rightarrow> status \<times> ResultSet \<times> 't" where
  "Execute_Select ops table columns preds out t =
     (case LoadSchema ops table t of
        (Inl s, t) \<Rightarrow> (s, out, t)
      | (Inr schema, t) \<Rightarrow>
          (let out = out\<lparr>rs_columns := rs_columns out @
                 (if columns = [] then map cd_name (sc_columns schema) else takeWhile (\<lambda>n. ColumnIndex schema n \<noteq> None) columns)\<rparr>
           in case if columns = [] then Inr [0..<length (sc_columns schema)] else map_columns schema columns of
                Inl s \<Rightarrow> (s, out, t)
              | Inr projection \<Rightarrow>
                  (case FetchRows ops schema preds t of
                     (Inl s, t) \<Rightarrow> (s, out, t)
                   | (Inr rows, t) \<Rightarrow>
                       (OK, out\<lparr>rs_rows := rs_rows out @ map (\<lambda>(key, row). map (\<lambda>idx. Value_ToString (row ! idx)) projection) rows\<rparr>, t))))"

fun check_sets :: "TableSchema \<Rightarrow> (bytes \<times> Value) list \<Rightarrow> status" where
  "check_sets schema [] = OK"
| "check_sets schema ((name, v) # sets) =
     (case ColumnIndex schema name of
        None \<Rightarrow> InvalidArgument (str ''unknown column '' @ name)
      | Some idx \<Rightarrow>
          if cd_type (sc_columns schema ! idx) \<noteq> v_type v then InvalidArgument (str ''type mismatch on '' @ name)
          else if Some idx = PkIndex schema then InvalidArgument (str ''cannot update the primary key'')
          else check_sets schema sets)"

definition set_columns :: "TableSchema \<Rightarrow> (bytes \<times> Value) list \<Rightarrow> Value list \<Rightarrow> Value list" where
  "set_columns schema sets row = foldl (\<lambda>row (name, v). row[the (ColumnIndex schema name) := v]) row sets"

definition Execute_Update ::
  "'t txn_ops \<Rightarrow> bytes \<Rightarrow> (bytes \<times> Value) list \<Rightarrow> Predicate list \<Rightarrow> ResultSet \<Rightarrow> 't \<Rightarrow> status \<times> ResultSet \<times> 't" where
  "Execute_Update ops table sets preds out t =
     (case LoadSchema ops table t of
        (Inl s, t) \<Rightarrow> (s, out, t)
      | (Inr schema, t) \<Rightarrow>
          (let s = check_sets schema sets
           in if \<not> is_ok s then (s, out, t)
              else case FetchRows ops schema preds t of
                (Inl s, t) \<Rightarrow> (s, out, t)
              | (Inr rows, t) \<Rightarrow>
                  (OK, out\<lparr>rs_affected := rs_affected out + length rows\<rparr>,
                   foldl (\<lambda>t (key, row). tx_Put ops key (EncodeRow (set_columns schema sets row)) t) t rows)))"

definition Execute_Delete :: "'t txn_ops \<Rightarrow> bytes \<Rightarrow> Predicate list \<Rightarrow> ResultSet \<Rightarrow> 't \<Rightarrow> status \<times> ResultSet \<times> 't" where
  "Execute_Delete ops table preds out t =
     (case LoadSchema ops table t of
        (Inl s, t) \<Rightarrow> (s, out, t)
      | (Inr schema, t) \<Rightarrow>
          (case FetchRows ops schema preds t of
             (Inl s, t) \<Rightarrow> (s, out, t)
           | (Inr rows, t) \<Rightarrow>
               (OK, out\<lparr>rs_affected := rs_affected out + length rows\<rparr>, foldl (\<lambda>t (key, row). tx_Delete ops key t) t rows)))"

fun Run_statement :: "'t txn_ops \<Rightarrow> Statement \<Rightarrow> ResultSet \<Rightarrow> 't \<Rightarrow> status \<times> ResultSet \<times> 't" where
  "Run_statement ops (CreateTableStmt table columns) out t = Execute_Create ops table columns out t"
| "Run_statement ops (DropTableStmt table) out t = Execute_Drop ops table out t"
| "Run_statement ops (InsertStmt table columns rows) out t = Execute_Insert ops table columns rows out t"
| "Run_statement ops (SelectStmt table columns preds) out t = Execute_Select ops table columns preds out t"
| "Run_statement ops (UpdateStmt table sets preds) out t = Execute_Update ops table sets preds out t"
| "Run_statement ops (DeleteStmt table preds) out t = Execute_Delete ops table preds out t"

text \<open>One statement in a transaction of its own; the parser has no result where it does not return.\<close>

definition Execute :: "'t txn_ops \<Rightarrow> bytes \<Rightarrow> 't \<Rightarrow> (status \<times> ResultSet \<times> 't) option" where
  "Execute ops statement t =
     map_option (\<lambda>r.
       case r of
         Inl s \<Rightarrow> (s, empty_result, t)
       | Inr stmt \<Rightarrow>
           (case tx_Begin ops t of (s, t) \<Rightarrow>
              if \<not> is_ok s then (s, empty_result, t)
              else case Run_statement ops stmt empty_result t of (s, out, t) \<Rightarrow>
                if \<not> is_ok s then (s, out, snd (tx_Rollback ops t))
                else (case tx_Commit ops t of (s, t) \<Rightarrow> (s, out, t))))
       (Parse statement)"

end
