(* ===== verification/Spec2Isabelle.thy ===== *)
theory Spec2Isabelle
  imports Cluster RaftTrace Frame TxnIsolation SqlPrint SqlExec
begin

text \<open>
  Verification of FlotillaDB, a distributed SQL store in C++ (\<open>src/\<close>).

  \<^bold>\<open>The program.\<close>  A node keeps its data in one storage engine, a log-structured merge tree
  (\<open>src/storage\<close>): a write goes to a write-ahead log and a skip list, full skip lists are flushed
  into sorted tables, and tables are compacted level by level.  The key space is cut into ranges;
  every range is replicated by a group of a deterministic Raft core (\<open>src/raft\<close>) that a host drives
  (\<open>src/server/raft_group.cc\<close>): it persists what the core asks for, sends its messages and applies
  committed commands to the engine.  Transactions follow Percolator (\<open>src/txn\<close>): locks, write
  records and values are keys of the engine.  A SQL layer (\<open>src/sql\<close>) runs statements inside such
  transactions.  Requests travel in frames over TCP (\<open>src/net\<close>).

  \<^bold>\<open>Conventions.\<close>  Structures are records with the fields of the code, machine integers are words,
  strings are lists of bytes.  Files and system calls are the record \<open>world\<close> of theory \<open>Fs\<close>: the
  contents of files, what of them is on the disk, and a list of outcomes, one per system call to
  come, that decides which calls fail or write less than asked; the empty list is a world without
  faults.  Operations return a status (\<open>Status\<close>) or a sum of a status and a result.  Where a loop
  may not end or the code may read outside of an array, the result is optional, and \<open>None\<close> means
  that there is none; the theorems on such operations show that they have a result.

  \<^bold>\<open>Shared routines\<close> (\<open>src/common\<close>).
  \<^item> \<open>Prelude\<close>: machine types, byte strings in their order, rule collections.
  \<^item> \<open>Coding\<close> (\<open>coding.h\<close>): encoders, the decoder, and the contract \<open>wire_item\<close> of an encoded item.
  \<^item> \<open>Status\<close> (\<open>status.h\<close>, \<open>status.cc\<close>), \<open>Crc32\<close> (\<open>crc32.cc\<close>; the table-driven sum is the bitwise one
    and detects a changed byte), \<open>Fs\<close> (\<open>fs.cc\<close>), \<open>Records\<close> (the checksummed records of both logs).

  \<^bold>\<open>Consensus\<close> (\<open>src/raft\<close>).
  \<^item> \<open>Raft\<close> (\<open>raft.h\<close>, \<open>raft.cc\<close>): the state and every operation of the core.
  \<^item> \<open>Wire\<close> (\<open>wire.cc\<close>): messages; they decode to themselves.
  \<^item> \<open>RaftStorage\<close> (\<open>raft_storage.cc\<close>): the files of a group.  Persisting a \<open>Ready\<close> refines an abstract
    update, and opening after a crash returns what was written completely.
  \<^item> \<open>RaftFrame\<close>, \<open>RaftInv\<close>, \<open>RaftCommit\<close>, \<open>RaftVotes\<close>: what the operations keep, that the \<open>Ready\<close> leads from
    the disk to the memory, commits in order, the commit rule and the vote discipline.
  \<^item> \<open>Cluster\<close>, \<open>RaftTrace\<close>: clusters of hosts with lost, repeated and reordered messages and crashes.
    At most one leader is elected per term; a run shows that a follower can commit a stale entry.

  \<^bold>\<open>Storage\<close> (\<open>src/storage\<close>).
  \<^item> \<open>Entry\<close>, \<open>Iter\<close> (\<open>entry.h\<close>, \<open>merging_iterator.cc\<close>): versions in their order, the contract of
    an iterator, and the merging iterator as an instance of it.
  \<^item> \<open>Wal\<close> (\<open>wal.cc\<close>), \<open>Memtable\<close> (\<open>memtable.cc\<close>), \<open>Bloom\<close> (\<open>bloom.cc\<close>), \<open>SSTable\<close> and \<open>TableBuild\<close>
    (\<open>sstable.cc\<close>), \<open>Manifest\<close> (\<open>manifest.cc\<close>): each against its reference.
  \<^item> \<open>DB\<close> (\<open>db.h\<close>, \<open>db.cc\<close>): the engine.  The thread that flushes and compacts is \<open>background_step\<close>; a
    caller that waits for it is modelled by the steps the thread makes meanwhile.
  \<^item> \<open>DBBuild\<close>, \<open>DBView\<close>, \<open>DBInv\<close>, \<open>DBFlush\<close>, \<open>DBCompact\<close>, \<open>DBMerge\<close>, \<open>DBEngine\<close>: building tables, what
    lookups and iterators show, the invariant, flush and compaction, and the composition: for every
    history, whatever system calls fail, the engine shows the map of the writes that happened.
  \<^item> \<open>KvStore\<close>, \<open>DBKv\<close>: the interface of a store without faults, and the engine as an instance.

  The invariant of the engine bounds sizes so that the offsets of a table fit their 32 bits: write
  buffers up to \<open>2 ^ 24\<close> bytes (\<open>modest\<close>; the default is 4 MiB), a key with its value up to \<open>2 ^ 25\<close>
  (\<open>small_entry\<close>, \<open>kv_small\<close>; a frame is limited to 32 MiB), and memtables that have not grown past
  this (\<open>roomy\<close>); sequence numbers stay below \<open>2 ^ 64\<close> (\<open>seq_room\<close>).

  \<^bold>\<open>Transactions\<close> (\<open>src/txn\<close>).
  \<^item> \<open>TxnCodec\<close> (\<open>codec.cc\<close>): keys and records; the order of keys, the columns are disjoint.
  \<^item> \<open>TxnOps\<close> (\<open>txn_ops.cc\<close>): prewrite, commit, rollback, reads and scans over any store.
  \<^item> \<open>TxnSpec\<close>, \<open>TxnInv\<close>: their meaning on maps, and the invariant of locks and write records.
  \<^item> \<open>TxnIsolation\<close>: histories of transactions over the engine.  Committed transactions on a key do
    not overlap, snapshot reads repeat, committed values are read; and a prewrite that is applied
    again after a crash between its two writes loses its value.

  \<^bold>\<open>SQL\<close> (\<open>src/sql\<close>).
  \<^item> \<open>SqlLexer\<close> (\<open>lexer.cc\<close>), \<open>SqlParser\<close> (\<open>parser.cc\<close>, \<open>ast.h\<close>), \<open>SqlPrint\<close>: the parser always returns,
    stays inside its tokens, accepts only well-formed statements, and reads the text of every
    statement back.
  \<^item> \<open>SqlCatalog\<close> (\<open>catalog.cc\<close>): schemas and rows decode to themselves, row keys are in the order of
    the primary keys and within the bounds of the scan over their table.
  \<^item> \<open>SqlExec\<close> (\<open>executor.cc\<close>): every statement over the operations of a transaction.

  \<^bold>\<open>Network\<close> (\<open>src/net\<close>).
  \<^item> \<open>Messages\<close> (\<open>messages.cc\<close>), \<open>Frame\<close> (\<open>frame.cc\<close>, \<open>socket.cc\<close>): requests, responses and frames over
    partial and interrupted reads and writes.

  \<^bold>\<open>Not modelled.\<close>  Threads and locks: the operations of one object are atomic, as its mutex makes
  them; time-outs and clocks.  Of \<open>src/server\<close> only the loop that drives a Raft core is modelled
  (\<open>run_op\<close>, \<open>host_op\<close>, \<open>host_compact\<close>); applying commands, splitting ranges, routing requests and
  the cluster file are not, nor the clients in \<open>src/client\<close>.  Opening sockets, the accept loop, the
  logger, the command line and \<open>main\<close> are input and output.  Recovery of the engine from its log
  and manifest is modelled (\<open>Recover\<close>), and its parts are proved, but that a reopened engine
  shows the same map is not.
\<close>

end
